(* ===== verification/Prelude.thy ===== *)
theory Prelude
  imports Main "HOL-Library.Word" "HOL-Library.Char_ord" "HOL-Library.List_Lexorder"
begin

text \<open>
  What every component of the attention broker shares: machine integers at their width, the
  ways in which the C++ code can fail, as values of one \<open>error\<close> type, the result of an operation
  that may fail, the decimal printing of \<open>std::to_string\<close> and the reading of a \<open>std::string\<close> at an
  index. The lemmas on words and lists at the end are the ones that several components use.
\<close>

section \<open>Machine integers\<close>

type_synonym u8 = "8 word"
type_synonym u32 = "32 word"
type_synonym u64 = "64 word"

section \<open>Failures and results\<close>

text \<open>
  \<open>Runtime_Error\<close> is the exception thrown by \<open>Utils::error\<close>, with its message. The other
  constructors name what ends the C++ program, or leaves its behaviour undefined: an access outside
  an array or a string, the use of memory that was never written, a zero divisor, a dereferenced
  NULL, the use of an object through a pointer cast to another type, \<open>exit(1)\<close> with the printed
  message, a \<open>join\<close> of a thread that was joined before, and a \<open>lock\<close> of a mutex that nobody will
  ever release.
\<close>

datatype error =
    Runtime_Error string
  | Out_Of_Bounds
  | Uninitialised_Read
  | Division_By_Zero
  | Null_Dereference
  | Type_Confusion
  | Exit_Failure string
  | Not_Joinable
  | Blocked_Forever

type_synonym 'a result = "error + 'a"

definition and_then :: "'a result \<Rightarrow> ('a \<Rightarrow> 'b result) \<Rightarrow> 'b result" where
  "and_then r f = (case r of Inl e \<Rightarrow> Inl e | Inr x \<Rightarrow> f x)"

lemma and_then_simps [simp]:
  "and_then (Inl e) f = Inl e"
  "and_then (Inr x) f = f x"
  by (simp_all add: and_then_def)

lemma and_then_Inr_iff:
  "and_then r f = Inr y \<longleftrightarrow> (\<exists>x. r = Inr x \<and> f x = Inr y)"
  by (cases r) auto

lemma and_then_cong [fundef_cong]:
  "r = r' \<Longrightarrow> (\<And>x. r' = Inr x \<Longrightarrow> f x = f' x) \<Longrightarrow> and_then r f = and_then r' f'"
  by (cases r') auto

text \<open>A range-based \<open>for\<close> loop over a container, with the state that its body changes.\<close>

fun for_each :: "('a \<Rightarrow> 's \<Rightarrow> 's result) \<Rightarrow> 'a list \<Rightarrow> 's \<Rightarrow> 's result" where
  "for_each body [] s = Inr s"
| "for_each body (x # xs) s = and_then (body x s) (for_each body xs)"

lemma for_each_append:
  "for_each body (xs @ ys) s = and_then (for_each body xs s) (for_each body ys)"
  by (induction xs arbitrary: s) (auto simp: and_then_def split: sum.split)

lemma for_each_map: "for_each body (map f xs) s = for_each (body \<circ> f) xs s"
  by (induction xs arbitrary: s) (auto simp: and_then_def split: sum.split)

lemma for_each_concat:
  "for_each body (concat (map f xs)) = for_each (\<lambda>x. for_each body (f x)) xs"
proof
  show "for_each body (concat (map f xs)) s = for_each (\<lambda>x. for_each body (f x)) xs s" for s
    by (induction xs arbitrary: s) (auto simp: for_each_append and_then_def split: sum.split)
qed

lemma for_each_unfold:
  "for_each body [] = Inr" "for_each body (x # xs) = (\<lambda>s. and_then (body x s) (for_each body xs))"
  by (rule ext, simp)+

lemma for_each_cong_invariant:
  assumes "P s" and "\<And>x s. x \<in> set xs \<Longrightarrow> P s \<Longrightarrow> body x s = body' x s"
    and "\<And>x s s'. x \<in> set xs \<Longrightarrow> P s \<Longrightarrow> body' x s = Inr s' \<Longrightarrow> P s'"
  shows "for_each body xs s = for_each body' xs s"
  using assms
proof (induction xs arbitrary: s)
  case (Cons x xs)
  have "for_each body xs s' = for_each body' xs s'" if "body' x s = Inr s'" for s'
  proof (rule Cons.IH)
    show "P s'" using Cons.prems(3) [OF _ Cons.prems(1) that] by simp
    show "P t" if "y \<in> set xs" "P s''" "body' y s'' = Inr t" for y s'' t
      using that Cons.prems(3) [OF _ that(2,3)] by simp
  qed (use Cons.prems(2) in auto)
  then show ?case
    using Cons.prems(2) [OF _ Cons.prems(1), of x] by (cases "body' x s") simp_all
qed simp

lemma for_each_invariant:
  assumes "\<And>x s. x \<in> set xs \<Longrightarrow> P s \<Longrightarrow> \<exists>s'. body x s = Inr s' \<and> P s'" and "P s"
  shows "\<exists>s'. for_each body xs s = Inr s' \<and> P s'"
  using assms
proof (induction xs arbitrary: s)
  case Nil
  then show ?case by simp
next
  case (Cons x xs)
  obtain s1 where "body x s = Inr s1" "P s1" using Cons.prems by fastforce
  with Cons.IH [of s1] Cons.prems(1) show ?case by simp
qed

section \<open>Strings\<close>

text \<open>\<open>std::to_string\<close> of an unsigned integer: its decimal digits.\<close>

definition digit_char :: "nat \<Rightarrow> char" where
  "digit_char d = char_of (48 + d)"

fun dec :: "nat \<Rightarrow> string" where
  "dec n = (if n < 10 then [digit_char n] else dec (n div 10) @ [digit_char (n mod 10)])"

declare dec.simps [simp del]

text \<open>The digits of a number, read back.\<close>

definition is_digit :: "char \<Rightarrow> bool" where
  "is_digit c \<longleftrightarrow> 48 \<le> (of_char c :: nat) \<and> (of_char c :: nat) \<le> 57"

definition decimal :: "string \<Rightarrow> int" where
  "decimal ds = foldl (\<lambda>n c. 10 * n + (of_char c - 48)) 0 ds"

lemma digit_char: "d < 10 \<Longrightarrow> is_digit (digit_char d) \<and> of_char (digit_char d) = 48 + int d"
proof -
  have "\<forall>d\<in>set [0..<10]. is_digit (digit_char d) \<and> of_char (digit_char d) = 48 + int d" by code_simp
  then show "d < 10 \<Longrightarrow> ?thesis" by simp
qed

lemma decimal_snoc: "decimal (ds @ [c]) = 10 * decimal ds + (of_char c - 48)"
  by (simp add: decimal_def)

lemma dec_digits: "(\<forall>c\<in>set (dec n). is_digit c) \<and> decimal (dec n) = int n \<and> dec n \<noteq> []"
proof (induction n rule: dec.induct)
  case (1 n)
  show ?case
  proof (cases "n < 10")
    case True
    with digit_char [of n] show ?thesis by (subst (1 2 3) dec.simps) (simp add: decimal_def)
  next
    case False
    with 1 have IH: "\<forall>c\<in>set (dec (n div 10)). is_digit c" "decimal (dec (n div 10)) = int (n div 10)" by auto
    have "int n = 10 * int (n div 10) + int (n mod 10)" by presburger
    with IH digit_char [of "n mod 10"] False show ?thesis
      by (subst (1 2 3) dec.simps) (simp add: decimal_snoc)
  qed
qed

text \<open>\<open>std::to_string\<close> of an \<open>int\<close>.\<close>

definition dec_int :: "int \<Rightarrow> string" where
  "dec_int i = (if i < 0 then CHR ''-'' # dec (nat (- i)) else dec (nat i))"

text \<open>
  \<open>s1.compare(s2) < 0\<close>: the order of \<open>std::string\<close>, by the first different characters as
  unsigned bytes, a proper prefix first.
\<close>

fun string_less :: "string \<Rightarrow> string \<Rightarrow> bool" where
  "string_less xs [] = False"
| "string_less [] (y # ys) = True"
| "string_less (x # xs) (y # ys) =
     ((of_char x :: nat) < of_char y \<or> x = y \<and> string_less xs ys)"

text \<open>It is the lexicographic order of the library.\<close>

lemma string_less_iff: "string_less s t \<longleftrightarrow> s < t"
  by (induction s t rule: string_less.induct) (simp_all add: less_char_def)

lemma string_less_irrefl [simp]: "\<not> string_less s s"
  by (simp add: string_less_iff)

lemma string_less_asym: "string_less s t \<Longrightarrow> \<not> string_less t s"
  by (simp add: string_less_iff)

lemma string_less_total: "s \<noteq> t \<Longrightarrow> string_less s t \<or> string_less t s"
  by (simp add: string_less_iff neq_iff)

text \<open>
  \<open>s[i]\<close> on a \<open>std::string\<close>: the character at \<open>i\<close>, the terminating null character at
  \<open>i = s.size()\<close>, and undefined behaviour beyond it.
\<close>

definition str_at :: "string \<Rightarrow> nat \<Rightarrow> char result" where
  "str_at s i = (if i < length s then Inr (s ! i)
                 else if i = length s then Inr (CHR 0x00)
                 else Inl Out_Of_Bounds)"

lemma str_at_less [simp]: "i < length s \<Longrightarrow> str_at s i = Inr (s ! i)"
  by (simp add: str_at_def)

section \<open>Lemmas on words and lists\<close>

lemma unat_u8_less: "unat (w::u8) < 256"
  using unsigned_less [of w, where ?'a = nat] by simp

lemma unat_u32_less: "unat (w::u32) < 2 ^ 32"
  using unsigned_less [of w, where ?'a = nat] by simp

lemma unat_Suc_less: "(x::'a::len word) < y \<Longrightarrow> unat (x + 1) = Suc (unat x)"
proof -
  assume "x < y"
  then have "x \<noteq> - 1" by (metis word_order.extremum_strict)
  then have "1 + x \<noteq> 0" by (metis add.commute eq_neg_iff_add_eq_0)
  then show ?thesis by (simp add: unatSuc add.commute)
qed

lemma unat_succ_mod: "(x::'a::len word) < y \<Longrightarrow> unat ((x + 1) mod y) = Suc (unat x) mod unat y"
  by (simp add: unat_mod_distrib unat_Suc_less)

lemma nth_append_replicate_update:
  "length xs = n \<Longrightarrow> (xs @ replicate (Suc k) z)[n := y] = (xs @ [y]) @ replicate k z"
  by (simp add: list_update_append)

lemma sum_list_swap:
  fixes x :: "'a::comm_monoid_add"
  assumes "i < length xs"
  shows "sum_list (xs[i := x]) + xs ! i = sum_list xs + x"
  using assms by (induction xs arbitrary: i) (auto simp: ac_simps split: nat.split)

lemma add_mod_back_iff:
  fixes e k n :: nat
  assumes "e < n" and "0 < k" and "k \<le> n"
  shows "(e + k) mod n = e \<longleftrightarrow> k = n"
proof
  assume eq: "(e + k) mod n = e"
  show "k = n"
  proof (rule ccontr)
    assume "k \<noteq> n"
    with assms(3) have "k < n" by simp
    show False
    proof (cases "e + k < n")
      case True
      with eq assms(2) show False by simp
    next
      case False
      with \<open>k < n\<close> assms(1) have "(e + k) mod n = e + k - n" by (simp add: mod_if)
      with eq \<open>k < n\<close> False show False by simp
    qed
  qed
qed (use assms in simp)

lemma add_mod_eq_imp_le:
  fixes s i j n :: nat
  assumes "(s + i) mod n = (s + j) mod n" and "j < n"
  shows "j \<le> i"
proof (rule ccontr)
  assume "\<not> j \<le> i"
  with assms(1) have "n dvd j - i" by (metis add_diff_cancel_left linear mod_eq_dvd_iff_nat nat_add_left_cancel_le)
  with assms(2) \<open>\<not> j \<le> i\<close> show False by (simp add: nat_dvd_not_less)
qed

lemma add_mod_eq_iff:
  fixes s i j n :: nat
  assumes "i < n" and "j < n"
  shows "(s + i) mod n = (s + j) mod n \<longleftrightarrow> i = j"
  using add_mod_eq_imp_le [of s i n j] add_mod_eq_imp_le [of s j n i] assms by auto

end
