(* ===== verification/Fifo_Spec.thy ===== *)
theory Fifo_Spec
  imports Prelude
begin

text \<open>
  The contract of a request queue, as its clients (the request selectors of the worker threads, the
  RPC handlers, the inbox of a message broker) rely on it. A request is a \<open>void *\<close>: \<open>None\<close> is
  NULL. The clients' view is a plain list; a script of operations run on the queue gives the
  outputs that the script gives on the list.
\<close>

section \<open>Scripts of queue operations\<close>

datatype 'a queue_op = Enqueue "'a option" | Dequeue

text \<open>The specification: a script over a list, with the pointers that the dequeues return.\<close>

fun run_list :: "'a option list \<Rightarrow> 'a queue_op list \<Rightarrow> 'a option list \<times> 'a option list" where
  "run_list xs [] = ([], xs)"
| "run_list xs (Enqueue r # ops) = run_list (xs @ [r]) ops"
| "run_list [] (Dequeue # ops) = (let (out, ys) = run_list [] ops in (None # out, ys))"
| "run_list (x # xs) (Dequeue # ops) = (let (out, ys) = run_list xs ops in (x # out, ys))"

text \<open>The same script over an implementation of the two operations.\<close>

fun run_queue :: "('q \<Rightarrow> 'a option \<Rightarrow> 'q result) \<Rightarrow> ('q \<Rightarrow> ('a option \<times> 'q) result) \<Rightarrow> 'q
    \<Rightarrow> 'a queue_op list \<Rightarrow> ('a option list \<times> 'q) result" where
  "run_queue enq deq q [] = Inr ([], q)"
| "run_queue enq deq q (Enqueue r # ops) =
     and_then (enq q r) (\<lambda>q'. run_queue enq deq q' ops)"
| "run_queue enq deq q (Dequeue # ops) =
     and_then (deq q) (\<lambda>(r, q'). and_then (run_queue enq deq q' ops)
       (\<lambda>(out, q''). Inr (r # out, q'')))"

definition enqueues :: "'a queue_op list \<Rightarrow> nat" where
  "enqueues ops = length (filter (\<lambda>op. op \<noteq> Dequeue) ops)"

lemma enqueues_simps [simp]:
  "enqueues [] = 0"
  "enqueues (Enqueue r # ops) = Suc (enqueues ops)"
  "enqueues (Dequeue # ops) = enqueues ops"
  by (simp_all add: enqueues_def)

lemma run_list_dequeues: "run_list xs (replicate (length xs) Dequeue) = (xs, [])"
  by (induction xs) simp_all

lemma run_list_enqueues: "run_list xs (map Enqueue ys @ ops) = run_list (xs @ ys) ops"
  by (induction ys arbitrary: xs) simp_all

section \<open>The contract\<close>

locale request_fifo =
  fixes enq :: "'q \<Rightarrow> 'a option \<Rightarrow> 'q result"
    and deq :: "'q \<Rightarrow> ('a option \<times> 'q) result"
    and contents :: "'q \<Rightarrow> 'a option list"
    and ok :: "'q \<Rightarrow> bool"
    and capacity :: nat
  assumes enq_law: "ok q \<Longrightarrow> length (contents q) < capacity \<Longrightarrow>
      \<exists>q'. enq q r = Inr q' \<and> ok q' \<and> contents q' = contents q @ [r]"
    and deq_empty_law: "ok q \<Longrightarrow> contents q = [] \<Longrightarrow> deq q = Inr (None, q)"
    and deq_law: "ok q \<Longrightarrow> contents q = r # rs \<Longrightarrow>
      \<exists>q'. deq q = Inr (r, q') \<and> ok q' \<and> contents q' = rs"
begin

lemma deq_total:
  assumes "ok q"
  shows "\<exists>r q'. deq q = Inr (r, q') \<and> ok q' \<and> contents q' = tl (contents q)
    \<and> r = (case contents q of [] \<Rightarrow> None | x # _ \<Rightarrow> x)"
proof (cases "contents q")
  case Nil
  with deq_empty_law [OF assms] assms show ?thesis by simp
next
  case (Cons x xs)
  with deq_law [OF assms Cons] show ?thesis by auto
qed

text \<open>Every script behaves as on a list, as long as it does not enqueue beyond the capacity.\<close>

lemma run_queue_refines:
  assumes "ok q" and "length (contents q) + enqueues ops \<le> capacity"
  shows "\<exists>q'. run_queue enq deq q ops = Inr (fst (run_list (contents q) ops), q')
    \<and> ok q' \<and> contents q' = snd (run_list (contents q) ops)"
  using assms
proof (induction ops arbitrary: q)
  case Nil
  then show ?case by simp
next
  case (Cons op ops)
  show ?case
  proof (cases op)
    case (Enqueue r)
    with Cons.prems obtain q' where q': "enq q r = Inr q'" "ok q'" "contents q' = contents q @ [r]"
      using enq_law [of q r] by auto
    with Cons.prems Enqueue show ?thesis using Cons.IH [of q'] by simp
  next
    case Dequeue
    obtain r q' where q': "deq q = Inr (r, q')" "ok q'" "contents q' = tl (contents q)"
      and r: "r = (case contents q of [] \<Rightarrow> None | x # _ \<Rightarrow> x)"
      using deq_total Cons.prems(1) by blast
    have "length (contents q') + enqueues ops \<le> capacity"
      using Cons.prems(2) Dequeue q'(3) by simp
    with Cons.IH [OF q'(2)] q' r Dequeue show ?thesis
      by (cases "contents q") (auto simp: split_beta)
  qed
qed

text \<open>What was enqueued on an empty queue is dequeued once each, in the same order.\<close>

lemma fifo_order:
  assumes "ok q" and "contents q = []" and "length rs \<le> capacity"
  shows "\<exists>q'. run_queue enq deq q (map Enqueue rs @ replicate (length rs) Dequeue) = Inr (rs, q')
    \<and> contents q' = []"
proof -
  let ?ops = "map Enqueue rs @ replicate (length rs) (Dequeue :: 'a queue_op)"
  have "enqueues ?ops = length rs" by (simp add: enqueues_def)
  with run_queue_refines [OF assms(1), of ?ops] assms(2,3) show ?thesis
    by (auto simp: run_list_enqueues run_list_dequeues)
qed

end

end
