(* ===== verification/Request_Queue.thy ===== *)
theory Request_Queue
  imports Fifo_Spec
begin

text \<open>
  \<open>commons/RequestQueue\<close>: the circular array behind the queues of asynchronous requests. Each
  operation holds \<open>request_queue_mutex\<close> from its first to its last statement, so an operation
  is one atomic step and the mutex is not part of the state. The four counters are \<open>unsigned int\<close>,
  kept at 32 bits. A cell of a fresh \<open>new void*[n]\<close> is uninitialised: reading one is an error.
\<close>

section \<open>State\<close>

datatype 'a cell = Uninit | Ptr "'a option"

record 'a request_queue =
  q_requests :: "'a cell list"
  q_size :: u32
  q_count :: u32
  q_start :: u32
  q_end :: u32

definition new_RequestQueue :: "u32 \<Rightarrow> 'a request_queue" where
  "new_RequestQueue initial_size =
     \<lparr>q_requests = replicate (unat initial_size) Uninit, q_size = initial_size,
      q_count = 0, q_start = 0, q_end = 0\<rparr>"

text \<open>The default argument of the constructor.\<close>

definition default_RequestQueue :: "'a request_queue" where
  "default_RequestQueue = new_RequestQueue 1000"

section \<open>Operations\<close>

text \<open>
  The \<open>do ... while\<close> loop of \<open>enlarge_request_queue\<close>: copies cell after cell from the
  cursor on, until the cursor reaches \<open>end\<close>. The array bounds are checked against the allocated
  sizes. The bound on the new array makes the loop stop even where \<open>end\<close> is never reached.
\<close>

function copy_requests :: "'a cell list \<Rightarrow> u32 \<Rightarrow> u32 \<Rightarrow> 'a cell list \<Rightarrow> u32 \<Rightarrow> u32 \<Rightarrow> u32
    \<Rightarrow> ('a cell list \<times> u32) result" where
  "copy_requests requests sz fin new_queue new_size cursor new_cursor =
     (if \<not> cursor < sz \<or> \<not> new_cursor < new_size then Inl Out_Of_Bounds
      else
        let new_queue' = new_queue[unat new_cursor := requests ! unat cursor];
            new_cursor' = new_cursor + 1;
            cursor' = (cursor + 1) mod sz
        in if cursor' \<noteq> fin
           then copy_requests requests sz fin new_queue' new_size cursor' new_cursor'
           else Inr (new_queue', new_cursor'))"
  by pat_completeness auto
termination
  by (relation "measure (\<lambda>(requests, sz, fin, new_queue, new_size, cursor, new_cursor).
        unat new_size - unat new_cursor)")
    (auto simp: unat_Suc_less word_less_nat_alt)

declare copy_requests.simps [simp del]

definition enlarge_request_queue :: "'a request_queue \<Rightarrow> 'a request_queue result" where
  "enlarge_request_queue q =
     (let new_size = q_size q * 2;
          new_queue = replicate (unat new_size) Uninit
      in and_then (copy_requests (q_requests q) (q_size q) (q_end q) new_queue new_size (q_start q) 0)
           (\<lambda>(new_queue', new_cursor).
              Inr (q\<lparr>q_size := new_size, q_start := 0, q_end := new_cursor,
                     q_requests := new_queue'\<rparr>)))"

definition enqueue :: "'a request_queue \<Rightarrow> 'a option \<Rightarrow> 'a request_queue result" where
  "enqueue q request =
     and_then (if q_count q = q_size q then enlarge_request_queue q else Inr q)
       (\<lambda>q. if q_end q < q_size q
            then Inr (q\<lparr>q_requests := (q_requests q)[unat (q_end q) := Ptr request],
                        q_end := (q_end q + 1) mod q_size q,
                        q_count := q_count q + 1\<rparr>)
            else Inl Out_Of_Bounds)"

definition dequeue :: "'a request_queue \<Rightarrow> ('a option \<times> 'a request_queue) result" where
  "dequeue q =
     (if q_count q > 0
      then if q_start q < q_size q
           then case q_requests q ! unat (q_start q) of
                  Uninit \<Rightarrow> Inl Uninitialised_Read
                | Ptr answer \<Rightarrow>
                    Inr (answer, q\<lparr>q_start := (q_start q + 1) mod q_size q,
                                   q_count := q_count q - 1\<rparr>)
           else Inl Out_Of_Bounds
      else Inr (None, q))"

text \<open>The accessors.\<close>

definition current_size :: "'a request_queue \<Rightarrow> u32" where
  "current_size q = q_size q"

definition current_start :: "'a request_queue \<Rightarrow> u32" where
  "current_start q = q_start q"

definition current_end :: "'a request_queue \<Rightarrow> u32" where
  "current_end q = q_end q"

definition current_count :: "'a request_queue \<Rightarrow> u32" where
  "current_count q = q_count q"

section \<open>Invariant and abstraction\<close>

definition queue_index :: "'a request_queue \<Rightarrow> nat \<Rightarrow> nat" where
  "queue_index q i = (unat (q_start q) + i) mod unat (q_size q)"

definition queue_ok :: "'a request_queue \<Rightarrow> bool" where
  "queue_ok q \<longleftrightarrow> 0 < q_size q \<and> length (q_requests q) = unat (q_size q)
     \<and> q_count q \<le> q_size q \<and> q_start q < q_size q
     \<and> unat (q_end q) = queue_index q (unat (q_count q))
     \<and> (\<forall>i < unat (q_count q). q_requests q ! queue_index q i \<noteq> Uninit)"

fun cell_request :: "'a cell \<Rightarrow> 'a option" where
  "cell_request Uninit = None"
| "cell_request (Ptr p) = p"

text \<open>The requests in the queue, the oldest one first.\<close>

definition queue_contents :: "'a request_queue \<Rightarrow> 'a option list" where
  "queue_contents q =
     map (\<lambda>i. cell_request (q_requests q ! queue_index q i)) [0..<unat (q_count q)]"

lemma length_queue_contents [simp]: "length (queue_contents q) = unat (q_count q)"
  by (simp add: queue_contents_def)

lemma queue_index_update [simp]:
  "queue_index (q\<lparr>q_requests := xs\<rparr>) = queue_index q"
  "queue_index (q\<lparr>q_end := e\<rparr>) = queue_index q"
  "queue_index (q\<lparr>q_count := n\<rparr>) = queue_index q"
  by (simp_all add: queue_index_def fun_eq_iff)

section \<open>The copying loop\<close>

text \<open>
  On a full array (\<open>start = end\<close>) the loop makes \<open>size\<close> rounds and leaves the cells from
  \<open>start\<close> on, in the order of the queue, at the beginning of the new array.
\<close>

lemma copy_requests_full:
  assumes "fin < sz" and "j < unat sz" and "unat sz + m = unat new_size"
    and "unat cursor = (unat fin + j) mod unat sz" and "unat new_cursor = j"
    and "new_queue = map (\<lambda>i. requests ! ((unat fin + i) mod unat sz)) [0..<j]
           @ replicate (unat sz - j + m) Uninit"
  shows "copy_requests requests sz fin new_queue new_size cursor new_cursor =
    Inr (map (\<lambda>i. requests ! ((unat fin + i) mod unat sz)) [0..<unat sz]
           @ replicate m Uninit, sz)"
  using assms
proof (induction "unat sz - j" arbitrary: j new_queue cursor new_cursor)
  case 0
  then show ?case by simp
next
  case (Suc k)
  let ?cell = "\<lambda>i. requests ! ((unat fin + i) mod unat sz)"
  have pos: "0 < unat sz" using Suc.prems(2) by simp
  have c: "cursor < sz" using Suc.prems(4) pos by (simp add: word_less_nat_alt)
  have n: "new_cursor < new_size" using Suc.prems(2,3,5) by (simp add: word_less_nat_alt)
  have k: "unat sz - j + m = Suc (k + m)" using Suc.hyps(2) by simp
  have queue': "new_queue[unat new_cursor := requests ! unat cursor]
      = map ?cell [0..<Suc j] @ replicate (k + m) Uninit"
    using Suc.prems(4,5,6) nth_append_replicate_update [of "map ?cell [0..<j]" j] by (simp add: k)
  have new': "unat (new_cursor + 1) = Suc j" using unat_Suc_less [OF n] Suc.prems(5) by simp
  have cur': "unat ((cursor + 1) mod sz) = (unat fin + Suc j) mod unat sz"
    using unat_succ_mod [OF c] Suc.prems(4) by (simp add: mod_Suc_eq)
  have last: "(cursor + 1) mod sz = fin \<longleftrightarrow> Suc j = unat sz"
    using add_mod_back_iff [of "unat fin" "unat sz" "Suc j"] Suc.prems(1,2) cur'
    by (simp add: word_less_nat_alt word_unat_eq_iff)
  show ?case
  proof (cases "Suc j = unat sz")
    case True
    with Suc.hyps(2) have "k = 0" by simp
    from True new' have "new_cursor + 1 = sz" by (simp add: word_unat_eq_iff)
    with \<open>k = 0\<close> show ?thesis
      using c n last True queue' by (subst copy_requests.simps) (simp add: Let_def)
  next
    case False
    have hyp: "copy_requests requests sz fin (map ?cell [0..<Suc j] @ replicate (k + m) Uninit)
        new_size ((cursor + 1) mod sz) (new_cursor + 1)
      = Inr (map ?cell [0..<unat sz] @ replicate m Uninit, sz)"
    proof (rule Suc.hyps(1))
      show "k = unat sz - Suc j" using Suc.hyps(2) by simp
      show "Suc j < unat sz" using False Suc.prems(2) by simp
      then show "map ?cell [0..<Suc j] @ replicate (k + m) Uninit
          = map ?cell [0..<Suc j] @ replicate (unat sz - Suc j + m) Uninit"
        using \<open>k = unat sz - Suc j\<close> by simp
    qed (use Suc.prems cur' new' in simp_all)
    from last False have "(cursor + 1) mod sz \<noteq> fin" by simp
    with c n hyp show ?thesis
      by (subst copy_requests.simps) (simp add: Let_def queue')
  qed
qed

section \<open>The operations keep the invariant and act as on a list\<close>

lemma queue_contents_fields:
  assumes "unat (q_count q) = n"
    and "\<And>i. i < n \<Longrightarrow> cell_request (q_requests q ! queue_index q i) = xs ! i"
    and "length xs = n"
  shows "queue_contents q = xs"
  using assms by (intro nth_equalityI) (auto simp: queue_contents_def)

lemma queue_contents_nth:
  "i < unat (q_count q) \<Longrightarrow> queue_contents q ! i = cell_request (q_requests q ! queue_index q i)"
  by (simp add: queue_contents_def)

lemma queue_ok_new: "0 < n \<Longrightarrow> queue_ok (new_RequestQueue n)"
  by (simp add: queue_ok_def new_RequestQueue_def queue_index_def)

lemma queue_contents_new [simp]: "queue_contents (new_RequestQueue n) = []"
  by (simp add: queue_contents_def new_RequestQueue_def)

lemma unat_double:
  "(w::u32) < 2 ^ 31 \<Longrightarrow> unat (w * 2) = 2 * unat w"
  by (simp add: unat_word_ariths word_less_nat_alt)

lemma enlarge_request_queue_ok:
  assumes ok: "queue_ok q" and full: "q_count q = q_size q" and small: "q_size q < 2 ^ 31"
  shows "\<exists>q'. enlarge_request_queue q = Inr q' \<and> queue_ok q' \<and> queue_contents q' = queue_contents q
    \<and> q_count q' = q_count q \<and> q_size q' = q_size q * 2 \<and> q_start q' = 0 \<and> q_end q' = q_size q"
proof -
  let ?S = "unat (q_size q)"
  let ?cells = "map (\<lambda>i. q_requests q ! ((unat (q_end q) + i) mod ?S)) [0..<?S]"
  let ?q' = "q\<lparr>q_size := q_size q * 2, q_start := 0, q_end := q_size q,
      q_requests := ?cells @ replicate ?S Uninit\<rparr>"
  have S: "0 < ?S" using ok by (auto simp: queue_ok_def word_less_nat_alt)
  have start: "q_start q < q_size q" using ok by (simp add: queue_ok_def)
  then have "unat (q_end q) = unat (q_start q)"
    using ok full by (simp add: queue_ok_def queue_index_def word_less_nat_alt)
  then have se: "q_end q = q_start q" by (simp add: word_unat_eq_iff)
  have double: "unat (q_size q * 2) = 2 * ?S" by (rule unat_double [OF small])
  have "copy_requests (q_requests q) (q_size q) (q_end q) (replicate (unat (q_size q * 2)) Uninit)
      (q_size q * 2) (q_start q) 0 = Inr (?cells @ replicate ?S Uninit, q_size q)"
    using start S se by (intro copy_requests_full [where j = 0]) (simp_all add: double word_less_nat_alt)
  then have e: "enlarge_request_queue q = Inr ?q'"
    by (simp add: enlarge_request_queue_def Let_def)
  have cell: "q_requests ?q' ! queue_index ?q' i = q_requests q ! queue_index q i"
    if "i < ?S" for i
    using that se by (simp add: queue_index_def double nth_append)
  have "queue_ok ?q'"
    using ok S full cell by (auto simp: queue_ok_def double queue_index_def word_less_nat_alt word_le_nat_alt)
  moreover have "queue_contents ?q' = queue_contents q"
    using full cell by (simp add: queue_contents_def)
  ultimately show ?thesis using e by auto
qed

lemma enqueue_no_enlarge:
  assumes ok: "queue_ok q" and room: "q_count q < q_size q"
  shows "\<exists>q'. enqueue q r = Inr q' \<and> queue_ok q' \<and> queue_contents q' = queue_contents q @ [r]
    \<and> q_size q' = q_size q \<and> q_start q' = q_start q"
proof -
  let ?S = "unat (q_size q)" and ?n = "unat (q_count q)"
  let ?q' = "q\<lparr>q_requests := (q_requests q)[unat (q_end q) := Ptr r],
      q_end := (q_end q + 1) mod q_size q, q_count := q_count q + 1\<rparr>"
  have n: "?n < ?S" using room by (simp add: word_less_nat_alt)
  have e: "unat (q_end q) = queue_index q ?n" and len: "length (q_requests q) = ?S"
    using ok by (simp_all add: queue_ok_def)
  have e_less: "q_end q < q_size q"
    using n e by (simp add: word_less_nat_alt queue_index_def)
  have n': "unat (q_count q + 1) = Suc ?n" by (rule unat_Suc_less [OF room])
  have fresh: "queue_index q i = unat (q_end q) \<longleftrightarrow> i = ?n" if "i \<le> ?n" for i
    using add_mod_eq_iff [of i ?S ?n "unat (q_start q)"] that n e by (simp add: queue_index_def)
  have cells: "q_requests ?q' ! queue_index ?q' i =
      (if i = ?n then Ptr r else q_requests q ! queue_index q i)" if "i \<le> ?n" for i
    using fresh [OF that] e len n
    by (auto simp: queue_index_def nth_list_update)
  have step: "enqueue q r = Inr ?q'"
    using room e_less by (auto simp: enqueue_def)
  have "unat ((q_end q + 1) mod q_size q) = queue_index q (Suc ?n)"
    using unat_succ_mod [OF e_less] e by (simp add: queue_index_def mod_Suc_eq)
  then have "queue_ok ?q'"
    using ok n' n cells len by (auto simp: queue_ok_def word_le_nat_alt less_Suc_eq_le)
  moreover have "queue_contents ?q' = queue_contents q @ [r]"
    by (rule queue_contents_fields [where n = "Suc ?n"])
       (use n' cells in \<open>auto simp: nth_append queue_contents_nth less_Suc_eq_le\<close>)
  ultimately show ?thesis using step by auto
qed

text \<open>An enqueue that finds the array full doubles it first: the requests and their order stay.\<close>

lemma enqueue_enlarges:
  assumes ok: "queue_ok q" and full: "q_count q = q_size q" and small: "q_size q < 2 ^ 31"
  shows "\<exists>q'. enqueue q r = Inr q' \<and> queue_ok q' \<and> queue_contents q' = queue_contents q @ [r]
    \<and> q_size q' = q_size q * 2 \<and> q_start q' = 0"
proof -
  obtain q1 where q1: "enlarge_request_queue q = Inr q1" "queue_ok q1"
      "queue_contents q1 = queue_contents q" "q_count q1 = q_count q" "q_size q1 = q_size q * 2"
      "q_start q1 = 0"
    using enlarge_request_queue_ok [OF assms] by blast
  have less: "q_count q1 < q_size q1"
    using q1(4,5) full small ok unat_double [OF small] by (auto simp: word_less_nat_alt queue_ok_def)
  then have "enqueue q1 r = enqueue q r"
    using q1(1) full by (simp add: enqueue_def less_imp_neq)
  with enqueue_no_enlarge [OF q1(2) less, of r] q1(3,5,6) show ?thesis by auto
qed

lemma enqueue_ok:
  assumes ok: "queue_ok q" and room: "length (queue_contents q) < 2 ^ 31"
  shows "\<exists>q'. enqueue q r = Inr q' \<and> queue_ok q' \<and> queue_contents q' = queue_contents q @ [r]"
proof (cases "q_count q = q_size q")
  case True
  with room have "q_size q < 2 ^ 31" by (simp add: word_less_nat_alt)
  with enqueue_enlarges [OF ok True] show ?thesis by blast
next
  case False
  with ok have "q_count q < q_size q" by (simp add: queue_ok_def less_le)
  with enqueue_no_enlarge [OF ok] show ?thesis by blast
qed

lemma dequeue_empty: "queue_contents q = [] \<Longrightarrow> dequeue q = Inr (None, q)"
  by (auto simp: queue_contents_def dequeue_def word_less_nat_alt)

lemma dequeue_ok:
  assumes ok: "queue_ok q" and c: "queue_contents q = r # rs"
  shows "\<exists>q'. dequeue q = Inr (r, q') \<and> queue_ok q' \<and> queue_contents q' = rs"
proof -
  let ?n = "unat (q_count q)"
  let ?q' = "q\<lparr>q_start := (q_start q + 1) mod q_size q, q_count := q_count q - 1\<rparr>"
  have len: "?n = Suc (length rs)" using c length_queue_contents [of q] by simp
  then have pos: "0 < q_count q" by (simp add: word_less_nat_alt)
  have s: "q_start q < q_size q" using ok by (simp add: queue_ok_def)
  have n': "unat (q_count q - 1) = length rs"
    using pos len by (simp add: unat_sub word_le_nat_alt unat_gt_0)
  have idx: "queue_index ?q' i = queue_index q (Suc i)" for i
    using unat_succ_mod [OF s] by (simp add: queue_index_def mod_add_left_eq mod_Suc_eq)
  have first: "queue_index q 0 = unat (q_start q)"
    using s by (simp add: queue_index_def word_less_nat_alt)
  have "q_requests q ! unat (q_start q) \<noteq> Uninit"
    using ok len first by (metis queue_ok_def zero_less_Suc)
  moreover have "cell_request (q_requests q ! unat (q_start q)) = r"
    using queue_contents_nth [of 0 q] c len first by simp
  ultimately have "dequeue q = Inr (r, ?q')"
    using pos s by (cases "q_requests q ! unat (q_start q)") (simp_all add: dequeue_def)
  moreover have "queue_ok ?q'"
    using ok len n' idx by (auto simp: queue_ok_def word_le_nat_alt word_less_nat_alt unat_mod_distrib)
  moreover have "queue_contents ?q' = rs"
  proof (rule queue_contents_fields [where n = "length rs"])
    fix i assume "i < length rs"
    then show "cell_request (q_requests ?q' ! queue_index ?q' i) = rs ! i"
      unfolding idx using queue_contents_nth [of "Suc i" q] len c by simp
  qed (simp_all add: n')
  ultimately show ?thesis by blast
qed

section \<open>The queue keeps the contract of its clients\<close>

interpretation rq: request_fifo enqueue dequeue queue_contents queue_ok "2 ^ 31"
  by unfold_locales (auto simp: enqueue_ok dequeue_empty dequeue_ok)

section \<open>Properties\<close>

text \<open>
  C21. The circular array behaves as a list: any script of enqueues and dequeues, run on a new queue
  of any positive initial size, returns what the script returns on a list, and leaves the same
  requests queued; no operation fails, up to a capacity of 2^31 requests.
\<close>

theorem request_queue_refines_list:
  assumes "0 < n" and "enqueues ops \<le> 2 ^ 31"
  shows "\<exists>q. run_queue enqueue dequeue (new_RequestQueue n) ops = Inr (fst (run_list [] ops), q)
    \<and> queue_ok q \<and> queue_contents q = snd (run_list [] ops)"
  using rq.run_queue_refines [OF queue_ok_new [OF assms(1)], of ops] assms(2) by simp

theorem request_queue_refines_list_witness:
  "\<exists>q. run_queue enqueue dequeue (new_RequestQueue 2)
      [Enqueue (Some 1), Enqueue (Some 2), Dequeue, Enqueue (Some 3), Enqueue (Some (4::nat)), Dequeue]
    = Inr ([Some 1, Some 2], q) \<and> queue_contents q = [Some 3, Some 4]"
  using request_queue_refines_list [of 2
      "[Enqueue (Some 1), Enqueue (Some 2), Dequeue, Enqueue (Some 3), Enqueue (Some (4::nat)), Dequeue]"]
  by auto

text \<open>
  An enqueue on a full array doubles it: the queued requests keep their order, the new request
  is the last one, and the queue starts at cell 0 of the new array.
\<close>

theorem enqueue_on_full_array:
  assumes "queue_ok q" and "q_count q = q_size q" and "q_size q < 2 ^ 31"
  shows "\<exists>q'. enqueue q r = Inr q' \<and> queue_ok q' \<and> queue_contents q' = queue_contents q @ [r]
    \<and> unat (q_size q') = 2 * unat (q_size q) \<and> q_start q' = 0"
  using enqueue_enlarges [OF assms, of r] unat_double [OF assms(3)] by metis

definition full_queue :: "nat request_queue" where
  "full_queue = \<lparr>q_requests = [Ptr (Some 12), Ptr (Some 8)], q_size = 2, q_count = 2, q_start = 1, q_end = 1\<rparr>"

theorem enqueue_on_full_array_witness:
  "\<exists>q'. enqueue full_queue (Some 13) = Inr q' \<and> queue_contents q' = [Some 8, Some 12, Some 13]
    \<and> unat (q_size q') = 4 \<and> q_start q' = 0"
proof -
  have "\<forall>i < (2::nat). q_requests full_queue ! queue_index full_queue i \<noteq> Uninit"
    by (auto simp: full_queue_def queue_index_def dest: less_2_cases)
  then have "queue_ok full_queue"
    by (simp add: queue_ok_def full_queue_def queue_index_def)
  moreover have "queue_contents full_queue = [Some 8, Some 12]"
    by (simp add: queue_contents_def full_queue_def queue_index_def upt_rec)
  ultimately show ?thesis
    using enqueue_on_full_array [of full_queue "Some 13"] by (auto simp: full_queue_def)
qed

text \<open>
  The doubling wraps around at 32 bits: on a full array whose doubled size is 0 (size 0, which
  the constructor accepts, or size 2^31) the copying loop writes outside the new array.
\<close>

theorem enqueue_out_of_bounds:
  assumes "q_count q = q_size q" and "q_size q = 0 \<or> q_size q = 2 ^ 31"
  shows "enqueue q r = Inl Out_Of_Bounds"
proof -
  have "q_size q * 2 = 0" using assms(2) by auto
  then show ?thesis
    using assms(1)
    by (simp add: enqueue_def enlarge_request_queue_def Let_def copy_requests.simps [of _ _ _ _ _ _ 0])
qed

theorem enqueue_out_of_bounds_witness:
  "enqueue (new_RequestQueue 0) (Some (1::nat)) = Inl Out_Of_Bounds"
  using enqueue_out_of_bounds [of "new_RequestQueue 0 :: nat request_queue"] by (simp add: new_RequestQueue_def)

end
