(* ===== verification/Doubles.thy ===== *)
theory Doubles
  imports Complex_Main Prelude
begin

text \<open>
  The type \<open>double\<close> of \<open>ImportanceType\<close>: a finite value, an infinity with its sign, or NaN. Each
  operation computes the exact result and rounds it by \<open>fl\<close>, the rounding of the machine, which is
  a parameter of the definitions; a quotient of zeros is NaN and a quotient of a non-zero value by
  zero is an infinity. There is one zero: the divisors of the program are counts converted from
  \<open>unsigned int\<close> and sums of their quotients, which are never the negative zero of IEEE 754. The
  range of the exponent is unbounded: the importance values are shares of one unit.
\<close>

section \<open>Values and operations\<close>

datatype double = Fin rat | Inf bool | NaN

fun neg :: "double \<Rightarrow> double" where
  "neg (Fin x) = Fin (- x)"
| "neg (Inf s) = Inf (\<not> s)"
| "neg NaN = NaN"

fun dadd :: "(rat \<Rightarrow> rat) \<Rightarrow> double \<Rightarrow> double \<Rightarrow> double" where
  "dadd fl (Fin x) (Fin y) = Fin (fl (x + y))"
| "dadd fl (Fin x) (Inf s) = Inf s"
| "dadd fl (Inf s) (Fin x) = Inf s"
| "dadd fl (Inf s) (Inf s') = (if s = s' then Inf s else NaN)"
| "dadd fl NaN y = NaN"
| "dadd fl x NaN = NaN"

definition dsub :: "(rat \<Rightarrow> rat) \<Rightarrow> double \<Rightarrow> double \<Rightarrow> double" where
  "dsub fl x y = dadd fl x (neg y)"

fun dmul :: "(rat \<Rightarrow> rat) \<Rightarrow> double \<Rightarrow> double \<Rightarrow> double" where
  "dmul fl (Fin x) (Fin y) = Fin (fl (x * y))"
| "dmul fl (Fin x) (Inf s) = (if x = 0 then NaN else Inf (s \<noteq> (x < 0)))"
| "dmul fl (Inf s) (Fin x) = (if x = 0 then NaN else Inf (s \<noteq> (x < 0)))"
| "dmul fl (Inf s) (Inf s') = Inf (s \<noteq> s')"
| "dmul fl NaN y = NaN"
| "dmul fl x NaN = NaN"

fun ddiv :: "(rat \<Rightarrow> rat) \<Rightarrow> double \<Rightarrow> double \<Rightarrow> double" where
  "ddiv fl (Fin x) (Fin y) =
     (if y = 0 then if x = 0 then NaN else Inf (x < 0) else Fin (fl (x / y)))"
| "ddiv fl (Fin x) (Inf s) = Fin 0"
| "ddiv fl (Inf s) (Fin y) = Inf (s \<noteq> (y < 0))"
| "ddiv fl (Inf s) (Inf s') = NaN"
| "ddiv fl NaN y = NaN"
| "ddiv fl x NaN = NaN"

text \<open>The conversion of an \<open>unsigned int\<close>: exact, a \<open>double\<close> has 53 bits.\<close>

definition double_of_uint :: "u32 \<Rightarrow> double" where
  "double_of_uint w = Fin (of_nat (unat w))"

lemma unsigned_rat [simp]:
  fixes v w :: u32
  shows "0 \<le> (unsigned w :: rat)"
    and "(unsigned v :: rat) \<le> unsigned w \<longleftrightarrow> v \<le> w"
    and "(unsigned v :: rat) < unsigned w \<longleftrightarrow> v < w"
    and "(unsigned w :: rat) = 0 \<longleftrightarrow> w = 0"
    and "0 < (unsigned w :: rat) \<longleftrightarrow> 0 < w"
proof -
  have u: "(unsigned x :: rat) = of_nat (unat x)" for x :: u32 by simp
  show "0 \<le> (unsigned w :: rat)" unfolding u by (rule of_nat_0_le_iff)
  show "(unsigned v :: rat) \<le> unsigned w \<longleftrightarrow> v \<le> w"
    unfolding u of_nat_le_iff by (simp add: word_le_nat_alt)
  show "(unsigned v :: rat) < unsigned w \<longleftrightarrow> v < w"
    unfolding u of_nat_less_iff by (simp add: word_less_nat_alt)
  show "(unsigned w :: rat) = 0 \<longleftrightarrow> w = 0"
    unfolding u of_nat_eq_0_iff by (simp add: unat_eq_0)
  show "0 < (unsigned w :: rat) \<longleftrightarrow> 0 < w"
    unfolding u of_nat_0_less_iff by (simp add: unat_gt_0 word_gt_0)
qed

lemma dsub_Fin [simp]: "dsub fl (Fin x) (Fin y) = Fin (fl (x - y))"
  by (simp add: dsub_def)

lemma NaN_absorbs [simp]:
  "dadd fl x NaN = NaN" "dmul fl x NaN = NaN" "ddiv fl x NaN = NaN"
  "dsub fl x NaN = NaN" "dsub fl NaN x = NaN"
  by (cases x; simp add: dsub_def)+

section \<open>The contract of a rounding\<close>

text \<open>
  What the results below use of the machine's rounding: it is monotone, a value that is a result of
  rounding is kept, and so are 0, 1 and 1/2, and a positive value does not vanish. Exact arithmetic is of this kind, and so is the
  round-to-nearest of binary64 (\<open>Binary64\<close>).
\<close>

locale rounding =
  fixes fl :: "rat \<Rightarrow> rat"
  assumes fl_mono: "x \<le> y \<Longrightarrow> fl x \<le> fl y"
    and fl_idem: "fl (fl x) = fl x"
    and fl_zero: "fl 0 = 0"
    and fl_one: "fl 1 = 1"
    and fl_half: "fl (1 / 2) = 1 / 2"
    and fl_pos: "0 < x \<Longrightarrow> 0 < fl x"
begin

lemma fl_nonneg: "0 \<le> x \<Longrightarrow> 0 \<le> fl x"
  using fl_mono [of 0 x] by (simp add: fl_zero)

lemma fl_le_representable: "x \<le> y \<Longrightarrow> fl y = y \<Longrightarrow> fl x \<le> y"
  using fl_mono [of x y] by simp

text \<open>Subtracting a rounded share of a representable non-negative value leaves a non-negative one.\<close>

lemma fl_share:
  assumes "0 \<le> x" "fl x = x" "0 \<le> r" "r \<le> 1"
  shows "0 \<le> fl (r * x)" "fl (r * x) \<le> x" "0 \<le> fl (x - fl (r * x))"
proof -
  show "0 \<le> fl (r * x)" using assms by (intro fl_nonneg) simp
  show le: "fl (r * x) \<le> x"
    using assms by (intro fl_le_representable mult_left_le_one_le) simp_all
  show "0 \<le> fl (x - fl (r * x))" using le by (intro fl_nonneg) simp
qed

lemma fl_unit_interval: "0 \<le> x \<Longrightarrow> x \<le> 1 \<Longrightarrow> 0 \<le> fl x \<and> fl x \<le> 1"
  by (simp add: fl_nonneg fl_le_representable fl_one)

end

definition exact :: "rat \<Rightarrow> rat" where
  "exact x = x"

interpretation exact: rounding exact
  by unfold_locales (simp_all add: exact_def)

end
