(* ===== verification/Handle_Trie.thy ===== *)
theory Handle_Trie
  imports Prelude
begin

text \<open>
  \<open>attention_broker_server/HandleTrie\<close>: the prefix tree that maps handles to values. A node has
  sixteen children, a value, the whole key of a leaf (\<open>suffix\<close>) and the 8-bit \<open>suffix_start\<close>,
  which is positive in a leaf and 0 in an inner node. A node of the C++ program has one parent, the
  slot that points to it, so the tree is a datatype, and the assignments of \<open>insert\<close> to
  \<open>parent->children\<close> are the subtree that the recursion returns to its caller. This is the
  sequential effect of each operation; the mutexes of the nodes are in \<open>Trie_Locks\<close>.
\<close>

section \<open>Nodes\<close>

datatype 'v trie_node = TrieNode
  (node_children: "'v trie_node option list")
  (node_value: "'v option")
  (node_suffix: string)
  (node_suffix_start: u8)

definition TRIE_ALPHABET_SIZE :: nat where
  "TRIE_ALPHABET_SIZE = 16"

definition new_TrieNode :: "'v trie_node" where
  "new_TrieNode = TrieNode (replicate TRIE_ALPHABET_SIZE None) None [] 0"

text \<open>
  The table \<open>TLB\<close>: a static array, zero where \<open>TLB_INIT\<close> writes nothing, so that every
  character that is no hexadecimal digit goes to child 0 and the two cases of a letter share a child.
\<close>

definition TLB_INIT :: "(char \<times> nat) list" where
  "TLB_INIT =
     [(CHR ''0'', 0), (CHR ''1'', 1), (CHR ''2'', 2), (CHR ''3'', 3), (CHR ''4'', 4),
      (CHR ''5'', 5), (CHR ''6'', 6), (CHR ''7'', 7), (CHR ''8'', 8), (CHR ''9'', 9),
      (CHR ''a'', 10), (CHR ''A'', 10), (CHR ''b'', 11), (CHR ''B'', 11),
      (CHR ''c'', 12), (CHR ''C'', 12), (CHR ''d'', 13), (CHR ''D'', 13),
      (CHR ''e'', 14), (CHR ''E'', 14), (CHR ''f'', 15), (CHR ''F'', 15)]"

definition TLB :: "char \<Rightarrow> nat" where
  "TLB c = (case map_of TLB_INIT c of Some i \<Rightarrow> i | None \<Rightarrow> 0)"

definition nth_child :: "'v trie_node option list \<Rightarrow> nat \<Rightarrow> 'v trie_node option" where
  "nth_child cs i = (if i < length cs then cs ! i else None)"

lemma size_nth_child: "nth_child cs i = Some t \<Longrightarrow> size t < size_list (size_option size) cs"
  by (auto simp: nth_child_def split: if_splits dest!: nth_mem elim!: size_list_estimation)

lemma size_node_child: "nth_child (node_children t) i = Some s \<Longrightarrow> size s < size t"
  by (cases t) (auto dest!: size_nth_child)

section \<open>Insertion\<close>

text \<open>
  The loop that compares the key with the suffix of a leaf, from position \<open>i\<close> to the end of the
  key. Both strings are read at the same position.
\<close>

function suffix_match :: "string \<Rightarrow> string \<Rightarrow> nat \<Rightarrow> bool result" where
  "suffix_match key sfx i =
     (if i < length key
      then and_then (str_at sfx i)
             (\<lambda>c. if key ! i \<noteq> c then Inr False else suffix_match key sfx (i + 1))
      else Inr True)"
  by pat_completeness auto
termination
  by (relation "measure (\<lambda>(key, sfx, i). length key - i)") auto

declare suffix_match.simps [simp del]

definition new_leaf :: "string \<Rightarrow> u8 \<Rightarrow> 'v \<Rightarrow> 'v trie_node" where
  "new_leaf key start value =
     TrieNode (replicate TRIE_ALPHABET_SIZE None) (Some value) key start"

definition set_child :: "nat \<Rightarrow> 'v trie_node \<Rightarrow> 'v trie_node \<Rightarrow> 'v trie_node" where
  "set_child i s t =
     TrieNode ((node_children t)[i := Some s]) (node_value t) (node_suffix t) (node_suffix_start t)"

definition set_value :: "'v \<Rightarrow> 'v trie_node \<Rightarrow> 'v trie_node" where
  "set_value v t = TrieNode (node_children t) (Some v) (node_suffix t) (node_suffix_start t)"

definition bump_suffix_start :: "'v trie_node \<Rightarrow> 'v trie_node" where
  "bump_suffix_start t =
     TrieNode (node_children t) (node_value t) (node_suffix t) (node_suffix_start t + 1)"

text \<open>The node that takes the place of the leaf \<open>t\<close> where \<open>key\<close> leaves the path of its suffix.\<close>

definition split_leaf :: "string \<Rightarrow> u8 \<Rightarrow> char \<Rightarrow> 'v \<Rightarrow> 'v trie_node \<Rightarrow> 'v trie_node result" where
  "split_leaf key key_cursor kc value t =
     and_then (str_at (node_suffix t) (unat (node_suffix_start t)))
       (\<lambda>tc. let child = new_leaf key (key_cursor + 1) value;
                 split = set_child (TLB kc) child new_TrieNode
             in Inr (set_child (TLB tc) (bump_suffix_start t) split))"

lemma size_bump_suffix_start [simp]: "size (bump_suffix_start t) = size t"
  by (cases t) (simp add: bump_suffix_start_def)

lemma measure_bump:
  assumes "0 < node_suffix_start t"
  shows "256 - unat (node_suffix_start (bump_suffix_start t) - 1) < 256 - unat (node_suffix_start t - 1)"
proof -
  have "unat (node_suffix_start t - 1) = unat (node_suffix_start t) - 1"
    using assms by (simp add: unat_minus_one word_neq_0_conv)
  moreover have "unat (node_suffix_start t) < 256"
    by (rule unat_u8_less)
  moreover have "0 < unat (node_suffix_start t)"
    using assms by (simp add: word_less_nat_alt)
  ultimately show ?thesis by (simp add: bump_suffix_start_def)
qed

text \<open>
  The loop of \<open>insert\<close>, with the cursors \<open>key_cursor\<close> (8 bits) and \<open>tree_cursor\<close> (\<open>t\<close>). It
  returns the subtree that replaces \<open>t\<close> in the slot of its parent, and the value that \<open>insert\<close>
  returns. The recursion is the next iteration of the loop: on the child, or on the same leaf one
  level further down, below a new inner node.
\<close>

function insert_loop :: "('v \<Rightarrow> 'v \<Rightarrow> 'v) \<Rightarrow> string \<Rightarrow> 'v \<Rightarrow> u8 \<Rightarrow> 'v trie_node
    \<Rightarrow> ('v trie_node \<times> 'v) result" where
  "insert_loop merge key value key_cursor t =
     and_then (str_at key (unat key_cursor)) (\<lambda>kc.
       case nth_child (node_children t) (TLB kc) of
         None \<Rightarrow>
           if node_suffix_start t > 0
           then and_then (str_at (node_suffix t) (unat key_cursor)) (\<lambda>sc.
             if kc = sc
             then and_then (insert_loop merge key value (key_cursor + 1) (bump_suffix_start t))
                    (\<lambda>(s, v). Inr (set_child (TLB kc) s new_TrieNode, v))
             else and_then (split_leaf key key_cursor kc value t) (\<lambda>split. Inr (split, value)))
           else Inr (set_child (TLB kc) (new_leaf key (key_cursor + 1) value) t, value)
       | Some child \<Rightarrow>
           and_then (if node_suffix_start child > 0
                     then suffix_match key (node_suffix child) (unat key_cursor) else Inr False)
             (\<lambda>matches.
                if matches
                then case node_value child of
                       None \<Rightarrow> Inl Null_Dereference
                     | Some old \<Rightarrow>
                         Inr (set_child (TLB kc) (set_value (merge old value) child) t, merge old value)
                else and_then (insert_loop merge key value (key_cursor + 1) child)
                       (\<lambda>(s, v). Inr (set_child (TLB kc) s t, v))))"
  by pat_completeness auto
termination
proof (relation "measures [\<lambda>(merge, key, value, key_cursor, t). size t,
    \<lambda>(merge, key, value, key_cursor, t). 256 - unat (node_suffix_start t - 1)]")
  show "wf (measures [\<lambda>(merge, key, value, key_cursor, t). size t,
    \<lambda>(merge, key, value, key_cursor, t). 256 - unat (node_suffix_start t - 1)])"
    by simp
qed (auto simp: measure_bump size_node_child)

declare insert_loop.simps [simp del]

section \<open>The trie\<close>

record 'v handle_trie =
  key_size :: u32
  root :: "'v trie_node"

definition new_HandleTrie :: "u32 \<Rightarrow> 'v handle_trie result" where
  "new_HandleTrie n =
     (if n = 0 \<or> n > 255
      then Inl (Runtime_Error (''Invalid key size: '' @ dec (unat n)))
      else Inr \<lparr>key_size = n, root = new_TrieNode\<rparr>)"

text \<open>
  The guard that \<open>insert\<close> and \<open>lookup\<close> share: \<open>key.size()\<close> is a 64-bit \<open>size_t\<close>, the
  member \<open>key_size\<close> is converted to it, so the comparison is one of natural numbers.
\<close>

definition check_key_size :: "'v handle_trie \<Rightarrow> string \<Rightarrow> unit result" where
  "check_key_size m key =
     (if length key \<noteq> unat (key_size m)
      then Inl (Runtime_Error (''Invalid key size: '' @ dec (length key) @ '' != ''
             @ dec (unat (key_size m))))
      else Inr ())"

definition trie_insert :: "('v \<Rightarrow> 'v \<Rightarrow> 'v) \<Rightarrow> 'v handle_trie \<Rightarrow> string \<Rightarrow> 'v
    \<Rightarrow> ('v handle_trie \<times> 'v) result" where
  "trie_insert merge m key value =
     and_then (check_key_size m key) (\<lambda>_.
       and_then (insert_loop merge key value 0 (root m)) (\<lambda>(t, v). Inr (m\<lparr>root := t\<rparr>, v)))"

section \<open>Lookup\<close>

text \<open>The loop of \<open>lookup\<close>; a cursor \<open>None\<close> is NULL.\<close>

function lookup_loop :: "string \<Rightarrow> u8 \<Rightarrow> 'v trie_node option \<Rightarrow> 'v option result" where
  "lookup_loop key key_cursor None = Inr None"
| "lookup_loop key key_cursor (Some t) =
     (if node_suffix_start t > 0
      then and_then (suffix_match key (node_suffix t) (unat key_cursor))
             (\<lambda>matches. Inr (if matches then node_value t else None))
      else and_then (str_at key (unat key_cursor))
             (\<lambda>kc. lookup_loop key (key_cursor + 1) (nth_child (node_children t) (TLB kc))))"
  by pat_completeness auto
termination
proof (relation "measure (\<lambda>(key, key_cursor, t). size_option size t)")
  fix key :: string and key_cursor :: u8 and t :: "'v trie_node" and kc :: char
  show "((key, key_cursor + 1, nth_child (node_children t) (TLB kc)), key, key_cursor, Some t)
      \<in> measure (\<lambda>(key, key_cursor, t). size_option size t)"
    by (cases "nth_child (node_children t) (TLB kc)"; cases t) (auto dest: size_nth_child)
qed simp

definition trie_lookup :: "'v handle_trie \<Rightarrow> string \<Rightarrow> 'v option result" where
  "trie_lookup m key =
     and_then (check_key_size m key) (\<lambda>_. lookup_loop key 0 (Some (root m)))"

section \<open>Traversal\<close>

text \<open>
  The children are pushed from the last to the first, so the first one is on top of the stack. The
  visited nodes are passed to \<open>visit_function\<close>, with the state that it reads and writes: the data
  behind its \<open>void *\<close> and whatever the values point to. A true result stops the traversal.
\<close>

definition push_children :: "'v trie_node option list \<Rightarrow> 'v trie_node list \<Rightarrow> 'v trie_node list" where
  "push_children cs node_stack =
     foldr (\<lambda>c st. case c of None \<Rightarrow> st | Some t \<Rightarrow> t # st) cs node_stack"

lemma sum_size_push_children:
  "sum_list (map size (push_children cs st)) \<le> size_list (size_option size) cs + sum_list (map size st)"
  by (induction cs) (auto simp: push_children_def split: option.split)

lemma sum_size_push_node:
  "sum_list (map size (push_children (node_children t) st)) < size t + sum_list (map size st)"
  by (rule le_less_trans [OF sum_size_push_children]) (cases t, simp)

function traverse_loop :: "('v trie_node \<Rightarrow> 's \<Rightarrow> (bool \<times> 's) result) \<Rightarrow> 'v trie_node list
    \<Rightarrow> 's \<Rightarrow> 's result" where
  "traverse_loop visit_function [] s = Inr s"
| "traverse_loop visit_function (cursor # node_stack) s =
     (if node_suffix_start cursor > 0
      then and_then (visit_function cursor s)
             (\<lambda>(stop, s'). if stop then Inr s' else traverse_loop visit_function node_stack s')
      else traverse_loop visit_function (push_children (node_children cursor) node_stack) s)"
  by pat_completeness auto
termination
proof (relation "measure (\<lambda>(visit_function, node_stack, s). sum_list (map size node_stack))", goal_cases)
  case (2 visit_function cursor node_stack s x stop s')
  then show ?case by (cases cursor) simp
qed (auto simp: sum_size_push_node)

definition trie_traverse :: "('v trie_node \<Rightarrow> 's \<Rightarrow> (bool \<times> 's) result) \<Rightarrow> 'v handle_trie
    \<Rightarrow> 's \<Rightarrow> 's result" where
  "trie_traverse visit_function m s = traverse_loop visit_function [root m] s"

section \<open>Entries and writes through a value pointer\<close>

text \<open>The stored (key, value) pairs, in the order of the children.\<close>

primrec entries :: "'v trie_node \<Rightarrow> (string \<times> 'v) list" where
  "entries (TrieNode cs v sfx ss) =
     (if ss > 0 then (case v of None \<Rightarrow> [] | Some x \<Rightarrow> [(sfx, x)])
      else concat (map (case_option [] id) (map (map_option entries) cs)))"

text \<open>
  The program keeps pointers to the value of a leaf and writes through them. The leaf of a key never
  moves its value, so the key names the object: a write is an update of the leaf of this key.
\<close>

primrec update_leaf :: "string \<Rightarrow> ('v \<Rightarrow> 'v) \<Rightarrow> 'v trie_node \<Rightarrow> 'v trie_node" where
  "update_leaf key f (TrieNode cs v sfx ss) =
     TrieNode (map (map_option (update_leaf key f)) cs)
       (if ss > 0 \<and> sfx = key then map_option f v else v) sfx ss"

definition update_value :: "string \<Rightarrow> ('v \<Rightarrow> 'v) \<Rightarrow> 'v handle_trie \<Rightarrow> 'v handle_trie" where
  "update_value key f m = m\<lparr>root := update_leaf key f (root m)\<rparr>"

definition trie_entries :: "'v handle_trie \<Rightarrow> (string \<times> 'v) list" where
  "trie_entries m = entries (root m)"

definition trie_map :: "'v handle_trie \<Rightarrow> string \<Rightarrow> 'v option" where
  "trie_map m = map_of (trie_entries m)"

end
