(* ===== verification/Map_Spec.thy ===== *)
theory Map_Spec
  imports Prelude
begin

text \<open>
  The contract of a map whose insertion merges: the value inserted under a key that is already
  present is merged into the stored value. \<open>HandleTrie\<close> promises it; the Hebbian network (its
  node trie and the neighbour trie of every node) and the stimulus spreader (its private trie of
  importance changes) rely on it.
\<close>

section \<open>The specification\<close>

text \<open>The value stored under a key after an insertion.\<close>

definition combined :: "('v \<Rightarrow> 'v \<Rightarrow> 'v) \<Rightarrow> 'v option \<Rightarrow> 'v \<Rightarrow> 'v" where
  "combined merge old value = (case old of None \<Rightarrow> value | Some w \<Rightarrow> merge w value)"

lemma combined_simps [simp]:
  "combined merge None value = value"
  "combined merge (Some w) value = merge w value"
  by (simp_all add: combined_def)

text \<open>What a key holds when the given values were inserted under it, in this order.\<close>

fun merged :: "('v \<Rightarrow> 'v \<Rightarrow> 'v) \<Rightarrow> 'v list \<Rightarrow> 'v option" where
  "merged merge [] = None"
| "merged merge (v # vs) = Some (foldl merge v vs)"

lemma merged_snoc: "merged merge (vs @ [v]) = Some (combined merge (merged merge vs) v)"
  by (cases vs) simp_all

definition values_of :: "('k \<times> 'v) list \<Rightarrow> 'k \<Rightarrow> 'v list" where
  "values_of kvs k = map snd (filter (\<lambda>p. fst p = k) kvs)"

lemma values_of_simps [simp]:
  "values_of [] k = []"
  "values_of (kvs @ [p]) k = values_of kvs k @ (if fst p = k then [snd p] else [])"
  by (simp_all add: values_of_def)

text \<open>A sequence of insertions, stopped by the first failure.\<close>

fun insert_all :: "('m \<Rightarrow> 'k \<Rightarrow> 'v \<Rightarrow> ('m \<times> 'v) result) \<Rightarrow> 'm \<Rightarrow> ('k \<times> 'v) list \<Rightarrow> 'm result" where
  "insert_all ins m [] = Inr m"
| "insert_all ins m ((k, v) # kvs) = and_then (ins m k v) (\<lambda>(m', _). insert_all ins m' kvs)"

lemma insert_all_append:
  "insert_all ins m (kvs @ kvs') = and_then (insert_all ins m kvs) (\<lambda>m'. insert_all ins m' kvs')"
  by (induction ins m kvs rule: insert_all.induct) (auto simp: and_then_def split: sum.split)

section \<open>The contract\<close>

locale merging_map =
  fixes ins :: "'m \<Rightarrow> 'k \<Rightarrow> 'v \<Rightarrow> ('m \<times> 'v) result"
    and look :: "'m \<Rightarrow> 'k \<Rightarrow> 'v option result"
    and abs :: "'m \<Rightarrow> 'k \<Rightarrow> 'v option"
    and ok :: "'m \<Rightarrow> bool"
    and valid :: "'k \<Rightarrow> bool"
    and merge :: "'v \<Rightarrow> 'v \<Rightarrow> 'v"
  assumes ins_law: "ok m \<Longrightarrow> valid k \<Longrightarrow> \<exists>m'. ins m k v = Inr (m', combined merge (abs m k) v)
      \<and> ok m' \<and> abs m' = (abs m)(k \<mapsto> combined merge (abs m k) v)"
    and look_law: "ok m \<Longrightarrow> valid k \<Longrightarrow> look m k = Inr (abs m k)"
begin

lemma lookup_inserted:
  assumes "ok m" "valid k" "valid k'" "ins m k v = Inr (m', w)"
  shows "look m' k' = Inr (if k' = k then Some w else abs m k')"
  using ins_law [OF assms(1,2), of v] look_law [of m' k'] assms(3,4) by auto

text \<open>Any sequence of insertions into an empty map: each key holds its values, merged in order.\<close>

lemma insert_all_merged:
  assumes "ok m" and "abs m = (\<lambda>_. None)" and "\<forall>p\<in>set kvs. valid (fst p)"
  shows "\<exists>m'. insert_all ins m kvs = Inr m' \<and> ok m' \<and> abs m' = (\<lambda>k. merged merge (values_of kvs k))"
  using assms
proof (induction kvs rule: rev_induct)
  case Nil
  then show ?case by simp
next
  case (snoc p kvs)
  obtain k v where p: "p = (k, v)" by (cases p)
  from snoc obtain m1 where m1: "insert_all ins m kvs = Inr m1" "ok m1"
    "abs m1 = (\<lambda>k. merged merge (values_of kvs k))" by auto
  have "valid k" using snoc.prems(3) p by simp
  with ins_law [OF m1(2), of k v] obtain m2 where m2:
    "ins m1 k v = Inr (m2, combined merge (abs m1 k) v)" "ok m2"
    "abs m2 = (abs m1)(k \<mapsto> combined merge (abs m1 k) v)" by blast
  have "abs m2 = (\<lambda>k. merged merge (values_of (kvs @ [p]) k))"
    using m1(3) m2(3) by (auto simp: p fun_eq_iff merged_snoc)
  with m1(1) m2(1,2) show ?case by (auto simp: insert_all_append p)
qed

lemma lookup_merged:
  assumes "ok m" and "abs m = (\<lambda>_. None)" and "\<forall>p\<in>set kvs. valid (fst p)" and "valid k"
  shows "and_then (insert_all ins m kvs) (\<lambda>m'. look m' k) = Inr (merged merge (values_of kvs k))"
  using insert_all_merged [OF assms(1-3)] look_law assms(4) by auto

end

end
