(* ===== verification/Handle_Trie_Correct.thy ===== *)
theory Handle_Trie_Correct
  imports Handle_Trie Map_Spec "HOL-Library.List_Lexorder"
begin

text \<open>
  Correctness of \<open>HandleTrie\<close>: the well-formedness of a trie, its preservation by insertion, and
  the refinement of a finite map. The keys of a well-formed trie are taken from an alphabet on
  which the table \<open>TLB\<close> is injective, such as the lower-case hexadecimal digits that
  \<open>compute_hash\<close> writes.
\<close>

section \<open>Well-formed tries\<close>

definition keys :: "'v trie_node \<Rightarrow> string list" where
  "keys t = map fst (entries t)"

definition child_entries :: "'v trie_node option \<Rightarrow> (string \<times> 'v) list" where
  "child_entries c = (case c of None \<Rightarrow> [] | Some s \<Rightarrow> entries s)"

lemma size_nth_child_node [termination_simp]:
  "nth_child cs i = Some s \<Longrightarrow> size s < Suc (size_list (size_option size) cs + m)"
  by (auto dest!: size_nth_child)

text \<open>
  A node at depth \<open>d\<close> of a trie for keys of length \<open>n\<close> over the alphabet \<open>A\<close>: a leaf holds a
  value, a whole key and its depth; an inner node holds neither, and the keys below its child
  \<open>i\<close> have a character of code \<open>i\<close> at position \<open>d\<close>.
\<close>

fun trie_ok :: "nat \<Rightarrow> char set \<Rightarrow> nat \<Rightarrow> 'v trie_node \<Rightarrow> bool" where
  "trie_ok n A d (TrieNode cs v sfx ss) \<longleftrightarrow>
     length cs = 16 \<and>
     (if ss > 0
      then cs = replicate 16 None \<and> v \<noteq> None \<and> length sfx = n \<and> set sfx \<subseteq> A \<and> unat ss = d \<and> d \<le> n
      else v = None \<and> sfx = [] \<and> d < n \<and>
        (\<forall>i\<in>{..<16}. case nth_child cs i of
            None \<Rightarrow> True
          | Some s \<Rightarrow> trie_ok n A (Suc d) s \<and> keys s \<noteq> [] \<and> (\<forall>k\<in>set (keys s). TLB (k ! d) = i)))"

lemma TLB_less [simp]: "TLB c < 16"
proof -
  have "\<forall>p\<in>set TLB_INIT. snd p < 16" by (simp add: TLB_INIT_def)
  then show ?thesis by (fastforce simp: TLB_def split: option.split dest: map_of_SomeD)
qed

lemma nth_child_simps [simp]:
  "nth_child (replicate n None) i = None"
  "i < length cs \<Longrightarrow> nth_child (cs[i := c]) j = (if j = i then c else nth_child cs j)"
  by (auto simp: nth_child_def)

subsection \<open>Leaves and inner nodes\<close>

definition is_leaf :: "'v trie_node \<Rightarrow> bool" where
  "is_leaf t \<longleftrightarrow> node_suffix_start t > 0"

lemma trie_ok_leaf:
  assumes "trie_ok n A d t" and "is_leaf t"
  obtains v sfx ss where "t = TrieNode (replicate 16 None) (Some v) sfx ss" "ss > 0"
    "length sfx = n" "set sfx \<subseteq> A" "unat ss = d" "d \<le> n"
  using assms by (cases t) (auto simp: is_leaf_def)

lemma trie_ok_child:
  assumes "trie_ok n A d (TrieNode cs v sfx 0)" and "nth_child cs i = Some s"
  shows "trie_ok n A (Suc d) s \<and> keys s \<noteq> [] \<and> (\<forall>k\<in>set (keys s). TLB (k ! d) = i)"
proof -
  have "i < 16" using assms by (auto simp: nth_child_def split: if_splits)
  with assms show ?thesis by (auto split: option.splits)
qed

lemma trie_ok_inner:
  assumes "trie_ok n A d t" and "\<not> is_leaf t"
  obtains cs where "t = TrieNode cs None [] 0" "length cs = 16" "d < n"
  using assms by (cases t) (auto simp: is_leaf_def word_gt_0)

lemma entries_inner: "entries (TrieNode cs v sfx 0) = concat (map child_entries cs)"
proof -
  have "case_option [] id \<circ> map_option entries = (child_entries :: 'a trie_node option \<Rightarrow> _)"
    by (auto simp: fun_eq_iff child_entries_def split: option.split)
  then show ?thesis by simp
qed

declare entries.simps [simp del]

lemma entries_leaf [simp]: "ss > 0 \<Longrightarrow> entries (TrieNode cs (Some v) sfx ss) = [(sfx, v)]"
  by (simp add: entries.simps)

lemma Some_in_set_nth_child: "Some s \<in> set cs \<longleftrightarrow> (\<exists>i. nth_child cs i = Some s)"
  by (auto simp: nth_child_def in_set_conv_nth split: if_splits)

lemma set_keys_inner:
  "k \<in> set (keys (TrieNode cs v sfx 0)) \<longleftrightarrow> (\<exists>i s. nth_child cs i = Some s \<and> k \<in> set (keys s))"
proof -
  have "k \<in> set (keys (TrieNode cs v sfx 0)) \<longleftrightarrow> (\<exists>c\<in>set cs. k \<in> fst ` set (child_entries c))"
    by (simp add: keys_def entries_inner image_UN)
  also have "\<dots> \<longleftrightarrow> (\<exists>s. Some s \<in> set cs \<and> k \<in> set (keys s))"
    by (auto simp: child_entries_def keys_def split: option.splits)
  finally show ?thesis by (auto simp: Some_in_set_nth_child)
qed

lemma trie_ok_keys: "trie_ok n A d t \<Longrightarrow> k \<in> set (keys t) \<Longrightarrow> length k = n \<and> set k \<subseteq> A"
proof (induction n A d t rule: trie_ok.induct)
  case (1 n A d cs v sfx ss)
  show ?case
  proof (cases "ss > 0")
    case True
    with 1 show ?thesis by (auto simp: keys_def)
  next
    case False
    then have "ss = 0" by (simp add: word_gt_0)
    with 1(3) obtain i s where s: "nth_child cs i = Some s" "k \<in> set (keys s)"
      by (auto simp: set_keys_inner)
    have "i < 16" using s(1) 1(2) by (auto simp: nth_child_def split: if_splits)
    with trie_ok_child [of n A d cs v sfx i s] s 1(2) \<open>ss = 0\<close>
    have "trie_ok n A (Suc d) s" by blast
    with 1(1) [OF False _ s(1)] s(2) \<open>i < 16\<close> show ?thesis by simp
  qed
qed

subsection \<open>The map of an inner node\<close>

lemma map_of_concat_unique:
  assumes "\<And>i. i < length xs \<Longrightarrow> i \<noteq> c \<Longrightarrow> k \<notin> fst ` set (xs ! i)" and "c < length xs"
  shows "map_of (concat xs) k = map_of (xs ! c) k"
  using assms
proof (induction xs arbitrary: c)
  case Nil
  then show ?case by simp
next
  case (Cons x xs)
  show ?case
  proof (cases c)
    case 0
    have "k \<notin> fst ` set (concat xs)"
    proof
      assume "k \<in> fst ` set (concat xs)"
      then obtain x' where "x' \<in> set xs" "k \<in> fst ` set x'" by auto
      then obtain i where "i < length xs" "k \<in> fst ` set (xs ! i)"
        by (metis in_set_conv_nth)
      then show False using Cons.prems(1) [of "Suc i"] 0 by simp
    qed
    then have "map_of (concat xs) k = None" by (simp add: map_of_eq_None_iff)
    with 0 show ?thesis by (auto simp: map_add_def split: option.split)
  next
    case (Suc c')
    have "map_of x k = None"
      using Cons.prems(1) [of 0] Suc by (simp add: map_of_eq_None_iff)
    moreover have "map_of (concat xs) k = map_of (xs ! c') k"
      using Cons.IH [of c'] Cons.prems(1) [of "Suc _"] Cons.prems(2) Suc by fastforce
    ultimately show ?thesis using Suc by (auto simp: map_add_def split: option.split)
  qed
qed

lemma map_of_inner:
  assumes "trie_ok n A d (TrieNode cs None [] 0)"
  shows "map_of (entries (TrieNode cs None [] 0)) k =
    (case nth_child cs (TLB (k ! d)) of None \<Rightarrow> None | Some s \<Rightarrow> map_of (entries s) k)"
proof -
  have len: "length cs = 16" using assms by simp
  have "map_of (concat (map child_entries cs)) k = map_of (map child_entries cs ! TLB (k ! d)) k"
  proof (rule map_of_concat_unique)
    fix i assume i: "i < length (map child_entries cs)" "i \<noteq> TLB (k ! d)"
    show "k \<notin> fst ` set (map child_entries cs ! i)"
    proof
      assume "k \<in> fst ` set (map child_entries cs ! i)"
      with i obtain s where "cs ! i = Some s" "k \<in> set (keys s)"
        by (cases "cs ! i") (auto simp: child_entries_def keys_def)
      moreover with i len have "nth_child cs i = Some s" by (simp add: nth_child_def)
      ultimately show False using trie_ok_child [OF assms, of i s] i(2) by auto
    qed
  qed (simp add: len)
  then show ?thesis
    using len by (simp add: entries_inner nth_child_def child_entries_def split: option.split)
qed

section \<open>Insertion\<close>

text \<open>Storing a well-formed subtree in a child of an inner node.\<close>

lemma trie_ok_new_node: "d < n \<Longrightarrow> trie_ok n A d new_TrieNode"
  by (simp add: new_TrieNode_def TRIE_ALPHABET_SIZE_def)

lemma not_is_leaf_new_node [simp]: "\<not> is_leaf new_TrieNode"
  by (simp add: new_TrieNode_def is_leaf_def)

lemma entries_new_node [simp]: "entries new_TrieNode = []"
  by (simp add: new_TrieNode_def TRIE_ALPHABET_SIZE_def entries_inner child_entries_def)

lemma is_leaf_set_child [simp]: "is_leaf (set_child i s t) = is_leaf t"
  by (simp add: is_leaf_def set_child_def)

lemma set_child_ok:
  assumes t: "trie_ok n A d t" "\<not> is_leaf t"
    and s: "trie_ok n A (Suc d) s" "keys s \<noteq> []" "\<And>k. k \<in> set (keys s) \<Longrightarrow> TLB (k ! d) = i"
    and i: "i < 16"
  shows "trie_ok n A d (set_child i s t)"
    and "map_of (entries (set_child i s t)) k =
      (if TLB (k ! d) = i then map_of (entries s) k else map_of (entries t) k)"
proof -
  obtain cs where cs: "t = TrieNode cs None [] 0" "length cs = 16" "d < n"
    using t by (rule trie_ok_inner)
  then have eq: "set_child i s t = TrieNode (cs[i := Some s]) None [] 0"
    by (simp add: set_child_def)
  show ok: "trie_ok n A d (set_child i s t)"
    unfolding eq using t(1) s i cs by auto
  show "map_of (entries (set_child i s t)) k =
      (if TLB (k ! d) = i then map_of (entries s) k else map_of (entries t) k)"
    using map_of_inner [OF ok [unfolded eq], of k] map_of_inner [OF t(1) [unfolded cs(1)], of k] i cs(2)
    unfolding eq by (simp add: cs(1) del: trie_ok.simps)
qed

lemma keys_conv_map_of: "k \<in> set (keys t) \<longleftrightarrow> map_of (entries t) k \<noteq> None"
  by (simp add: keys_def map_of_eq_None_iff)

lemma keys_nonempty_iff: "keys t \<noteq> [] \<longleftrightarrow> (\<exists>k. map_of (entries t) k \<noteq> None)"
  by (metis all_not_in_conv keys_conv_map_of set_empty)

lemma new_leaf_ok:
  assumes "length key = n" "set key \<subseteq> A" "d < n" "n \<le> 255" "unat kc = d"
  shows "trie_ok n A (Suc d) (new_leaf key (kc + 1) v)"
    and "entries (new_leaf key (kc + 1) v) = [(key, v)]"
    and "is_leaf (new_leaf key (kc + 1) v)"
proof -
  have "unat (kc + 1) = Suc d"
    using assms unat_Suc_less [of kc 255] by (simp add: word_less_nat_alt)
  moreover from this have "0 < kc + 1" by (simp add: word_less_nat_alt)
  ultimately show "trie_ok n A (Suc d) (new_leaf key (kc + 1) v)"
    and "entries (new_leaf key (kc + 1) v) = [(key, v)]" "is_leaf (new_leaf key (kc + 1) v)"
    using assms by (simp_all add: new_leaf_def TRIE_ALPHABET_SIZE_def is_leaf_def)
qed

lemma bump_ok:
  assumes "trie_ok n A d t" "is_leaf t" "d < n" "n \<le> 255"
  shows "trie_ok n A (Suc d) (bump_suffix_start t)"
    and "entries (bump_suffix_start t) = entries t" and "is_leaf (bump_suffix_start t)"
    and "node_suffix (bump_suffix_start t) = node_suffix t"
proof -
  obtain v sfx ss where t: "t = TrieNode (replicate 16 None) (Some v) sfx ss" "ss > 0"
    "length sfx = n" "set sfx \<subseteq> A" "unat ss = d" "d \<le> n"
    using assms(1,2) by (rule trie_ok_leaf)
  have u: "unat (ss + 1) = Suc d"
    using assms(3,4) t(5) unat_Suc_less [of ss 255] by (simp add: word_less_nat_alt)
  then have "0 < ss + 1" by (simp add: word_less_nat_alt)
  with u t assms(3) show "trie_ok n A (Suc d) (bump_suffix_start t)"
    "entries (bump_suffix_start t) = entries t" "is_leaf (bump_suffix_start t)"
    "node_suffix (bump_suffix_start t) = node_suffix t"
    by (simp_all add: bump_suffix_start_def is_leaf_def)
qed

lemma suffix_match_eq:
  "length sfx = length key \<Longrightarrow> i \<le> length key \<Longrightarrow>
    suffix_match key sfx i = Inr (drop i key = drop i sfx)"
proof (induction key sfx i rule: suffix_match.induct)
  case (1 key sfx i)
  then show ?case
    by (subst suffix_match.simps) (auto simp: Cons_nth_drop_Suc [symmetric])
qed

lemma suffix_match_agree:
  assumes "length sfx = length key" "i \<le> length key" "take i sfx = take i key"
  shows "suffix_match key sfx i = Inr (sfx = key)"
proof -
  have "drop i key = drop i sfx \<longleftrightarrow> sfx = key"
    by (metis assms(3) append_take_drop_id)
  with suffix_match_eq [OF assms(1,2)] show ?thesis by simp
qed

definition insert_post :: "nat \<Rightarrow> char set \<Rightarrow> nat \<Rightarrow> ('v \<Rightarrow> 'v \<Rightarrow> 'v) \<Rightarrow> string \<Rightarrow> 'v
    \<Rightarrow> 'v trie_node \<Rightarrow> 'v trie_node \<times> 'v \<Rightarrow> bool" where
  "insert_post n A d merge key value t r \<longleftrightarrow>
     trie_ok n A d (fst r) \<and> \<not> is_leaf (fst r)
     \<and> snd r = combined merge (map_of (entries t) key) value
     \<and> map_of (entries (fst r)) = (map_of (entries t))(key \<mapsto> snd r)"

text \<open>
  The result of an insertion is a subtree \<open>s\<close> stored in the child of the key's code, in an inner
  node \<open>t0\<close>: \<open>t\<close> itself, or a new node in the place of a leaf.
\<close>

lemma insert_post_child:
  assumes t0: "trie_ok n A d t0" "\<not> is_leaf t0"
    and other: "\<And>k. TLB (k ! d) \<noteq> TLB (key ! d) \<Longrightarrow> map_of (entries t0) k = map_of (entries t) k"
    and s: "trie_ok n A (Suc d) s" "\<And>k. k \<in> set (keys s) \<Longrightarrow> TLB (k ! d) = TLB (key ! d)"
    and v: "v = combined merge (map_of (entries t) key) value"
    and m: "\<And>k. TLB (k ! d) = TLB (key ! d) \<Longrightarrow>
      map_of (entries s) k = ((map_of (entries t))(key \<mapsto> v)) k"
  shows "insert_post n A d merge key value t (set_child (TLB (key ! d)) s t0, v)"
proof -
  have "map_of (entries s) key = Some v" using m by simp
  then have "keys s \<noteq> []" by (auto simp: keys_nonempty_iff)
  then have "trie_ok n A d (set_child (TLB (key ! d)) s t0)"
    "\<And>k. map_of (entries (set_child (TLB (key ! d)) s t0)) k
      = (if TLB (k ! d) = TLB (key ! d) then map_of (entries s) k else map_of (entries t0) k)"
    using set_child_ok [OF t0 s(1) _ s(2) TLB_less] by blast+
  then show ?thesis
    using t0(2) v m other by (auto simp: insert_post_def fun_eq_iff)
qed

lemma position_less:
  assumes "trie_ok n A d t" "length key = n" "\<forall>k\<in>set (keys t). take d k = take d key"
    "is_leaf t \<Longrightarrow> node_suffix t \<noteq> key"
  shows "d < n"
proof (cases "is_leaf t")
  case True
  with assms(1) obtain v sfx ss where "t = TrieNode (replicate 16 None) (Some v) sfx ss" "ss > 0"
    "length sfx = n" "d \<le> n"
    by (rule trie_ok_leaf)
  with assms(2-4) True show ?thesis by (cases "d = n") (auto simp: keys_def)
next
  case False
  with assms(1) show ?thesis by (rule trie_ok_inner)
qed

lemma take_Suc_agree:
  assumes "take d k = take d key" "length k = n" "length key = n" "d < n" "k ! d = key ! d"
  shows "take (Suc d) k = take (Suc d) key"
  using assms by (simp add: take_Suc_conv_app_nth)

lemma split_leaf_ok:
  assumes t: "trie_ok n A d t" "is_leaf t" and inj: "inj_on TLB A" and n: "n \<le> 255"
    and key: "length key = n" "set key \<subseteq> A" and kc: "unat kc = d"
    and differ: "key ! d \<noteq> node_suffix t ! d" and d: "d < n"
  shows "\<exists>t'. split_leaf key kc (key ! d) value t = Inr t' \<and> insert_post n A d merge key value t (t', value)"
proof -
  obtain v sfx ss where eq: "t = TrieNode (replicate 16 None) (Some v) sfx ss" "ss > 0"
    "length sfx = n" "set sfx \<subseteq> A" "unat ss = d"
    using t by (rule trie_ok_leaf)
  let ?leaf = "new_leaf key (kc + 1) value"
  let ?inner = "set_child (TLB (key ! d)) ?leaf new_TrieNode"
  have codes: "TLB (key ! d) \<noteq> TLB (sfx ! d)"
    using differ inj key(1,2) eq d by (auto dest!: inj_onD)
  have leaf: "trie_ok n A (Suc d) ?leaf" "entries ?leaf = [(key, value)]"
    by (simp_all add: new_leaf_ok [OF key d n kc])
  have bumped: "trie_ok n A (Suc d) (bump_suffix_start t)"
    "entries (bump_suffix_start t) = [(sfx, v)]"
    using bump_ok [OF t d n] eq by simp_all
  have inner: "trie_ok n A d ?inner"
    "\<And>k. map_of (entries ?inner) k = (if TLB (k ! d) = TLB (key ! d) then map_of [(key, value)] k else None)"
    using set_child_ok [OF trie_ok_new_node [OF d] not_is_leaf_new_node leaf(1), of "TLB (key ! d)"]
    by (simp_all add: keys_def leaf(2))
  have outer: "trie_ok n A d (set_child (TLB (sfx ! d)) (bump_suffix_start t) ?inner)"
    "\<And>k. map_of (entries (set_child (TLB (sfx ! d)) (bump_suffix_start t) ?inner)) k =
      (if TLB (k ! d) = TLB (sfx ! d) then map_of [(sfx, v)] k else map_of (entries ?inner) k)"
    using set_child_ok [OF inner(1) _ bumped(1), of "TLB (sfx ! d)"] by (simp_all add: keys_def bumped(2))
  have "sfx \<noteq> key" using differ eq by auto
  then have "insert_post n A d merge key value t
      (set_child (TLB (sfx ! d)) (bump_suffix_start t) ?inner, value)"
    using outer inner(2) codes eq by (auto simp: insert_post_def combined_def fun_eq_iff)
  moreover have "split_leaf key kc (key ! d) value t
      = Inr (set_child (TLB (sfx ! d)) (bump_suffix_start t) ?inner)"
    using eq d by (simp add: split_leaf_def Let_def)
  ultimately show ?thesis by blast
qed

lemma insert_post_keys:
  "insert_post n A d merge key value t (s, v) \<Longrightarrow> set (keys s) = insert key (set (keys t))"
  by (auto simp: insert_post_def keys_conv_map_of split: if_splits)

lemma insert_loop_leaf:
  assumes t: "trie_ok n A d t" "is_leaf t" and inj: "inj_on TLB A" and n: "n \<le> 255"
    and key: "length key = n" "set key \<subseteq> A" and kc: "unat kc = d" and d: "d < n"
    and agree: "\<forall>k\<in>set (keys t). take d k = take d key" and ne: "node_suffix t \<noteq> key"
    and IH: "key ! d = node_suffix t ! d \<Longrightarrow> \<exists>r. insert_loop merge key value (kc + 1) (bump_suffix_start t) = Inr r
      \<and> insert_post n A (Suc d) merge key value (bump_suffix_start t) r"
  shows "\<exists>r. insert_loop merge key value kc t = Inr r \<and> insert_post n A d merge key value t r"
proof -
  obtain v sfx ss where eq: "t = TrieNode (replicate 16 None) (Some v) sfx ss" "ss > 0"
    "length sfx = n" "set sfx \<subseteq> A" "unat ss = d"
    using t by (rule trie_ok_leaf)
  have at: "str_at key (unat kc) = Inr (key ! d)" using d key kc by simp
  have none: "nth_child (node_children t) (TLB (key ! d)) = None" by (simp add: eq)
  have sat: "str_at (node_suffix t) (unat kc) = Inr (sfx ! d)" using eq d kc by simp
  show ?thesis
  proof (cases "key ! d = sfx ! d")
    case False
    then have "key ! d \<noteq> node_suffix t ! d" using eq(1) by simp
    then obtain t' where "split_leaf key kc (key ! d) value t = Inr t'"
      "insert_post n A d merge key value t (t', value)"
      using split_leaf_ok [OF t inj n key kc _ d] by blast
    with at none sat False eq(2) show ?thesis
      by (subst insert_loop.simps) (simp add: eq(1))
  next
    case True
    then obtain s w where s: "insert_loop merge key value (kc + 1) (bump_suffix_start t) = Inr (s, w)"
      "insert_post n A (Suc d) merge key value (bump_suffix_start t) (s, w)"
      using IH eq by auto
    have b: "entries (bump_suffix_start t) = entries t" using bump_ok [OF t d n] by simp
    have codes: "TLB (k ! d) = TLB (key ! d)" if "k \<in> set (keys s)" for k
      using insert_post_keys [OF s(2)] that b eq True by (auto simp: keys_def)
    have "insert_post n A d merge key value t (set_child (TLB (key ! d)) s new_TrieNode, w)"
      by (rule insert_post_child [OF trie_ok_new_node [OF d]])
        (use s(2) codes b eq True in \<open>auto simp: insert_post_def\<close>)
    with s(1) at none sat True eq(2) show ?thesis
      by (subst insert_loop.simps) (simp add: eq(1))
  qed
qed

text \<open>The inner node \<open>t\<close>: an empty slot, the leaf of the key, or a descent into the child.\<close>

lemma child_agree:
  assumes t: "trie_ok n A d (TrieNode cs None [] 0)" and inj: "inj_on TLB A"
    and key: "length key = n" "set key \<subseteq> A" and d: "d < n"
    and agree: "\<forall>k\<in>set (keys (TrieNode cs None [] 0)). take d k = take d key"
    and s: "nth_child cs (TLB (key ! d)) = Some s"
  shows "\<forall>k\<in>set (keys s). take (Suc d) k = take (Suc d) key"
proof
  fix k assume k: "k \<in> set (keys s)"
  have "trie_ok n A (Suc d) s" "TLB (k ! d) = TLB (key ! d)"
    using trie_ok_child [OF t s] k by blast+
  then have kk: "length k = n" "set k \<subseteq> A" using trie_ok_keys k by blast+
  have "k ! d \<in> A" "key ! d \<in> A" using kk key d nth_mem by (metis subsetD)+
  then have "k ! d = key ! d" using inj_onD [OF inj \<open>TLB (k ! d) = TLB (key ! d)\<close>] by blast
  moreover have "k \<in> set (keys (TrieNode cs None [] 0))" using k s by (auto simp: set_keys_inner)
  ultimately show "take (Suc d) k = take (Suc d) key"
    using take_Suc_agree agree kk key d by blast
qed

lemma child_matches:
  assumes s: "trie_ok n A (Suc d) s" and key: "length key = n" and d: "d < n" "unat kc = d"
    and agree: "\<forall>k\<in>set (keys s). take (Suc d) k = take (Suc d) key"
  shows "(if node_suffix_start s > 0 then suffix_match key (node_suffix s) (unat kc) else Inr False)
    = Inr (is_leaf s \<and> node_suffix s = key)"
proof (cases "is_leaf s")
  case True
  with s obtain v sfx ss where eq: "s = TrieNode (replicate 16 None) (Some v) sfx ss" "ss > 0"
    "length sfx = n" by (rule trie_ok_leaf)
  then have "take (Suc d) sfx = take (Suc d) key" using agree by (simp add: keys_def)
  then have "take d sfx = take d key" by (metis le_add2 min.absorb1 plus_1_eq_Suc take_take)
  then show ?thesis
    using suffix_match_agree [of sfx key d] eq key d by (simp add: is_leaf_def)
qed (simp add: is_leaf_def)

lemma insert_loop_empty_slot:
  assumes t: "trie_ok n A d t" "t = TrieNode cs None [] 0" and n: "n \<le> 255"
    and key: "length key = n" "set key \<subseteq> A" and kc: "unat kc = d" and d: "d < n"
    and empty: "nth_child cs (TLB (key ! d)) = None"
  shows "\<exists>r. insert_loop merge key val kc t = Inr r \<and> insert_post n A d merge key val t r"
proof -
  have leaf: "trie_ok n A (Suc d) (new_leaf key (kc + 1) val)"
    "entries (new_leaf key (kc + 1) val) = [(key, val)]"
    by (simp_all add: new_leaf_ok [OF key d n kc])
  have none: "map_of (entries t) k = None" if "TLB (k ! d) = TLB (key ! d)" for k
    using map_of_inner [OF t(1) [unfolded t(2)], of k] empty that by (simp add: t(2))
  have "\<not> is_leaf t" by (simp add: t(2) is_leaf_def)
  then have "insert_post n A d merge key val t
      (set_child (TLB (key ! d)) (new_leaf key (kc + 1) val) t, val)"
    by (intro insert_post_child [OF t(1)])
      (use leaf none in \<open>auto simp: keys_def combined_def\<close>)
  then show ?thesis
    using key d kc empty by (subst insert_loop.simps) (simp add: t(2))
qed

lemma insert_loop_child:
  assumes t: "trie_ok n A d t" "t = TrieNode cs None [] 0"
    and key: "length key = n" "set key \<subseteq> A" and kc: "unat kc = d" and d: "d < n"
    and s: "nth_child cs (TLB (key ! d)) = Some s"
    and agree: "\<forall>k\<in>set (keys s). take (Suc d) k = take (Suc d) key"
    and IH: "\<not> (is_leaf s \<and> node_suffix s = key) \<Longrightarrow>
      \<exists>r. insert_loop merge key val (kc + 1) s = Inr r \<and> insert_post n A (Suc d) merge key val s r"
  shows "\<exists>r. insert_loop merge key val kc t = Inr r \<and> insert_post n A d merge key val t r"
proof -
  let ?c = "TLB (key ! d)"
  note inner = t(1) [unfolded t(2)]
  have at: "str_at key (unat kc) = Inr (key ! d)" using d key kc by simp
  have nl: "\<not> is_leaf t" by (simp add: t(2) is_leaf_def)
  have child: "nth_child (node_children t) ?c = Some s" using s t(2) by simp
  have sok: "trie_ok n A (Suc d) s" "\<And>k. k \<in> set (keys s) \<Longrightarrow> TLB (k ! d) = ?c"
    using trie_ok_child [OF inner s] by blast+
  have smap: "map_of (entries t) k = map_of (entries s) k" if "TLB (k ! d) = ?c" for k
    using map_of_inner [OF inner, of k] s that by (simp add: t(2))
  note matches = child_matches [OF sok(1) key(1) d kc agree]
  show ?thesis
  proof (cases "is_leaf s \<and> node_suffix s = key")
    case True
    with sok(1) obtain v ss where eq: "s = TrieNode (replicate 16 None) (Some v) key ss" "ss > 0"
      by (auto elim: trie_ok_leaf)
    let ?s = "set_value (merge v val) s"
    have s': "trie_ok n A (Suc d) ?s" "entries ?s = [(key, merge v val)]"
      using eq sok(1) by (simp_all add: set_value_def)
    have "insert_post n A d merge key val t (set_child ?c ?s t, merge v val)"
      by (rule insert_post_child [OF t(1) nl])
        (use s' smap eq in \<open>auto simp: keys_def combined_def\<close>)
    moreover have "node_value s = Some v" by (simp add: eq(1))
    ultimately show ?thesis
      using at child matches [unfolded eqTrueI [OF True]] by (subst insert_loop.simps) simp
  next
    case False
    then obtain s' w where r: "insert_loop merge key val (kc + 1) s = Inr (s', w)"
      "insert_post n A (Suc d) merge key val s (s', w)"
      using IH by auto
    have "insert_post n A d merge key val t (set_child ?c s' t, w)"
      by (rule insert_post_child [OF t(1) nl])
        (use r(2) insert_post_keys [OF r(2)] sok(2) smap in \<open>auto simp: insert_post_def\<close>)
    with at child matches False r(1) show ?thesis
      by (subst insert_loop.simps) simp
  qed
qed

text \<open>Insertion returns on every well-formed trie, and stores the combined value under the key.\<close>

lemma insert_loop_ok:
  assumes "trie_ok n A d t" and "inj_on TLB A" and "n \<le> 255"
    and "length key = n" and "set key \<subseteq> A" and "unat kc = d"
    and "\<forall>k\<in>set (keys t). take d k = take d key" and "is_leaf t \<Longrightarrow> node_suffix t \<noteq> key"
  shows "\<exists>r. insert_loop merge key val kc t = Inr r \<and> insert_post n A d merge key val t r"
  using assms
proof (induction merge key val kc t arbitrary: d rule: insert_loop.induct)
  case (1 merge key val kc t)
  note inj = "1.prems"(2) and n = "1.prems"(3) and key = "1.prems"(4,5) and kc = "1.prems"(6)
  have d: "d < n" using position_less "1.prems" by blast
  have d': "unat (kc + 1) = Suc d"
    using d n kc unat_Suc_less [of kc 255] by (simp add: word_less_nat_alt)
  have at: "str_at key (unat kc) = Inr (key ! d)" using d key kc by simp
  show ?case
  proof (cases "is_leaf t")
    case True
    with "1.prems"(1) obtain v sfx ss where eq: "t = TrieNode (replicate 16 None) (Some v) sfx ss"
      "ss > 0" "length sfx = n" by (rule trie_ok_leaf)
    show ?thesis
    proof (rule insert_loop_leaf [OF "1.prems"(1) True inj n key kc d "1.prems"(7)])
      show "node_suffix t \<noteq> key" using "1.prems"(8) True .
      assume same: "key ! d = node_suffix t ! d"
      have none: "nth_child (node_children t) (TLB (key ! d)) = None" by (simp add: eq)
      have sat: "str_at (node_suffix t) (unat kc) = Inr (key ! d)" using eq d kc same by simp
      note b = bump_ok [OF "1.prems"(1) True d n]
      have "take (Suc d) sfx = take (Suc d) key"
        using take_Suc_agree [of d sfx key n] "1.prems"(7) eq key d same by (simp add: keys_def)
      then show "\<exists>r. insert_loop merge key val (kc + 1) (bump_suffix_start t) = Inr r
          \<and> insert_post n A (Suc d) merge key val (bump_suffix_start t) r"
        using "1.IH"(1) [OF at none _ sat _ b(1) inj n key d'] eq "1.prems"(8) True b(2,4)
        by (simp add: keys_def)
    qed
  next
    case False
    with "1.prems"(1) obtain cs where t: "t = TrieNode cs None [] 0"
      by (rule trie_ok_inner)
    show ?thesis
    proof (cases "nth_child cs (TLB (key ! d))")
      case None
      with insert_loop_empty_slot [OF "1.prems"(1) t n key kc d] show ?thesis by blast
    next
      case (Some s)
      note inner = "1.prems"(1) [unfolded t]
      have s: "trie_ok n A (Suc d) s" using trie_ok_child [OF inner Some] by blast
      have agree: "\<forall>k\<in>set (keys s). take (Suc d) k = take (Suc d) key"
        using child_agree [OF inner inj key d _ Some] "1.prems"(7) t by blast
      note matches = child_matches [OF s key(1) d kc agree]
      have child: "nth_child (node_children t) (TLB (key ! d)) = Some s" using Some t by simp
      show ?thesis
      proof (rule insert_loop_child [OF "1.prems"(1) t key kc d Some agree])
        assume no: "\<not> (is_leaf s \<and> node_suffix s = key)"
        then show "\<exists>r. insert_loop merge key val (kc + 1) s = Inr r
            \<and> insert_post n A (Suc d) merge key val s r"
          using "1.IH"(2) [OF at child matches _ s inj n key d' agree] by blast
      qed
    qed
  qed
qed

section \<open>Lookup\<close>

lemma lookup_loop_leaf:
  assumes t: "trie_ok n A d t" "is_leaf t" and key: "length key = n" and kc: "unat kc = d" "d \<le> n"
    and agree: "\<forall>k\<in>set (keys t). take d k = take d key"
  shows "lookup_loop key kc (Some t) = Inr (map_of (entries t) key)"
proof -
  obtain v sfx ss where eq: "t = TrieNode (replicate 16 None) (Some v) sfx ss" "ss > 0" "length sfx = n"
    using t by (rule trie_ok_leaf)
  have "suffix_match key sfx d = Inr (sfx = key)"
    using suffix_match_agree [of sfx key d] agree eq key kc by (simp add: keys_def)
  then show ?thesis using eq kc by auto
qed

lemma lookup_loop_ok:
  assumes "trie_ok n A d t" and "inj_on TLB A" and "n \<le> 255" and "length key = n" and "set key \<subseteq> A"
    and "unat kc = d" and "\<forall>k\<in>set (keys t). take d k = take d key"
  shows "lookup_loop key kc (Some t) = Inr (map_of (entries t) key)"
  using assms
proof (induction n A d t arbitrary: kc rule: trie_ok.induct)
  case (1 n A d cs v sfx ss)
  let ?t = "TrieNode cs v sfx ss"
  show ?case
  proof (cases "ss > 0")
    case True
    then have "is_leaf ?t" by (simp add: is_leaf_def)
    moreover from "1.prems"(1) this have "d \<le> n" by (rule trie_ok_leaf)
    ultimately show ?thesis using lookup_loop_leaf "1.prems" by blast
  next
    case False
    then have t: "?t = TrieNode cs None [] 0" and d: "d < n"
      using "1.prems"(1) by (simp_all add: word_gt_0)
    note inner = "1.prems"(1) [unfolded t]
    have kc': "unat (kc + 1) = Suc d"
      using d "1.prems"(3,6) unat_Suc_less [of kc 255] by (simp add: word_less_nat_alt)
    have child: "lookup_loop key kc (Some ?t) = lookup_loop key (kc + 1) (nth_child cs (TLB (key ! d)))"
      using False d "1.prems"(4,6) by simp
    show ?thesis
    proof (cases "nth_child cs (TLB (key ! d))")
      case None
      with child map_of_inner [OF inner, of key] show ?thesis unfolding t by simp
    next
      case (Some s)
      have "\<forall>k\<in>set (keys s). take (Suc d) k = take (Suc d) key"
        using child_agree [OF inner "1.prems"(2,4,5) d _ Some] "1.prems"(7) t by simp
      moreover have "trie_ok n A (Suc d) s" using trie_ok_child [OF inner Some] by blast
      ultimately have "lookup_loop key (kc + 1) (Some s) = Inr (map_of (entries s) key)"
        using "1.IH" [OF False, of "TLB (key ! d)" s "kc + 1"] Some "1.prems" kc' by simp
      with child Some map_of_inner [OF inner, of key] show ?thesis unfolding t by simp
    qed
  qed
qed

section \<open>The trie as a map\<close>

definition valid_key :: "nat \<Rightarrow> char set \<Rightarrow> string \<Rightarrow> bool" where
  "valid_key n A key \<longleftrightarrow> length key = n \<and> set key \<subseteq> A"

definition handle_trie_ok :: "nat \<Rightarrow> char set \<Rightarrow> 'v handle_trie \<Rightarrow> bool" where
  "handle_trie_ok n A m \<longleftrightarrow> unat (key_size m) = n \<and> n \<le> 255 \<and> inj_on TLB A
     \<and> trie_ok n A 0 (root m) \<and> \<not> is_leaf (root m)"

lemma new_HandleTrie_ok:
  assumes "0 < n" and "n \<le> 255" and "inj_on TLB A"
  shows "\<exists>m. new_HandleTrie n = Inr m \<and> handle_trie_ok (unat n) A m \<and> trie_map m = (\<lambda>_. None)"
  using assms trie_ok_new_node [of 0 "unat n" A]
  by (auto simp: new_HandleTrie_def handle_trie_ok_def trie_map_def trie_entries_def
      word_less_nat_alt word_le_nat_alt)

lemma trie_insert_ok:
  assumes m: "handle_trie_ok n A m" and key: "valid_key n A key"
  shows "\<exists>m'. trie_insert merge m key v = Inr (m', combined merge (trie_map m key) v)
    \<and> handle_trie_ok n A m' \<and> trie_map m' = (trie_map m)(key \<mapsto> combined merge (trie_map m key) v)"
proof -
  have "\<exists>r. insert_loop merge key v 0 (root m) = Inr r \<and> insert_post n A 0 merge key v (root m) r"
    using m key by (intro insert_loop_ok) (auto simp: handle_trie_ok_def valid_key_def)
  then obtain t w where "insert_loop merge key v 0 (root m) = Inr (t, w)"
    "insert_post n A 0 merge key v (root m) (t, w)" by auto
  with m key show ?thesis
    by (auto simp: trie_insert_def check_key_size_def handle_trie_ok_def valid_key_def insert_post_def
        trie_map_def trie_entries_def)
qed

lemma trie_lookup_ok:
  assumes "handle_trie_ok n A m" and "valid_key n A key"
  shows "trie_lookup m key = Inr (trie_map m key)"
  using assms lookup_loop_ok [of n A 0 "root m" key 0]
  by (simp add: trie_lookup_def check_key_size_def handle_trie_ok_def valid_key_def trie_map_def
      trie_entries_def)

interpretation trie: merging_map "trie_insert merge" trie_lookup trie_map "handle_trie_ok n A"
    "valid_key n A" merge for merge n A
  by unfold_locales (auto simp: trie_insert_ok trie_lookup_ok)

end
