(* ===== verification/Handle_Trie_Traverse.thy ===== *)
theory Handle_Trie_Traverse
  imports Handle_Trie_Correct
begin

text \<open>
  Traversal of \<open>HandleTrie\<close> and writes through the value pointers: the explicit stack of
  \<open>traverse\<close> visits the leaves from left to right; in a well-formed trie these are the stored keys,
  each once, in the order of their digits.
\<close>

section \<open>The stack visits the leaves from left to right\<close>

primrec leaves :: "'v trie_node \<Rightarrow> 'v trie_node list" where
  "leaves (TrieNode cs v sfx ss) =
     (if ss > 0 then [TrieNode cs v sfx ss]
      else concat (map (case_option [] id) (map (map_option leaves) cs)))"

text \<open>The visits in order, until one of them answers true or fails.\<close>

fun visit_all :: "('v trie_node \<Rightarrow> 's \<Rightarrow> (bool \<times> 's) result) \<Rightarrow> 'v trie_node list \<Rightarrow> 's
    \<Rightarrow> 's result" where
  "visit_all visit [] s = Inr s"
| "visit_all visit (t # ts) s =
     and_then (visit t s) (\<lambda>(stop, s'). if stop then Inr s' else visit_all visit ts s')"

lemma concat_leaves_push_children:
  "concat (map leaves (push_children cs st)) =
    concat (map (case_option [] id) (map (map_option leaves) cs)) @ concat (map leaves st)"
  by (induction cs) (auto simp: push_children_def split: option.split)

lemma traverse_loop_leaves:
  "traverse_loop visit st s = visit_all visit (concat (map leaves st)) s"
proof (induction visit st s rule: traverse_loop.induct)
  case (1 visit s)
  then show ?case by simp
next
  case (2 visit t st s)
  show ?case
  proof (cases "node_suffix_start t > 0")
    case True
    then have "leaves t = [t]" by (cases t) simp
    with True "2.IH"(1) show ?thesis
      by (auto simp: and_then_def split: sum.split)
  next
    case False
    then have "leaves t @ concat (map leaves st) = concat (map leaves (push_children (node_children t) st))"
      by (cases t) (simp add: concat_leaves_push_children)
    with False "2.IH"(2) show ?thesis by simp
  qed
qed

lemma trie_traverse_leaves: "trie_traverse visit m s = visit_all visit (leaves (root m)) s"
  by (simp add: trie_traverse_def traverse_loop_leaves)

lemma visit_all_cong:
  assumes "\<And>t s. t \<in> set ts \<Longrightarrow> visit t s = visit' t s"
  shows "visit_all visit ts s = visit_all visit' ts s"
  using assms by (induction ts arbitrary: s) (auto simp: and_then_def split: sum.split)

text \<open>A traversal whose visits never stop and never fail is a fold over the leaves.\<close>

lemma visit_all_fold:
  assumes "\<And>t s. t \<in> set ts \<Longrightarrow> P s \<Longrightarrow> visit t s = Inr (False, f t s) \<and> P (f t s)" and "P s"
  shows "visit_all visit ts s = Inr (fold f ts s) \<and> P (fold f ts s)"
  using assms by (induction ts arbitrary: s) auto

section \<open>The leaves of a well-formed trie are its entries\<close>

definition leaf_entry :: "'v trie_node \<Rightarrow> string \<times> 'v" where
  "leaf_entry t = (node_suffix t, the (node_value t))"

lemma leaves_inner:
  "leaves (TrieNode cs v sfx 0) = concat (map (case_option [] leaves) cs)"
proof -
  have "case_option [] id \<circ> map_option leaves = (case_option [] leaves :: 'a trie_node option \<Rightarrow> _)"
    by (auto simp: fun_eq_iff split: option.split)
  then show ?thesis by simp
qed

declare leaves.simps [simp del]

lemma leaves_leaf [simp]: "ss > 0 \<Longrightarrow> leaves (TrieNode cs v sfx ss) = [TrieNode cs v sfx ss]"
  by (simp add: leaves.simps)

lemma leaves_ok:
  assumes "trie_ok n A d t"
  shows "map leaf_entry (leaves t) = entries t
    \<and> (\<forall>l\<in>set (leaves t). is_leaf l \<and> node_value l \<noteq> None)"
  using assms
proof (induction n A d t rule: trie_ok.induct)
  case (1 n A d cs v sfx ss)
  show ?case
  proof (cases "ss > 0")
    case True
    with 1 show ?thesis by (auto simp: leaf_entry_def is_leaf_def)
  next
    case False
    then have ss: "ss = 0" by (simp add: word_gt_0)
    have child: "map leaf_entry (case_option [] leaves c) = child_entries c
      \<and> (\<forall>l\<in>set (case_option [] leaves c). is_leaf l \<and> node_value l \<noteq> None)"
      if c: "c \<in> set cs" for c
    proof (cases c)
      case None
      then show ?thesis by (simp add: child_entries_def)
    next
      case (Some s)
      with c obtain i where i: "nth_child cs i = Some s" by (auto simp: Some_in_set_nth_child)
      then have "i < 16" using "1.prems" by (auto simp: nth_child_def split: if_splits)
      moreover have "trie_ok n A (Suc d) s" using trie_ok_child "1.prems" i ss by blast
      ultimately show ?thesis using "1.IH" [OF False _ i] Some by (simp add: child_entries_def)
    qed
    then have "map (map leaf_entry) (map (case_option [] leaves) cs) = map child_entries cs" by simp
    moreover have "\<forall>l\<in>set (leaves (TrieNode cs v sfx 0)). is_leaf l \<and> node_value l \<noteq> None"
      using child by (auto simp: leaves_inner)
    ultimately show ?thesis
      by (simp add: ss leaves_inner entries_inner map_concat del: map_map)
  qed
qed

section \<open>The keys are visited in the order of their digits\<close>

definition codes :: "string \<Rightarrow> nat list" where
  "codes k = map TLB k"

lemma codes_less:
  assumes "take d j = take d k" "d < length j" "d < length k" "TLB (j ! d) < TLB (k ! d)"
  shows "codes j < codes k"
proof -
  have "codes j = codes (take d j) @ TLB (j ! d) # codes (drop (Suc d) j)"
    using id_take_nth_drop [OF assms(2)] by (metis codes_def list.simps(9) map_append)
  moreover have "codes k = codes (take d j) @ TLB (k ! d) # codes (drop (Suc d) k)"
    using id_take_nth_drop [OF assms(3)] assms(1) by (metis codes_def list.simps(9) map_append)
  ultimately show ?thesis using assms(4) by (simp add: list_less_def lexord_append_leftI)
qed

lemma sorted_wrt_concat:
  assumes "\<And>xs. xs \<in> set xss \<Longrightarrow> sorted_wrt P xs"
    and "\<And>i j x y. i < j \<Longrightarrow> j < length xss \<Longrightarrow> x \<in> set (xss ! i) \<Longrightarrow> y \<in> set (xss ! j) \<Longrightarrow> P x y"
  shows "sorted_wrt P (concat xss)"
  using assms
proof (induction xss)
  case Nil
  then show ?case by simp
next
  case (Cons xs xss)
  have "sorted_wrt P (concat xss)"
  proof (rule Cons.IH)
    fix i j x y assume "i < j" "j < length xss" "x \<in> set (xss ! i)" "y \<in> set (xss ! j)"
    then show "P x y" using Cons.prems(2) [of "Suc i" "Suc j" x y] by simp
  qed (use Cons.prems(1) in simp)
  moreover have "P x y" if x: "x \<in> set xs" and y: "y \<in> set (concat xss)" for x y
  proof -
    obtain ys where "ys \<in> set xss" "y \<in> set ys" using y by auto
    then obtain j where "j < length xss" "y \<in> set (xss ! j)" by (metis in_set_conv_nth)
    then show ?thesis using Cons.prems(2) [of 0 "Suc j" x y] x by simp
  qed
  ultimately show ?case using Cons.prems(1) by (simp add: sorted_wrt_append)
qed

lemma keys_inner: "keys (TrieNode cs v sfx 0) = concat (map (map fst \<circ> child_entries) cs)"
  by (simp add: keys_def entries_inner map_concat comp_def)

lemma map_fst_child_entries: "map fst (child_entries c) = (case c of None \<Rightarrow> [] | Some s \<Rightarrow> keys s)"
  by (simp add: child_entries_def keys_def split: option.split)

lemma nth_child_keys:
  assumes "i < length cs" and "k \<in> set (map (map fst \<circ> child_entries) cs ! i)"
  shows "\<exists>s. nth_child cs i = Some s \<and> k \<in> set (keys s)"
  using assms by (cases "cs ! i") (auto simp: nth_child_def map_fst_child_entries)

lemma sorted_wrt_distinct: "sorted_wrt P xs \<Longrightarrow> (\<And>x. \<not> P x x) \<Longrightarrow> distinct xs"
  by (induction xs) auto

lemma codes_sorted_keys:
  assumes "trie_ok n A d t" and "inj_on TLB A" and "\<exists>p. \<forall>k\<in>set (keys t). take d k = p"
  shows "sorted_wrt (\<lambda>j k. codes j < codes k) (keys t)"
  using assms
proof (induction n A d t rule: trie_ok.induct)
  case (1 n A d cs v sfx ss)
  show ?case
  proof (cases "ss > 0")
    case True
    with "1.prems"(1) show ?thesis by (auto simp: keys_def)
  next
    case False
    then have t: "TrieNode cs v sfx ss = TrieNode cs None [] 0" and d: "d < n"
      using "1.prems"(1) by (simp_all add: word_gt_0)
    note inner = "1.prems"(1) [unfolded t]
    obtain p where p: "k \<in> set (keys (TrieNode cs None [] 0)) \<Longrightarrow> take d k = p" for k
      using "1.prems"(3) unfolding t by blast
    have child: "trie_ok n A (Suc d) s" "k \<in> set (keys s) \<Longrightarrow> TLB (k ! d) = i"
      "k \<in> set (keys s) \<Longrightarrow> take d k = p \<and> length k = n \<and> set k \<subseteq> A"
      if c: "nth_child cs i = Some s" for i s k
      using trie_ok_child [OF inner c] c p trie_ok_keys [of n A "Suc d" s k]
      by (auto simp: set_keys_inner)
    show ?thesis
      unfolding t keys_inner
    proof (rule sorted_wrt_concat)
      fix xs assume "xs \<in> set (map (map fst \<circ> child_entries) cs)"
      then obtain c where c: "c \<in> set cs" "xs = (case c of None \<Rightarrow> [] | Some s \<Rightarrow> keys s)"
        by (auto simp: map_fst_child_entries)
      show "sorted_wrt (\<lambda>j k. codes j < codes k) xs"
      proof (cases c)
        case (Some s)
        with c obtain i where i: "nth_child cs i = Some s" by (auto simp: Some_in_set_nth_child)
        have "\<exists>q. \<forall>k\<in>set (keys s). take (Suc d) k = q"
        proof (cases "keys s")
          case (Cons k0 ks)
          have "take (Suc d) k = take (Suc d) k0" if k: "k \<in> set (keys s)" for k
          proof (rule take_Suc_agree)
            have k0: "k0 \<in> set (keys s)" using Cons by simp
            show "take d k = take d k0" "length k = n" "length k0 = n" "d < n"
              using child(3) [OF i k] child(3) [OF i k0] d by auto
            have "k ! d \<in> A" "k0 ! d \<in> A"
              using child(3) [OF i k] child(3) [OF i k0] d nth_mem by (metis subsetD)+
            then show "k ! d = k0 ! d"
              using child(2) [OF i k] child(2) [OF i k0] "1.prems"(2) by (auto dest: inj_onD)
          qed
          then show ?thesis by blast
        qed simp
        moreover have "i < 16" using i inner by (auto simp: nth_child_def split: if_splits)
        ultimately show ?thesis
          using "1.IH" [OF False _ i] child(1) [OF i] "1.prems"(2) c Some by simp
      qed (simp add: c)
    next
      fix i j x y
      assume ij: "i < j" "j < length (map (map fst \<circ> child_entries) cs)"
        and x: "x \<in> set (map (map fst \<circ> child_entries) cs ! i)"
        and y: "y \<in> set (map (map fst \<circ> child_entries) cs ! j)"
      have len: "i < length cs" "j < length cs" using ij by simp_all
      obtain s where s: "nth_child cs i = Some s" "x \<in> set (keys s)"
        using nth_child_keys [OF len(1) x] by blast
      obtain s' where s': "nth_child cs j = Some s'" "y \<in> set (keys s')"
        using nth_child_keys [OF len(2) y] by blast
      have "TLB (x ! d) < TLB (y ! d)" using child(2) [OF s] child(2) [OF s'] ij(1) by simp
      moreover have "take d x = take d y" "d < length x" "d < length y"
        using child(3) [OF s] child(3) [OF s'] d by simp_all
      ultimately show "codes x < codes y" by (intro codes_less)
    qed
  qed
qed

lemma sorted_distinct_keys:
  assumes "handle_trie_ok n A m"
  shows "sorted_wrt (\<lambda>j k. codes j < codes k) (map fst (trie_entries m))"
    and "distinct (map fst (trie_entries m))"
proof -
  show s: "sorted_wrt (\<lambda>j k. codes j < codes k) (map fst (trie_entries m))"
    using codes_sorted_keys [of n A 0 "root m"] assms
    by (simp add: handle_trie_ok_def trie_entries_def keys_def)
  show "distinct (map fst (trie_entries m))"
    by (rule sorted_wrt_distinct [OF s]) simp
qed

section \<open>Writes through a value pointer\<close>

lemma map_of_map_values: "map_of (map (\<lambda>(k, v). (k, g k v)) xs) k = map_option (g k) (map_of xs k)"
  by (induction xs) auto

lemma nth_child_map: "nth_child (map (map_option g) cs) i = map_option g (nth_child cs i)"
  by (simp add: nth_child_def)

lemma update_leaf_ok:
  assumes "trie_ok n A d t"
  shows "trie_ok n A d (update_leaf key f t)
    \<and> entries (update_leaf key f t) = map (\<lambda>(k, v). (k, if k = key then f v else v)) (entries t)"
  using assms
proof (induction n A d t rule: trie_ok.induct)
  case (1 n A d cs v sfx ss)
  show ?case
  proof (cases "ss > 0")
    case True
    with 1 show ?thesis by (auto simp: map_replicate_const)
  next
    case False
    then have t: "TrieNode cs v sfx ss = TrieNode cs None [] 0"
      using "1.prems" by (simp add: word_gt_0)
    note inner = "1.prems" [unfolded t]
    have child: "trie_ok n A (Suc d) (update_leaf key f s)
      \<and> entries (update_leaf key f s) = map (\<lambda>(k, v). (k, if k = key then f v else v)) (entries s)"
      if s: "nth_child cs i = Some s" for i s
      using "1.IH" [OF False _ s] trie_ok_child [OF inner s] inner s
      by (auto simp: nth_child_def split: if_splits)
    have ks: "keys (update_leaf key f s) = keys s" if s: "nth_child cs i = Some s" for i s
      using child [OF s] by (simp add: keys_def case_prod_unfold comp_def)
    have "child_entries (map_option (update_leaf key f) c)
        = map (\<lambda>(k, v). (k, if k = key then f v else v)) (child_entries c)" if c: "c \<in> set cs" for c
    proof (cases c)
      case (Some s)
      with c obtain i where "nth_child cs i = Some s" by (auto simp: Some_in_set_nth_child)
      with child Some show ?thesis by (simp add: child_entries_def)
    qed (simp add: child_entries_def)
    then have "entries (update_leaf key f (TrieNode cs None [] 0))
        = map (\<lambda>(k, v). (k, if k = key then f v else v)) (entries (TrieNode cs None [] 0))"
      by (simp add: entries_inner map_concat comp_def cong: map_cong)
    moreover have "trie_ok n A d (update_leaf key f (TrieNode cs None [] 0))"
      using inner child ks trie_ok_child [OF inner]
      by (auto simp: nth_child_map split: option.split)
    ultimately show ?thesis by (simp only: t)
  qed
qed

lemma is_leaf_update_leaf [simp]: "is_leaf (update_leaf key f t) = is_leaf t"
  by (cases t) (simp add: is_leaf_def)

lemma update_value_ok:
  assumes "handle_trie_ok n A m"
  shows "handle_trie_ok n A (update_value key f m)"
    and "trie_map (update_value key f m) k = (if k = key then map_option f (trie_map m k) else trie_map m k)"
    and "trie_entries (update_value key f m)
      = map (\<lambda>(k, v). (k, if k = key then f v else v)) (trie_entries m)"
proof -
  note u = update_leaf_ok [of n A 0 "root m" key f]
  show "handle_trie_ok n A (update_value key f m)"
    using assms u by (simp add: handle_trie_ok_def update_value_def)
  show e: "trie_entries (update_value key f m)
      = map (\<lambda>(k, v). (k, if k = key then f v else v)) (trie_entries m)"
    using assms u by (simp add: handle_trie_ok_def update_value_def trie_entries_def)
  show "trie_map (update_value key f m) k = (if k = key then map_option f (trie_map m k) else trie_map m k)"
    unfolding trie_map_def e map_of_map_values by (simp add: option.map_id0 option.map_ident)
qed

section \<open>The handles of the system\<close>

text \<open>Handles are strings of lower-case hexadecimal digits; their codes are distinct.\<close>

definition hex_digits :: "char set" where
  "hex_digits = set ''0123456789abcdef''"

lemma inj_TLB_hex_digits: "inj_on TLB hex_digits"
proof -
  have "distinct (map TLB ''0123456789abcdef'')" by code_simp
  then show ?thesis by (simp only: hex_digits_def distinct_map)
qed

end
