(* ===== verification/Handle_Trie_Keys.thy ===== *)
theory Handle_Trie_Keys
  imports Handle_Trie_Traverse
begin

text \<open>
  The properties of \<open>HandleTrie\<close> as its users see them, and what the table \<open>TLB\<close> does to keys
  outside its alphabet: two keys of equal codes are not told apart, and the second one is lost or
  sends the loop of \<open>insert\<close> past the end of the key.
\<close>

section \<open>Keys that the table does not distinguish\<close>

lemma length_codes_eq: "codes j = codes k \<Longrightarrow> length j = length k"
  by (metis codes_def length_map)

lemma TLB_nth_codes: "codes j = codes k \<Longrightarrow> i < length k \<Longrightarrow> TLB (j ! i) = TLB (k ! i)"
  by (metis codes_def length_codes_eq nth_map)

lemma entries_only_child:
  "i < 16 \<Longrightarrow> entries (set_child i s (set_child i s' new_TrieNode)) = entries s"
  "i < 16 \<Longrightarrow> entries (set_child i s new_TrieNode) = entries s"
proof -
  assume i: "i < 16"
  have "concat (map child_entries ((replicate 16 None)[i := Some s])) = entries s"
    using i by (simp add: upd_conv_take_nth_drop child_entries_def map_replicate_const)
  then show "entries (set_child i s (set_child i s' new_TrieNode)) = entries s"
    "entries (set_child i s new_TrieNode) = entries s"
    by (simp_all add: set_child_def new_TrieNode_def TRIE_ALPHABET_SIZE_def entries_inner)
qed

text \<open>
  At the leaf of a key of equal codes, the loop goes down until the two keys differ. There both
  leaves go to the same child of the split, the old one last; if the keys do not differ any more the
  loop runs past the end of the key.
\<close>

lemma insert_loop_colliding:
  assumes "codes key = codes sfx" and "length sfx < 255" and "unat ss = unat kc" and "0 < ss"
    and "unat kc \<le> length sfx"
  shows "if drop (unat kc) key = drop (unat kc) sfx
    then insert_loop merge key val kc (TrieNode (replicate 16 None) (Some v) sfx ss) = Inl Out_Of_Bounds
    else \<exists>s. insert_loop merge key val kc (TrieNode (replicate 16 None) (Some v) sfx ss) = Inr (s, val)
      \<and> entries s = [(sfx, v)]"
  using assms
proof (induction "Suc (length sfx) - unat kc" arbitrary: kc ss)
  case 0
  then show ?case by simp
next
  case (Suc m)
  let ?t = "TrieNode (replicate 16 None) (Some v) sfx ss"
  have len: "length key = length sfx" using Suc.prems(1) by (rule length_codes_eq)
  have kc': "unat (kc + 1) = Suc (unat kc)" "unat (ss + 1) = Suc (unat kc)"
    using Suc.prems unat_Suc_less [of kc 255] unat_Suc_less [of ss 255] by (simp_all add: word_less_nat_alt)
  then have pos: "0 < ss + 1" by (simp add: word_less_nat_alt)
  have bump: "bump_suffix_start ?t = TrieNode (replicate 16 None) (Some v) sfx (ss + 1)"
    by (simp add: bump_suffix_start_def)
  show ?case
  proof (cases "unat kc = length sfx")
    case True
    have oob: "str_at key (unat (kc + 1)) = Inl Out_Of_Bounds"
      using True len kc' by (simp add: str_at_def)
    have "insert_loop merge key val (kc + 1) (TrieNode (replicate 16 None) (Some v) sfx (ss + 1))
        = Inl Out_Of_Bounds"
      by (subst insert_loop.simps) (simp add: oob)
    then have "insert_loop merge key val kc ?t = Inl Out_Of_Bounds"
      using True Suc.prems(4) by (subst insert_loop.simps) (simp add: str_at_def len bump)
    then show ?thesis using True len by simp
  next
    case False
    then have less: "unat kc < length sfx" using Suc.prems(5) by simp
    have drop_eq: "drop (unat kc) key = drop (unat kc) sfx \<longleftrightarrow>
        key ! unat kc = sfx ! unat kc \<and> drop (unat (kc + 1)) key = drop (unat (kc + 1)) sfx"
      using less len kc' by (simp add: Cons_nth_drop_Suc [symmetric])
    show ?thesis
    proof (cases "key ! unat kc = sfx ! unat kc")
      case True
      have "m = Suc (length sfx) - unat (kc + 1)" "unat (kc + 1) \<le> length sfx" "unat (ss + 1) = unat (kc + 1)"
        using Suc.hyps(2) less kc' by simp_all
      note IH = Suc.hyps(1) [OF this(1) Suc.prems(1,2) this(3) pos this(2)]
      have step: "insert_loop merge key val kc ?t = and_then
          (insert_loop merge key val (kc + 1) (TrieNode (replicate 16 None) (Some v) sfx (ss + 1)))
          (\<lambda>(s, w). Inr (set_child (TLB (key ! unat kc)) s new_TrieNode, w))"
        using less len True Suc.prems(4) by (subst insert_loop.simps) (simp add: bump)
      show ?thesis
        using IH True drop_eq step by (auto simp: entries_only_child split: if_splits)
    next
      case False
      have "TLB (key ! unat kc) = TLB (sfx ! unat kc)"
        using TLB_nth_codes Suc.prems(1) less by blast
      then have "insert_loop merge key val kc ?t = Inr (set_child (TLB (key ! unat kc)) (bump_suffix_start ?t)
          (set_child (TLB (key ! unat kc)) (new_leaf key (kc + 1) val) new_TrieNode), val)"
        using less len False Suc.prems(3,4)
        by (subst insert_loop.simps) (simp add: split_leaf_def Let_def)
      then show ?thesis using False drop_eq pos by (simp add: entries_only_child bump)
    qed
  qed
qed

section \<open>Properties\<close>

text \<open>
  C16. A trie is a map that merges: after any sequence of insertions of valid keys into a new trie,
  a lookup of a valid key returns the values inserted under this key, merged in the order of
  insertion, and NULL when there was none. Every operation returns.
\<close>

theorem trie_lookup_after_insertions:
  fixes merge :: "'v \<Rightarrow> 'v \<Rightarrow> 'v"
  assumes "0 < n" and "n \<le> 255" and "inj_on TLB A"
    and "\<forall>p\<in>set kvs. valid_key (unat n) A (fst p)" and "valid_key (unat n) A key"
  shows "and_then (new_HandleTrie n) (\<lambda>m. and_then (insert_all (trie_insert merge) m kvs)
      (\<lambda>m'. trie_lookup m' key)) = Inr (merged merge (values_of kvs key))"
proof -
  obtain m :: "'v handle_trie" where m: "new_HandleTrie n = Inr m" "handle_trie_ok (unat n) A m" "trie_map m = (\<lambda>_. None)"
    using new_HandleTrie_ok [OF assms(1-3)] by blast
  with trie.lookup_merged [OF m(2,3) assms(4,5)] show ?thesis by simp
qed

theorem trie_lookup_after_insertions_witness:
  "and_then (new_HandleTrie 2) (\<lambda>m. and_then (insert_all (trie_insert (+)) m
      [(''a1'', 3), (''a2'', 4), (''a1'', (5::nat))]) (\<lambda>m'. trie_lookup m' ''a1'')) = Inr (Some 8)"
proof -
  have "\<forall>p\<in>set [(''a1'', 3), (''a2'', 4), (''a1'', (5::nat))]. valid_key (unat (2::u32)) hex_digits (fst p)"
    by (simp add: valid_key_def hex_digits_def)
  moreover have "valid_key (unat (2::u32)) hex_digits ''a1''"
    by (simp add: valid_key_def hex_digits_def)
  ultimately show ?thesis
    using trie_lookup_after_insertions [of 2 hex_digits "[(''a1'', 3), (''a2'', 4), (''a1'', 5)]" "''a1''" "(+)"]
      inj_TLB_hex_digits by (simp add: values_of_def)
qed

text \<open>
  C17. An insertion into a well-formed trie returns the merged value, keeps the trie well-formed, and
  changes the map at the inserted key only.
\<close>

theorem trie_insert_preserves:
  assumes "handle_trie_ok n A m" and "valid_key n A key"
  shows "\<exists>m' w. trie_insert merge m key v = Inr (m', w) \<and> handle_trie_ok n A m'
    \<and> w = (case trie_map m key of None \<Rightarrow> v | Some old \<Rightarrow> merge old v)
    \<and> trie_map m' = (trie_map m)(key \<mapsto> w)"
  using trie_insert_ok [OF assms, of merge v] by (simp add: combined_def)

theorem trie_insert_preserves_witness:
  "\<exists>m' w. trie_insert (+) \<lparr>key_size = 2, root = new_TrieNode\<rparr> ''a1'' (7::nat) = Inr (m', w)
    \<and> handle_trie_ok 2 hex_digits m' \<and> w = 7 \<and> trie_map m' = [''a1'' \<mapsto> w]"
proof -
  let ?m = "\<lparr>key_size = 2, root = new_TrieNode\<rparr> :: nat handle_trie"
  have "handle_trie_ok 2 hex_digits ?m" "trie_map ?m = (\<lambda>_. None)"
    using new_HandleTrie_ok [of 2 hex_digits, where ?'a = nat] inj_TLB_hex_digits
    by (simp_all add: new_HandleTrie_def)
  moreover have "valid_key 2 hex_digits ''a1''" by (simp add: valid_key_def hex_digits_def)
  ultimately show ?thesis
    using trie_insert_preserves [of 2 hex_digits ?m "''a1''" "(+)" 7] by (simp del: fun_upd_apply)
qed

text \<open>
  C18. A traversal calls its visitor on the leaves in sequence, stopping at the first visit that
  returns true or fails. The leaves hold the stored pairs; their keys are strictly increasing in
  the order of their digits, so every stored key is visited once.
\<close>

theorem trie_traverse_in_order:
  assumes "handle_trie_ok n A m"
  shows "trie_traverse visit m s = visit_all visit (leaves (root m)) s
    \<and> map (\<lambda>l. (node_suffix l, node_value l)) (leaves (root m))
        = map (\<lambda>(k, v). (k, Some v)) (trie_entries m)
    \<and> sorted_wrt (\<lambda>j k. codes j < codes k) (map fst (trie_entries m))
    \<and> set (map fst (trie_entries m)) = dom (trie_map m)"
proof -
  have l: "map leaf_entry (leaves (root m)) = trie_entries m"
    "\<forall>l\<in>set (leaves (root m)). node_value l \<noteq> None"
    using leaves_ok [of n A 0 "root m"] assms by (auto simp: handle_trie_ok_def trie_entries_def)
  have "map (\<lambda>l. (node_suffix l, node_value l)) (leaves (root m))
      = map (\<lambda>(k, v). (k, Some v)) (map leaf_entry (leaves (root m)))"
    using l(2) by (auto simp: leaf_entry_def)
  with l sorted_distinct_keys [OF assms] show ?thesis
    by (simp add: trie_traverse_leaves trie_map_def dom_map_of_conv_image_fst)
qed

definition collect_keys :: "'v trie_node \<Rightarrow> string list \<Rightarrow> (bool \<times> string list) result" where
  "collect_keys t s = Inr (False, s @ [node_suffix t])"

theorem trie_traverse_in_order_witness:
  "\<exists>m. insert_all (trie_insert (+)) \<lparr>key_size = 2, root = new_TrieNode\<rparr>
      [(''b0'', 1), (''a1'', 2), (''a0'', (3::nat))] = Inr m
    \<and> trie_traverse collect_keys m [] = Inr [''a0'', ''a1'', ''b0'']
    \<and> sorted_wrt (\<lambda>j k. codes j < codes k) (map fst (trie_entries m))"
proof -
  let ?kvs = "[(''b0'', 1), (''a1'', 2), (''a0'', (3::nat))]"
  let ?m0 = "\<lparr>key_size = 2, root = new_TrieNode\<rparr> :: nat handle_trie"
  have ok: "handle_trie_ok 2 hex_digits ?m0" "trie_map ?m0 = (\<lambda>_. None)"
    using new_HandleTrie_ok [of 2 hex_digits, where ?'a = nat] inj_TLB_hex_digits
    by (simp_all add: new_HandleTrie_def)
  have "\<forall>p\<in>set ?kvs. valid_key 2 hex_digits (fst p)" by (simp add: valid_key_def hex_digits_def)
  then obtain m where m: "insert_all (trie_insert (+)) ?m0 ?kvs = Inr m" "handle_trie_ok 2 hex_digits m"
    using trie.insert_all_merged [OF ok] by blast
  have "and_then (insert_all (trie_insert (+)) ?m0 ?kvs) (\<lambda>m. trie_traverse collect_keys m [])
      = Inr [''a0'', ''a1'', ''b0'']" by code_simp
  with m trie_traverse_in_order [OF m(2), of collect_keys "[]"] show ?thesis by simp
qed

text \<open>
  A key of another size than the trie's is refused by \<open>insert\<close> and \<open>lookup\<close> with the exception
  of \<open>Utils::error\<close>, whatever the trie holds; and the constructor refuses the sizes that the
  8-bit cursors cannot count.
\<close>

theorem trie_key_size_errors:
  fixes m :: "'v handle_trie"
  shows "(n = 0 \<or> n > 255 \<longrightarrow> (new_HandleTrie n :: 'v handle_trie result)
        = Inl (Runtime_Error (''Invalid key size: '' @ dec (unat n))))
   \<and> (length key \<noteq> unat (key_size m) \<longrightarrow>
      (let e = Runtime_Error (''Invalid key size: '' @ dec (length key) @ '' != '' @ dec (unat (key_size m)))
       in trie_insert merge m key v = Inl e \<and> trie_lookup m key = Inl e))"
  by (simp add: new_HandleTrie_def trie_insert_def trie_lookup_def check_key_size_def Let_def)

theorem trie_key_size_errors_witness:
  "new_HandleTrie 256 = (Inl (Runtime_Error ''Invalid key size: 256'') :: nat handle_trie result)
   \<and> trie_lookup \<lparr>key_size = 32, root = new_TrieNode :: nat trie_node\<rparr> ''abc''
      = Inl (Runtime_Error ''Invalid key size: 3 != 32'')"
proof -
  have d: "dec 256 = ''256''" "dec (Suc (Suc (Suc 0))) = ''3''" "dec 32 = ''32''" by code_simp+
  show ?thesis
    using trie_key_size_errors [of 256 "''abc''" "\<lparr>key_size = 32, root = new_TrieNode\<rparr> :: nat handle_trie" "(+)" 0]
    by (simp add: Let_def d)
qed

text \<open>
  C40. Two keys that \<open>TLB\<close> does not distinguish (hexadecimal digits of the other case, or any
  characters that are no digits): after the insertion of both into a new trie the second value is
  lost, only the first key is stored; and when they differ in their first character only, the
  second insertion reads the key out of its bounds.
\<close>

theorem colliding_keys:
  fixes merge :: "'v \<Rightarrow> 'v \<Rightarrow> 'v"
  assumes "codes key' = codes key" and "key' \<noteq> key" and "0 < length key" and "length key < 255"
    and n: "n = of_nat (length key)"
  shows "and_then (new_HandleTrie n) (\<lambda>m. and_then (insert_all (trie_insert merge) m [(key, v), (key', v')])
      (\<lambda>m'. Inr (trie_entries m'))) =
    (if tl key' = tl key then Inl Out_Of_Bounds else Inr [(key, v)])"
proof -
  let ?c = "TLB (key ! 0)"
  let ?leaf = "TrieNode (replicate 16 None) (Some v) key 1"
  let ?root = "set_child ?c ?leaf new_TrieNode"
  have un: "unat n = length key" using assms(4) n by (simp add: unat_of_nat take_bit_nat_eq_self)
  then have new: "new_HandleTrie n = Inr \<lparr>key_size = n, root = new_TrieNode :: 'v trie_node\<rparr>"
    using assms(3,4) by (auto simp: new_HandleTrie_def word_less_nat_alt)
  have len: "length key' = length key" using assms(1) by (rule length_codes_eq)
  have c': "TLB (key' ! 0) = ?c" using TLB_nth_codes [OF assms(1)] assms(3) by blast
  have first: "insert_loop merge key v 0 new_TrieNode = Inr (?root, v)"
    using assms(3) by (subst insert_loop.simps)
      (simp add: new_TrieNode_def TRIE_ALPHABET_SIZE_def new_leaf_def)
  have "\<not> suffix_match key' key 0 = Inr True"
    using suffix_match_eq [of key key' 0] len assms(2) by simp
  then have "suffix_match key' key 0 = Inr False"
    using suffix_match_eq [of key key' 0] len by simp
  then have second: "insert_loop merge key' v' 0 ?root = and_then (insert_loop merge key' v' 1 ?leaf)
      (\<lambda>(s, w). Inr (set_child ?c s ?root, w))"
    using assms(3) len c' by (subst insert_loop.simps)
      (simp add: set_child_def new_TrieNode_def TRIE_ALPHABET_SIZE_def)
  have "if drop 1 key' = drop 1 key then insert_loop merge key' v' 1 ?leaf = Inl Out_Of_Bounds
    else \<exists>s. insert_loop merge key' v' 1 ?leaf = Inr (s, v') \<and> entries s = [(key, v)]"
    using insert_loop_colliding [of key' key 1 1 merge v' v] assms by (simp add: Suc_le_eq)
  with new first second un len show ?thesis
    by (auto simp: trie_insert_def check_key_size_def trie_entries_def entries_only_child drop_Suc
        split: if_splits)
qed

theorem colliding_keys_witness:
  "and_then (new_HandleTrie 4) (\<lambda>m. and_then (insert_all (trie_insert (+)) m [(''abcd'', 1), (''abcD'', (2::nat))])
      (\<lambda>m'. Inr (trie_entries m'))) = Inr [(''abcd'', 1)]
   \<and> and_then (new_HandleTrie 4) (\<lambda>m. and_then (insert_all (trie_insert (+)) m [(''abcd'', 1), (''Abcd'', (2::nat))])
      (\<lambda>m'. Inr (trie_entries m'))) = Inl Out_Of_Bounds"
proof -
  have "codes ''abcD'' = codes ''abcd''" "codes ''Abcd'' = codes ''abcd''" by code_simp+
  then show ?thesis
    using colliding_keys [of "''abcD''" "''abcd''" 4 "(+)" "1::nat" 2]
      colliding_keys [of "''Abcd''" "''abcd''" 4 "(+)" "1::nat" 2]
    by simp
qed

end
