(* ===== verification/Hebbian_Network.thy ===== *)
theory Hebbian_Network
  imports Doubles Handle_Trie_Keys
begin

text \<open>
  \<open>attention_broker_server/HebbianNetwork\<close>: a trie of nodes, each with a trie of edges to its
  neighbours. The program keeps \<open>Node *\<close> pointers in edges and passes them around. The object that
  \<open>add_node\<close> allocates for a handle is owned by the leaf of this handle, so an address is named by
  the handle it was allocated for: the ghost field \<open>self\<close> of a node is its own address, \<open>None\<close> is
  NULL, and an access through a pointer is an access to the leaf of that handle.
\<close>

section \<open>State\<close>

definition HANDLE_HASH_SIZE :: u32 where
  "HANDLE_HASH_SIZE = 33"

type_synonym node_ref = "string option"

record edge =
  edge_count :: u32
  edge_node1 :: node_ref
  edge_node2 :: node_ref

record node =
  self :: string
  arity :: u32
  count :: u32
  importance :: double
  stimuli_to_spread :: double
  neighbors :: "edge handle_trie"

record hebbian_network =
  largest_arity :: u32
  nodes :: "node handle_trie"
  tokens_to_distribute :: double

definition new_Edge :: edge where
  "new_Edge = \<lparr>edge_count = 1, edge_node1 = None, edge_node2 = None\<rparr>"

definition merge_edge :: "edge \<Rightarrow> edge \<Rightarrow> edge" where
  "merge_edge e other = e\<lparr>edge_count := edge_count e + edge_count other\<rparr>"

text \<open>The constructor of \<open>Node\<close>, for the object that will be owned by the leaf of \<open>handle\<close>.\<close>

definition new_Node :: "string \<Rightarrow> node result" where
  "new_Node handle =
     and_then (new_HandleTrie (HANDLE_HASH_SIZE - 1))
       (\<lambda>t. Inr \<lparr>self = handle, arity = 0, count = 1, importance = Fin 0,
               stimuli_to_spread = Fin 0, neighbors = t\<rparr>)"

definition merge_node :: "(rat \<Rightarrow> rat) \<Rightarrow> node \<Rightarrow> node \<Rightarrow> node" where
  "merge_node fl n other =
     n\<lparr>count := count n + count other, importance := dadd fl (importance n) (importance other)\<rparr>"

definition new_HebbianNetwork :: "hebbian_network result" where
  "new_HebbianNetwork =
     and_then (new_HandleTrie (HANDLE_HASH_SIZE - 1))
       (\<lambda>t. Inr \<lparr>largest_arity = 0, nodes = t, tokens_to_distribute = Fin 1\<rparr>)"

section \<open>Operations\<close>

definition add_node :: "(rat \<Rightarrow> rat) \<Rightarrow> string \<Rightarrow> hebbian_network \<Rightarrow> (hebbian_network \<times> node_ref) result" where
  "add_node fl handle net =
     and_then (new_Node handle) (\<lambda>n.
       and_then (trie_insert (merge_node fl) (nodes net) handle n)
         (\<lambda>(t, w). Inr (net\<lparr>nodes := t\<rparr>, Some (self w))))"

definition lookup_node :: "string \<Rightarrow> hebbian_network \<Rightarrow> node_ref result" where
  "lookup_node handle net =
     and_then (trie_lookup (nodes net) handle) (\<lambda>v. Inr (map_option self v))"

text \<open>The object behind a \<open>Node *\<close>.\<close>

definition deref :: "hebbian_network \<Rightarrow> node_ref \<Rightarrow> node result" where
  "deref net r =
     (case r of None \<Rightarrow> Inl Null_Dereference
      | Some h \<Rightarrow> (case trie_map (nodes net) h of None \<Rightarrow> Inl Null_Dereference | Some n \<Rightarrow> Inr n))"

definition store_node :: "node \<Rightarrow> hebbian_network \<Rightarrow> hebbian_network" where
  "store_node n net = net\<lparr>nodes := update_value (self n) (\<lambda>_. n) (nodes net)\<rparr>"

definition add_asymmetric_edge :: "string \<Rightarrow> string \<Rightarrow> node_ref \<Rightarrow> node_ref \<Rightarrow> hebbian_network
    \<Rightarrow> (hebbian_network \<times> edge) result" where
  "add_asymmetric_edge handle1 handle2 node1 node2 net =
     and_then (if node1 = None then lookup_node handle1 net else Inr node1) (\<lambda>node1.
     and_then (deref net node1) (\<lambda>n1.
     and_then (trie_insert merge_edge (neighbors n1) handle2 new_Edge) (\<lambda>(t, edge).
       if edge_count edge = 1
       then let edge' = edge\<lparr>edge_node1 := node1, edge_node2 := node2\<rparr>;
                n1' = n1\<lparr>neighbors := update_value handle2 (\<lambda>_. edge') t, arity := arity n1 + 1\<rparr>;
                net' = store_node n1' net
            in Inr (if arity n1' > largest_arity net' then net'\<lparr>largest_arity := arity n1'\<rparr> else net',
                    edge')
       else Inr (store_node (n1\<lparr>neighbors := t\<rparr>) net, edge))))"

definition add_symmetric_edge :: "string \<Rightarrow> string \<Rightarrow> node_ref \<Rightarrow> node_ref \<Rightarrow> hebbian_network
    \<Rightarrow> hebbian_network result" where
  "add_symmetric_edge handle1 handle2 node1 node2 net =
     and_then (add_asymmetric_edge handle1 handle2 node1 node2 net) (\<lambda>(net', _).
     and_then (add_asymmetric_edge handle2 handle1 node2 node1 net') (\<lambda>(net'', _). Inr net''))"

definition get_node_count :: "string \<Rightarrow> hebbian_network \<Rightarrow> u32 result" where
  "get_node_count handle net =
     and_then (trie_lookup (nodes net) handle)
       (\<lambda>v. Inr (case v of None \<Rightarrow> 0 | Some n \<Rightarrow> count n))"

definition get_node_importance :: "string \<Rightarrow> hebbian_network \<Rightarrow> double result" where
  "get_node_importance handle net =
     and_then (trie_lookup (nodes net) handle)
       (\<lambda>v. Inr (case v of None \<Rightarrow> Fin 0 | Some n \<Rightarrow> importance n))"

definition get_asymmetric_edge_count :: "string \<Rightarrow> string \<Rightarrow> hebbian_network \<Rightarrow> u32 result" where
  "get_asymmetric_edge_count handle1 handle2 net =
     and_then (trie_lookup (nodes net) handle1) (\<lambda>v.
       case v of None \<Rightarrow> Inr 0
       | Some source \<Rightarrow>
           and_then (trie_lookup (neighbors source) handle2)
             (\<lambda>e. Inr (case e of None \<Rightarrow> 0 | Some edge \<Rightarrow> edge_count edge)))"

definition alienate_tokens :: "hebbian_network \<Rightarrow> double \<times> hebbian_network" where
  "alienate_tokens net = (tokens_to_distribute net, net\<lparr>tokens_to_distribute := Fin 0\<rparr>)"

definition visit_nodes :: "(node trie_node \<Rightarrow> 's \<Rightarrow> (bool \<times> 's) result) \<Rightarrow> hebbian_network \<Rightarrow> 's \<Rightarrow> 's result" where
  "visit_nodes visit_function net s = trie_traverse visit_function (nodes net) s"

end
