(* ===== verification/Hebbian_Network_Correct.thy ===== *)
theory Hebbian_Network_Correct
  imports Hebbian_Network
begin

text \<open>
  The invariant of \<open>HebbianNetwork\<close>, the effect of its operations on the counters and the arities,
  and the properties of the network.
\<close>

section \<open>Observations and invariant\<close>

abbreviation valid_handle :: "string \<Rightarrow> bool" where
  "valid_handle h \<equiv> valid_key 32 hex_digits h"

abbreviation handles_ok :: "'v handle_trie \<Rightarrow> bool" where
  "handles_ok m \<equiv> handle_trie_ok 32 hex_digits m"

definition node_map :: "hebbian_network \<Rightarrow> string \<Rightarrow> node option" where
  "node_map net = trie_map (nodes net)"

definition edge_map :: "node \<Rightarrow> string \<Rightarrow> edge option" where
  "edge_map n = trie_map (neighbors n)"

definition node_count :: "hebbian_network \<Rightarrow> string \<Rightarrow> u32" where
  "node_count net h = (case node_map net h of None \<Rightarrow> 0 | Some n \<Rightarrow> count n)"

definition link_count :: "hebbian_network \<Rightarrow> string \<Rightarrow> string \<Rightarrow> u32" where
  "link_count net h1 h2 =
     (case node_map net h1 of None \<Rightarrow> 0
      | Some n \<Rightarrow> (case edge_map n h2 of None \<Rightarrow> 0 | Some e \<Rightarrow> edge_count e))"

text \<open>
  A node is stored under its own handle; an edge of the node \<open>h\<close> leads from \<open>h\<close> to the node of the
  handle it is stored under, which is in the network.
\<close>

definition edge_ok :: "hebbian_network \<Rightarrow> string \<Rightarrow> string \<Rightarrow> edge \<Rightarrow> bool" where
  "edge_ok net h h' e \<longleftrightarrow> edge_node1 e = Some h \<and> edge_node2 e = Some h' \<and> h' \<in> dom (node_map net)"

definition node_ok :: "hebbian_network \<Rightarrow> string \<Rightarrow> node \<Rightarrow> bool" where
  "node_ok net h n \<longleftrightarrow> self n = h \<and> handles_ok (neighbors n) \<and> arity n \<le> largest_arity net
     \<and> (\<forall>h' e. edge_map n h' = Some e \<longrightarrow> edge_ok net h h' e)"

definition network_ok :: "hebbian_network \<Rightarrow> bool" where
  "network_ok net \<longleftrightarrow> handles_ok (nodes net) \<and> (\<forall>h n. node_map net h = Some n \<longrightarrow> node_ok net h n)"

lemma node_map_update [simp]:
  "node_map (net\<lparr>largest_arity := a\<rparr>) = node_map net"
  "node_map (net\<lparr>tokens_to_distribute := t\<rparr>) = node_map net"
  "edge_map (n\<lparr>arity := a\<rparr>) = edge_map n"
  "edge_map (n\<lparr>count := c\<rparr>) = edge_map n"
  "edge_map (n\<lparr>importance := i\<rparr>) = edge_map n"
  "edge_map (n\<lparr>stimuli_to_spread := i\<rparr>) = edge_map n"
  by (simp_all add: node_map_def edge_map_def)

lemma HANDLE_HASH_SIZE_pred [simp]: "HANDLE_HASH_SIZE - 1 = 32"
  by (simp add: HANDLE_HASH_SIZE_def)

lemma new_handle_trie_ok:
  "\<exists>m :: 'v handle_trie. new_HandleTrie 32 = Inr m \<and> handles_ok m \<and> trie_map m = (\<lambda>_. None)"
  using new_HandleTrie_ok [of 32 hex_digits, where ?'a = 'v] inj_TLB_hex_digits by simp

text \<open>The other fields of a node do not depend on its edges: a node changed by an edge operation.\<close>

lemma new_Node_ok:
  "\<exists>n. new_Node h = Inr n \<and> self n = h \<and> arity n = 0 \<and> count n = 1 \<and> importance n = Fin 0
    \<and> stimuli_to_spread n = Fin 0 \<and> handles_ok (neighbors n) \<and> edge_map n = (\<lambda>_. None)"
  using new_handle_trie_ok [where ?'v = edge] by (auto simp: new_Node_def edge_map_def)

lemma new_HebbianNetwork_ok:
  "\<exists>net. new_HebbianNetwork = Inr net \<and> network_ok net \<and> node_map net = (\<lambda>_. None)
    \<and> largest_arity net = 0 \<and> tokens_to_distribute net = Fin 1"
  using new_handle_trie_ok [where ?'v = node]
  by (auto simp: new_HebbianNetwork_def network_ok_def node_map_def)

lemma lookup_node_ok:
  assumes "network_ok net" "valid_handle h"
  shows "lookup_node h net = Inr (if h \<in> dom (node_map net) then Some h else None)"
  using assms trie_lookup_ok [of 32 hex_digits "nodes net" h]
  by (auto simp: lookup_node_def network_ok_def node_ok_def node_map_def split: option.split)

lemma get_node_count_ok:
  assumes "network_ok net" "valid_handle h"
  shows "get_node_count h net = Inr (node_count net h)"
  using assms trie_lookup_ok [of 32 hex_digits "nodes net" h]
  by (simp add: get_node_count_def network_ok_def node_map_def node_count_def)

lemma get_asymmetric_edge_count_ok:
  assumes "network_ok net" "valid_handle h1" "valid_handle h2"
  shows "get_asymmetric_edge_count h1 h2 net = Inr (link_count net h1 h2)"
proof (cases "node_map net h1")
  case None
  then show ?thesis
    using assms trie_lookup_ok [of 32 hex_digits "nodes net" h1]
    by (simp add: get_asymmetric_edge_count_def network_ok_def node_map_def link_count_def)
next
  case (Some n)
  then have "handles_ok (neighbors n)" using assms(1) by (simp add: network_ok_def node_ok_def)
  with Some show ?thesis
    using assms trie_lookup_ok [of 32 hex_digits "nodes net" h1] trie_lookup_ok [of 32 hex_digits "neighbors n" h2]
    by (simp add: get_asymmetric_edge_count_def network_ok_def node_map_def edge_map_def link_count_def)
qed

section \<open>Adding a node\<close>

lemma node_ok_mono:
  assumes "node_ok net h n" "largest_arity net \<le> largest_arity net'" "dom (node_map net) \<subseteq> dom (node_map net')"
  shows "node_ok net' h n"
proof -
  have "arity n \<le> largest_arity net'" using assms(1,2) by (auto simp: node_ok_def)
  moreover have "edge_ok net' h h' e" if "edge_ok net h h' e" for h' e
    using that assms(3) by (auto simp: edge_ok_def)
  ultimately show ?thesis using assms(1) by (simp add: node_ok_def)
qed

lemma network_okI:
  assumes "handles_ok (nodes net')" and "node_map net' = (node_map net)(h \<mapsto> n)" and "node_ok net' h n"
    and "network_ok net" and "largest_arity net \<le> largest_arity net'"
  shows "network_ok net'"
proof -
  have "dom (node_map net) \<subseteq> dom (node_map net')" using assms(2) by auto
  then have "node_ok net' k m" if "node_map net k = Some m" for k m
    using that assms(4,5) node_ok_mono [of net k m net'] by (simp add: network_ok_def)
  then show ?thesis using assms(1-3) by (simp add: network_ok_def)
qed

lemma add_node_ok:
  assumes net: "network_ok net" and h: "valid_handle h"
  shows "\<exists>net' n. add_node fl h net = Inr (net', Some h) \<and> network_ok net'
    \<and> node_map net' = (node_map net)(h \<mapsto> n)
    \<and> largest_arity net' = largest_arity net \<and> tokens_to_distribute net' = tokens_to_distribute net
    \<and> count n = node_count net h + 1
    \<and> (case node_map net h of
         None \<Rightarrow> arity n = 0 \<and> importance n = Fin 0 \<and> edge_map n = (\<lambda>_. None)
       | Some old \<Rightarrow> n = old\<lparr>count := count old + 1, importance := dadd fl (importance old) (Fin 0)\<rparr>)"
proof -
  obtain n0 where n0: "new_Node h = Inr n0" "self n0 = h" "arity n0 = 0" "count n0 = 1"
    "importance n0 = Fin 0" "handles_ok (neighbors n0)" "edge_map n0 = (\<lambda>_. None)"
    using new_Node_ok [of h] by blast
  let ?n = "combined (merge_node fl) (node_map net h) n0"
  obtain t where t: "trie_insert (merge_node fl) (nodes net) h n0 = Inr (t, ?n)"
    "handles_ok t" "trie_map t = (node_map net)(h \<mapsto> ?n)"
    using trie_insert_ok [of 32 hex_digits "nodes net" h "merge_node fl" n0] net h
    by (auto simp: network_ok_def node_map_def)
  let ?net' = "net\<lparr>nodes := t\<rparr>"
  have m: "node_map ?net' = (node_map net)(h \<mapsto> ?n)" using t(3) by (simp add: node_map_def)
  have n_ok: "node_ok ?net' h ?n"
  proof (cases "node_map net h")
    case None
    then show ?thesis using n0 by (simp add: node_ok_def)
  next
    case (Some old)
    then have "node_ok net h old" using net by (simp add: network_ok_def)
    then have "node_ok ?net' h old" by (rule node_ok_mono) (simp, unfold m, auto)
    then show ?thesis using Some by (auto simp: node_ok_def edge_ok_def merge_node_def)
  qed
  have "network_ok ?net'"
    by (rule network_okI [OF _ m n_ok net]) (simp_all add: t(2))
  moreover have "self ?n = h" using n_ok by (simp add: node_ok_def)
  ultimately show ?thesis
    using t(1) m n0
    by (intro exI [of _ ?net'] exI [of _ ?n])
      (auto simp: add_node_def node_count_def merge_node_def split: option.split)
qed

section \<open>Adding an edge\<close>

lemma deref_ok: "deref net (Some h) = (case node_map net h of None \<Rightarrow> Inl Null_Dereference | Some n \<Rightarrow> Inr n)"
  by (simp add: deref_def node_map_def)

lemma store_node_ok:
  assumes "network_ok net" "node_map net (self n) \<noteq> None"
  shows "handles_ok (nodes (store_node n net))"
    and "node_map (store_node n net) = (node_map net)(self n \<mapsto> n)"
    and "largest_arity (store_node n net) = largest_arity net"
    and "tokens_to_distribute (store_node n net) = tokens_to_distribute net"
proof -
  have ok: "handles_ok (nodes net)" using assms(1) by (simp add: network_ok_def)
  show "handles_ok (nodes (store_node n net))"
    using update_value_ok(1) [OF ok] by (simp add: store_node_def)
  show "node_map (store_node n net) = (node_map net)(self n \<mapsto> n)"
    using update_value_ok(2) [OF ok] assms(2) by (auto simp: store_node_def node_map_def)
qed (simp_all add: store_node_def)

text \<open>
  The effect of an edge from \<open>h1\<close> to \<open>h2\<close>: the node \<open>h1\<close> gets the edge, with its counter
  increased, and its arity grows when the counter is 1 after the insertion.
\<close>

definition bumped_edge :: "string \<Rightarrow> string \<Rightarrow> edge option \<Rightarrow> edge" where
  "bumped_edge h1 h2 old = (case old of
      None \<Rightarrow> \<lparr>edge_count = 1, edge_node1 = Some h1, edge_node2 = Some h2\<rparr>
    | Some e \<Rightarrow> e\<lparr>edge_count := edge_count e + 1\<rparr>)"

lemma add_asymmetric_edge_ok:
  assumes net: "network_ok net" and h: "valid_handle h1" "valid_handle h2"
    and r: "node1 = None \<or> node1 = Some h1" and n1: "node_map net h1 = Some n1"
    and n2: "h2 \<in> dom (node_map net)"
  defines "e \<equiv> bumped_edge h1 h2 (edge_map n1 h2)"
  defines "a \<equiv> (if edge_count e = 1 then arity n1 + 1 else arity n1)"
  shows "\<exists>net' t. add_asymmetric_edge h1 h2 node1 (Some h2) net = Inr (net', e) \<and> network_ok net'
    \<and> node_map net' = (node_map net)(h1 \<mapsto> n1\<lparr>neighbors := t, arity := a\<rparr>)
    \<and> trie_map t = (edge_map n1)(h2 \<mapsto> e)
    \<and> largest_arity net' = max a (largest_arity net)
    \<and> tokens_to_distribute net' = tokens_to_distribute net"
proof -
  have n1_ok: "node_ok net h1 n1" using net n1 by (simp add: network_ok_def)
  then have nb: "handles_ok (neighbors n1)" and self: "self n1 = h1" and a_le: "arity n1 \<le> largest_arity net"
    and edges: "edge_map n1 h = Some e \<Longrightarrow> edge_ok net h1 h e" for h e
    by (auto simp: node_ok_def)
  have src: "and_then (if node1 = None then lookup_node h1 net else Inr node1) f = f (Some h1)"
    for f :: "node_ref \<Rightarrow> (hebbian_network \<times> edge) result"
    using r lookup_node_ok [OF net h(1)] n1 by auto
  let ?e = "combined merge_edge (edge_map n1 h2) new_Edge"
  obtain t where t: "trie_insert merge_edge (neighbors n1) h2 new_Edge = Inr (t, ?e)"
    "handles_ok t" "trie_map t = (edge_map n1)(h2 \<mapsto> ?e)"
    using trie_insert_ok [OF nb h(2), of merge_edge new_Edge] by (auto simp: edge_map_def)
  have cnt: "edge_count ?e = edge_count e"
    by (simp add: e_def bumped_edge_def new_Edge_def merge_edge_def split: option.split)
  define t' where "t' = (if edge_count ?e = 1 then update_value h2 (\<lambda>_. e) t else t)"
  have e1: "?e\<lparr>edge_node1 := Some h1, edge_node2 := Some h2\<rparr> = e"
    using edges [of h2] by (auto simp: e_def bumped_edge_def new_Edge_def merge_edge_def edge_ok_def
        split: option.split)
  have e2: "?e = e" if "edge_count ?e \<noteq> 1"
    using that by (cases "edge_map n1 h2") (auto simp: e_def bumped_edge_def new_Edge_def merge_edge_def)
  have t': "handles_ok t'" "trie_map t' = (edge_map n1)(h2 \<mapsto> e)"
    using update_value_ok(1,2) [OF t(2)] t(2,3) e2 by (auto simp: t'_def)
  let ?n = "n1\<lparr>neighbors := t', arity := a\<rparr>"
  let ?net = "store_node ?n net"
  have store: "handles_ok (nodes ?net)" "node_map ?net = (node_map net)(h1 \<mapsto> ?n)"
    "largest_arity ?net = largest_arity net" "tokens_to_distribute ?net = tokens_to_distribute net"
    using store_node_ok [OF net, of ?n] n1 self by simp_all
  let ?net' = "?net\<lparr>largest_arity := max a (largest_arity net)\<rparr>"
  have res: "add_asymmetric_edge h1 h2 node1 (Some h2) net = Inr (?net', e)"
  proof (cases "edge_count e = 1")
    case True
    then have a: "a = arity n1 + 1" and t'_eq: "t' = update_value h2 (\<lambda>_. e) t"
      using cnt by (simp_all add: a_def t'_def)
    have "add_asymmetric_edge h1 h2 node1 (Some h2) net
        = Inr (if a > largest_arity ?net then ?net\<lparr>largest_arity := a\<rparr> else ?net, e)"
      using True cnt n1 t(1) by (simp add: add_asymmetric_edge_def src deref_ok Let_def e1 a t'_eq)
    moreover have "(if a > largest_arity ?net then ?net\<lparr>largest_arity := a\<rparr> else ?net) = ?net'"
      using store(3) by (simp add: max_def not_less [symmetric])
    ultimately show ?thesis by simp
  next
    case False
    then have "a = arity n1" "t' = t" using cnt by (simp_all add: a_def t'_def)
    then have "?net' = store_node (n1\<lparr>neighbors := t\<rparr>) net"
      using a_le store(3) by (simp add: max_def)
    then show ?thesis
      using False cnt e2 n1 t(1) by (simp add: add_asymmetric_edge_def src deref_ok)
  qed
  have n_ok: "node_ok ?net' h1 ?n"
  proof -
    have "edge_ok ?net' h1 h e'" if "edge_map ?n h = Some e'" for h e'
    proof (cases "h = h2")
      case True
      with that t'(2) have "e' = e" by (simp add: edge_map_def)
      moreover have "edge_node1 e = Some h1" "edge_node2 e = Some h2"
        unfolding e1 [symmetric] by simp_all
      ultimately show ?thesis using True n2 store(2) by (simp add: edge_ok_def)
    next
      case False
      with that t'(2) have "edge_ok net h1 h e'" by (intro edges) (simp add: edge_map_def)
      with store(2) show ?thesis by (auto simp: edge_ok_def)
    qed
    then show ?thesis using self t'(1) by (simp add: node_ok_def)
  qed
  have "network_ok ?net'"
    by (rule network_okI [OF _ _ n_ok net]) (simp_all add: store)
  with res store t'(2) show ?thesis by (intro exI [of _ ?net'] exI [of _ t']) simp
qed

text \<open>The counters after an edge operation, and what it leaves as it was.\<close>

definition same_nodes :: "hebbian_network \<Rightarrow> hebbian_network \<Rightarrow> bool" where
  "same_nodes net net' \<longleftrightarrow> dom (node_map net') = dom (node_map net)
     \<and> (\<forall>h. map_option (\<lambda>n. (count n, importance n, stimuli_to_spread n)) (node_map net' h)
           = map_option (\<lambda>n. (count n, importance n, stimuli_to_spread n)) (node_map net h))
     \<and> tokens_to_distribute net' = tokens_to_distribute net"

lemma same_nodes_trans: "same_nodes a b \<Longrightarrow> same_nodes b c \<Longrightarrow> same_nodes a c"
  by (simp add: same_nodes_def)

lemma same_nodes_refl [simp]: "same_nodes a a"
  by (simp add: same_nodes_def)

lemma same_nodes_count:
  assumes "same_nodes net net'" shows "node_count net' h = node_count net h"
proof -
  have fst_trip: "map_option fst (map_option (\<lambda>n. (count n, importance n, stimuli_to_spread n)) v)
      = map_option count v" for v :: "node option"
    by (cases v) simp_all
  have "map_option count (node_map net' h) = map_option count (node_map net h)"
    unfolding fst_trip [symmetric] by (rule arg_cong) (use assms in \<open>simp add: same_nodes_def\<close>)
  then show ?thesis by (auto simp: node_count_def split: option.splits)
qed

definition hit :: "bool \<Rightarrow> u32" where
  "hit b = (if b then 1 else 0)"

lemma asymmetric_edge_counts:
  assumes net: "network_ok net" and h: "valid_handle h1" "valid_handle h2"
    and r: "node1 = None \<or> node1 = Some h1" and d: "h1 \<in> dom (node_map net)" "h2 \<in> dom (node_map net)"
  shows "\<exists>net' e. add_asymmetric_edge h1 h2 node1 (Some h2) net = Inr (net', e) \<and> network_ok net'
    \<and> same_nodes net net' \<and> edge_count e = link_count net' h1 h2
    \<and> (\<forall>x y. link_count net' x y = link_count net x y + hit (x = h1 \<and> y = h2))"
proof -
  obtain n1 where n1: "node_map net h1 = Some n1" using d(1) by blast
  define e where "e = bumped_edge h1 h2 (edge_map n1 h2)"
  obtain net' t a where res: "add_asymmetric_edge h1 h2 node1 (Some h2) net = Inr (net', e)" "network_ok net'"
    "node_map net' = (node_map net)(h1 \<mapsto> n1\<lparr>neighbors := t, arity := a\<rparr>)"
    "trie_map t = (edge_map n1)(h2 \<mapsto> e)" "tokens_to_distribute net' = tokens_to_distribute net"
    using add_asymmetric_edge_ok [OF net h r n1 d(2)] unfolding e_def by blast
  have "same_nodes net net'" using res(3,5) n1 by (auto simp: same_nodes_def)
  moreover have "link_count net' x y = link_count net x y + hit (x = h1 \<and> y = h2)" for x y
  proof (cases "x = h1 \<and> y = h2")
    case True
    then show ?thesis
      using n1 res(3,4)
      by (cases "edge_map n1 h2") (auto simp: link_count_def e_def bumped_edge_def edge_map_def hit_def)
  next
    case False
    then show ?thesis using n1 res(3,4) by (auto simp: link_count_def edge_map_def hit_def)
  qed
  moreover have "edge_count e = link_count net' h1 h2"
    using n1 res(3,4) by (simp add: link_count_def edge_map_def)
  ultimately show ?thesis using res(1,2) by blast
qed

lemma symmetric_edge_counts:
  assumes net: "network_ok net" and h: "valid_handle h1" "valid_handle h2"
    and d: "h1 \<in> dom (node_map net)" "h2 \<in> dom (node_map net)"
  shows "\<exists>net'. add_symmetric_edge h1 h2 (Some h1) (Some h2) net = Inr net' \<and> network_ok net'
    \<and> same_nodes net net'
    \<and> (\<forall>x y. link_count net' x y
          = link_count net x y + hit (x = h1 \<and> y = h2) + hit (x = h2 \<and> y = h1))"
proof -
  obtain net1 e1 where 1: "add_asymmetric_edge h1 h2 (Some h1) (Some h2) net = Inr (net1, e1)"
    "network_ok net1" "same_nodes net net1"
    "\<forall>x y. link_count net1 x y = link_count net x y + hit (x = h1 \<and> y = h2)"
    using asymmetric_edge_counts [OF net h _ d, of "Some h1"] by blast
  have d1: "h1 \<in> dom (node_map net1)" "h2 \<in> dom (node_map net1)"
    using d 1(3) by (auto simp: same_nodes_def)
  obtain net2 e2 where 2: "add_asymmetric_edge h2 h1 (Some h2) (Some h1) net1 = Inr (net2, e2)"
    "network_ok net2" "same_nodes net1 net2"
    "\<forall>x y. link_count net2 x y = link_count net1 x y + hit (x = h2 \<and> y = h1)"
    using asymmetric_edge_counts [OF 1(2) h(2,1) _ d1(2,1), of "Some h2"] by blast
  show ?thesis
    using 1 2 same_nodes_trans [OF 1(3) 2(3)] by (auto simp: add_symmetric_edge_def)
qed

section \<open>Arities\<close>

text \<open>
  The arity of a node is the number of its neighbours, at 32 bits, and \<open>largest_arity\<close> is the
  arity of some node (that no node has a larger one is part of \<open>network_ok\<close>).
\<close>

definition arities_ok :: "hebbian_network \<Rightarrow> bool" where
  "arities_ok net \<longleftrightarrow>
     (\<forall>h n. node_map net h = Some n \<longrightarrow> arity n = of_nat (card (dom (edge_map n))))
     \<and> (largest_arity net = 0 \<or> (\<exists>h n. node_map net h = Some n \<and> arity n = largest_arity net))"

lemma finite_dom_edge_map [simp]: "finite (dom (edge_map n))"
  by (simp add: edge_map_def trie_map_def finite_dom_map_of)

lemma less_succ: "(a::u32) \<noteq> - 1 \<Longrightarrow> a < a + 1"
  using inc_less_eq_triv_imp [of a] by (auto simp: not_le [symmetric])

lemma bumped_edge_arity:
  assumes "edge_count (bumped_edge h1 h2 old) = 1 \<longleftrightarrow> old = None" and "old = m h2"
    and "a = of_nat (card (dom m))" and "finite (dom m)"
  shows "(if edge_count (bumped_edge h1 h2 old) = 1 then a + 1 else a)
    = (of_nat (card (dom (m(h2 \<mapsto> e)))) :: u32)"
proof (cases "m h2")
  case None
  then have "h2 \<notin> dom m" by auto
  then show ?thesis using assms None by (simp add: card_insert_if add.commute)
next
  case (Some e')
  then have "insert h2 (dom m) = dom m" by auto
  then show ?thesis using assms Some by simp
qed

lemma asymmetric_edge_arities:
  assumes net: "network_ok net" "arities_ok net" and h: "valid_handle h1" "valid_handle h2"
    and r: "node1 = None \<or> node1 = Some h1" and n1: "node_map net h1 = Some n1"
    and n2: "h2 \<in> dom (node_map net)"
    and no_wrap: "\<And>e. edge_map n1 h2 = Some e \<Longrightarrow> edge_count e \<noteq> 0" "arity n1 \<noteq> - 1"
  shows "\<exists>net' e. add_asymmetric_edge h1 h2 node1 (Some h2) net = Inr (net', e) \<and> arities_ok net'"
proof -
  let ?e = "bumped_edge h1 h2 (edge_map n1 h2)"
  let ?a = "if edge_count ?e = 1 then arity n1 + 1 else arity n1"
  obtain net' t where res: "add_asymmetric_edge h1 h2 node1 (Some h2) net = Inr (net', ?e)"
    "node_map net' = (node_map net)(h1 \<mapsto> n1\<lparr>neighbors := t, arity := ?a\<rparr>)"
    "trie_map t = (edge_map n1)(h2 \<mapsto> ?e)" "largest_arity net' = max ?a (largest_arity net)"
    using add_asymmetric_edge_ok [OF net(1) h r n1 n2] by blast
  have ar: "node_map net h = Some n \<Longrightarrow> arity n = of_nat (card (dom (edge_map n)))" for h n
    using net(2) by (simp add: arities_ok_def)
  have "edge_count ?e = 1 \<longleftrightarrow> edge_map n1 h2 = None"
    using no_wrap(1) by (auto simp: bumped_edge_def split: option.split)
  then have a: "?a = of_nat (card (dom ((edge_map n1)(h2 \<mapsto> ?e))))"
    by (rule bumped_edge_arity) (simp_all add: ar [OF n1])
  have grows: "arity n1 \<le> ?a" using less_succ [OF no_wrap(2)] by auto
  have le: "node_map net h = Some n \<Longrightarrow> arity n \<le> largest_arity net" for h n
    using net(1) by (simp add: network_ok_def node_ok_def)
  have "largest_arity net' = 0 \<or> (\<exists>h n. node_map net' h = Some n \<and> arity n = largest_arity net')"
  proof (cases "largest_arity net \<le> ?a")
    case True
    then have "arity (n1\<lparr>neighbors := t, arity := ?a\<rparr>) = largest_arity net'"
      using res(4) by (simp add: max_def)
    with res(2) show ?thesis by (metis fun_upd_same)
  next
    case False
    then have eq: "largest_arity net' = largest_arity net"
      unfolding res(4) by (intro max.absorb2) (rule less_imp_le, simp only: not_le)
    have "largest_arity net \<noteq> 0" using False by auto
    then obtain h n where hn: "node_map net h = Some n" "arity n = largest_arity net"
      using net(2) by (auto simp: arities_ok_def)
    have "h \<noteq> h1" using hn n1 False grows by auto
    then show ?thesis using res(2) hn eq by (metis fun_upd_other)
  qed
  moreover have "node_map net' h = Some n \<Longrightarrow> arity n = of_nat (card (dom (edge_map n)))" for h n
    using ar a res(2,3) by (auto simp: edge_map_def split: if_splits)
  ultimately show ?thesis using res(1) by (auto simp: arities_ok_def)
qed

section \<open>A network for the witnesses\<close>

definition handle_of :: "char \<Rightarrow> string" where
  "handle_of c = replicate 32 c"

lemma valid_handle_of [simp]: "c \<in> hex_digits \<Longrightarrow> valid_handle (handle_of c)"
  by (simp add: valid_key_def handle_of_def)

lemma handle_of_eq [simp]: "handle_of c = handle_of d \<longleftrightarrow> c = d"
  by (simp add: handle_of_def)

lemma hex_digit_simps [simp]: "CHR ''a'' \<in> hex_digits" "CHR ''b'' \<in> hex_digits" "CHR ''c'' \<in> hex_digits"
  by (simp_all add: hex_digits_def)

text \<open>A new network after the additions of the nodes \<open>a\<close> and \<open>b\<close>.\<close>

definition two_nodes :: "hebbian_network result" where
  "two_nodes =
     and_then new_HebbianNetwork (\<lambda>net.
       and_then (add_node id (handle_of CHR ''a'') net) (\<lambda>(net, _).
         and_then (add_node id (handle_of CHR ''b'') net) (\<lambda>(net, _). Inr net)))"

lemma two_nodes_ok:
  "\<exists>net. two_nodes = Inr net \<and> network_ok net \<and> arities_ok net
    \<and> dom (node_map net) = {handle_of CHR ''a'', handle_of CHR ''b''}
    \<and> (\<forall>h n. node_map net h = Some n \<longrightarrow> arity n = 0 \<and> edge_map n = (\<lambda>_. None)) \<and> largest_arity net = 0
    \<and> node_count net (handle_of CHR ''a'') = 1 \<and> node_count net (handle_of CHR ''b'') = 1
    \<and> (\<forall>h n. node_map net h = Some n \<longrightarrow> count n = 1 \<and> importance n = Fin 0)
    \<and> tokens_to_distribute net = Fin 1"
proof -
  obtain n0 where 0: "new_HebbianNetwork = Inr n0" "network_ok n0" "node_map n0 = (\<lambda>_. None)" "largest_arity n0 = 0"
    "tokens_to_distribute n0 = Fin 1"
    using new_HebbianNetwork_ok by blast
  obtain n1 a where 1: "add_node id (handle_of CHR ''a'') n0 = Inr (n1, Some (handle_of CHR ''a''))"
    "network_ok n1" "node_map n1 = (node_map n0)(handle_of CHR ''a'' \<mapsto> a)" "largest_arity n1 = 0"
    "count a = 1" "arity a = 0" "edge_map a = (\<lambda>_. None)" "importance a = Fin 0"
    "tokens_to_distribute n1 = Fin 1"
    using add_node_ok [OF 0(2), of "handle_of CHR ''a''" id] 0(3-5) by (auto simp: node_count_def)
  obtain n2 b where 2: "add_node id (handle_of CHR ''b'') n1 = Inr (n2, Some (handle_of CHR ''b''))"
    "network_ok n2" "node_map n2 = (node_map n1)(handle_of CHR ''b'' \<mapsto> b)" "largest_arity n2 = 0"
    "count b = 1" "arity b = 0" "edge_map b = (\<lambda>_. None)" "importance b = Fin 0"
    "tokens_to_distribute n2 = Fin 1"
    using add_node_ok [OF 1(2), of "handle_of CHR ''b''" id] 0(3) 1(3,4,9) by (auto simp: node_count_def)
  have "two_nodes = Inr n2" by (simp add: two_nodes_def 0(1) 1(1) 2(1))
  moreover have "arities_ok n2" using 0(3) 1 2 by (auto simp: arities_ok_def)
  ultimately show ?thesis using 0(3) 1 2 by (intro exI [of _ n2]) (auto simp: node_count_def)
qed

text \<open>The same network after a symmetric edge between its nodes.\<close>

definition linked_nodes :: "hebbian_network result" where
  "linked_nodes =
     and_then two_nodes (add_symmetric_edge (handle_of CHR ''a'') (handle_of CHR ''b'')
       (Some (handle_of CHR ''a'')) (Some (handle_of CHR ''b'')))"

lemma linked_nodes_ok:
  "\<exists>net na nb. linked_nodes = Inr net \<and> network_ok net \<and> largest_arity net = 1
    \<and> node_map net = [handle_of CHR ''a'' \<mapsto> na, handle_of CHR ''b'' \<mapsto> nb]
    \<and> dom (edge_map na) = {handle_of CHR ''b''} \<and> dom (edge_map nb) = {handle_of CHR ''a''}
    \<and> link_count net (handle_of CHR ''a'') (handle_of CHR ''b'') = 1
    \<and> link_count net (handle_of CHR ''b'') (handle_of CHR ''a'') = 1
    \<and> count na = 1 \<and> count nb = 1 \<and> arity na = 1 \<and> arity nb = 1
    \<and> importance na = Fin 0 \<and> importance nb = Fin 0 \<and> tokens_to_distribute net = Fin 1"
proof -
  let ?a = "handle_of CHR ''a''" and ?b = "handle_of CHR ''b''"
  obtain n0 where 0: "two_nodes = Inr n0" "network_ok n0" "dom (node_map n0) = {?a, ?b}"
    "\<forall>h n. node_map n0 h = Some n \<longrightarrow> arity n = 0 \<and> edge_map n = (\<lambda>_. None)" "largest_arity n0 = 0"
    "\<forall>h n. node_map n0 h = Some n \<longrightarrow> count n = 1 \<and> importance n = Fin 0" "tokens_to_distribute n0 = Fin 1"
    using two_nodes_ok by blast
  obtain na nb where ab: "node_map n0 ?a = Some na" "node_map n0 ?b = Some nb"
    using 0(3) by blast
  have m0: "node_map n0 = [?a \<mapsto> na, ?b \<mapsto> nb]"
  proof
    fix h show "node_map n0 h = [?a \<mapsto> na, ?b \<mapsto> nb] h"
      using ab 0(3) by (cases "h = ?a \<or> h = ?b") auto
  qed
  note fields = 0(4) [rule_format, OF ab(1)] 0(4) [rule_format, OF ab(2)]
    0(6) [rule_format, OF ab(1)] 0(6) [rule_format, OF ab(2)]
  obtain n1 ta e1 where 1: "add_asymmetric_edge ?a ?b (Some ?a) (Some ?b) n0 = Inr (n1, e1)" "network_ok n1"
    "node_map n1 = (node_map n0)(?a \<mapsto> na\<lparr>neighbors := ta, arity := 1\<rparr>)"
    "trie_map ta = [?b \<mapsto> e1]" "edge_count e1 = 1" "largest_arity n1 = 1" "tokens_to_distribute n1 = Fin 1"
    using add_asymmetric_edge_ok [OF 0(2) _ _ _ ab(1) domI [of "node_map n0", OF ab(2)], of "Some ?a"] fields 0(5,7)
    by (auto simp: bumped_edge_def max_def)
  have b1: "node_map n1 ?b = Some nb" using 1(3) ab(2) by simp
  have a1: "?a \<in> dom (node_map n1)" using 1(3) by simp
  obtain n2 tb e2 where 2: "add_asymmetric_edge ?b ?a (Some ?b) (Some ?a) n1 = Inr (n2, e2)" "network_ok n2"
    "node_map n2 = (node_map n1)(?b \<mapsto> nb\<lparr>neighbors := tb, arity := 1\<rparr>)"
    "trie_map tb = [?a \<mapsto> e2]" "edge_count e2 = 1" "largest_arity n2 = 1" "tokens_to_distribute n2 = Fin 1"
    using add_asymmetric_edge_ok [OF 1(2) _ _ _ b1 a1, of "Some ?b"] 1(6,7) fields
    by (auto simp: bumped_edge_def max_def)
  let ?na = "na\<lparr>neighbors := ta, arity := 1\<rparr>" and ?nb = "nb\<lparr>neighbors := tb, arity := 1\<rparr>"
  have "linked_nodes = Inr n2"
    by (simp add: linked_nodes_def 0(1) add_symmetric_edge_def 1(1) 2(1))
  moreover have m2: "node_map n2 = [?a \<mapsto> ?na, ?b \<mapsto> ?nb]" using 2(3) 1(3) m0 by simp
  moreover have "edge_map ?na = [?b \<mapsto> e1]" "edge_map ?nb = [?a \<mapsto> e2]"
    using 1(4) 2(4) by (simp_all add: edge_map_def)
  moreover have "link_count n2 ?a ?b = 1" "link_count n2 ?b ?a = 1"
    using calculation(2-4) 1(5) 2(5) by (simp_all add: link_count_def)
  ultimately show ?thesis
    using 2(2,6,7) fields by (intro exI [of _ n2] exI [of _ ?na] exI [of _ ?nb]) simp
qed

section \<open>Properties\<close>



text \<open>
  C26. \<open>add_symmetric_edge\<close> on two nodes of the network adds 1 to the count of the edge in each
  direction (2 to a self-edge) and to no other edge; the counts of the nodes stay, and so do their
  importance and the tokens of the network.
\<close>

theorem add_symmetric_edge_counts:
  assumes "network_ok net" and "valid_handle h1" and "valid_handle h2"
    and "h1 \<in> dom (node_map net)" and "h2 \<in> dom (node_map net)" and "valid_handle x" and "valid_handle y"
  shows "\<exists>net'. add_symmetric_edge h1 h2 (Some h1) (Some h2) net = Inr net' \<and> network_ok net'
    \<and> get_asymmetric_edge_count x y net'
        = Inr (link_count net x y + hit (x = h1 \<and> y = h2) + hit (x = h2 \<and> y = h1))
    \<and> same_nodes net net'"
proof -
  obtain net' where "add_symmetric_edge h1 h2 (Some h1) (Some h2) net = Inr net'" "network_ok net'"
    "same_nodes net net'"
    "link_count net' x y = link_count net x y + hit (x = h1 \<and> y = h2) + hit (x = h2 \<and> y = h1)"
    using symmetric_edge_counts [OF assms(1-5)] by blast
  with assms(6,7) show ?thesis by (auto simp: get_asymmetric_edge_count_ok)
qed

theorem add_symmetric_edge_counts_witness:
  "\<exists>net net'. two_nodes = Inr net
    \<and> add_symmetric_edge (handle_of CHR ''a'') (handle_of CHR ''b'') (Some (handle_of CHR ''a''))
        (Some (handle_of CHR ''b'')) net = Inr net'
    \<and> get_asymmetric_edge_count (handle_of CHR ''b'') (handle_of CHR ''a'') net' = Inr 1"
proof -
  obtain net where "two_nodes = Inr net" "network_ok net"
    "dom (node_map net) = {handle_of CHR ''a'', handle_of CHR ''b''}"
    "link_count net (handle_of CHR ''b'') (handle_of CHR ''a'') = 0"
    using two_nodes_ok by (fastforce simp: link_count_def split: option.split)
  then show ?thesis
    using add_symmetric_edge_counts [of net "handle_of CHR ''a''" "handle_of CHR ''b''"
        "handle_of CHR ''b''" "handle_of CHR ''a''"]
    by (auto simp: hit_def)
qed



text \<open>
  An edge from a handle that is no node of the network: \<open>add_asymmetric_edge\<close> dereferences the
  NULL that the lookup returned.
\<close>

theorem edge_from_unknown_node:
  assumes "network_ok net" and "valid_handle h1" and "h1 \<notin> dom (node_map net)"
  shows "add_asymmetric_edge h1 h2 None node2 net = Inl Null_Dereference
    \<and> add_symmetric_edge h1 h2 None node2 net = Inl Null_Dereference"
  using lookup_node_ok [OF assms(1,2)] assms(3)
  by (simp add: add_asymmetric_edge_def add_symmetric_edge_def deref_def)

theorem edge_from_unknown_node_witness:
  "\<exists>net. two_nodes = Inr net \<and> add_symmetric_edge (handle_of CHR ''c'') (handle_of CHR ''a'') None None net
    = Inl Null_Dereference"
proof -
  obtain net where "two_nodes = Inr net" "network_ok net"
    "dom (node_map net) = {handle_of CHR ''a'', handle_of CHR ''b''}"
    using two_nodes_ok by blast
  then show ?thesis
    using edge_from_unknown_node [of net "handle_of CHR ''c''" "handle_of CHR ''a''" None] by auto
qed

end
