(* ===== verification/Counting_Loop.thy ===== *)
theory Counting_Loop
  imports Prelude
begin

text \<open>
  The contract of a loop body that counts: it never fails on valid items, keeps its invariant, and
  adds to each counter an amount that depends on the item only. The loops of the Hebbian updater and
  the processing of a sequence of requests are of this kind; the loop then adds the sum.
\<close>

locale counting_loop =
  fixes step :: "'a \<Rightarrow> 's \<Rightarrow> 's result"
    and ok :: "'s \<Rightarrow> bool"
    and valid :: "'a \<Rightarrow> bool"
    and counter :: "'s \<Rightarrow> 'c \<Rightarrow> 'w::comm_monoid_add"
    and weight :: "'a \<Rightarrow> 'c \<Rightarrow> 'w"
  assumes step_law: "ok s \<Longrightarrow> valid a \<Longrightarrow>
    \<exists>s'. step a s = Inr s' \<and> ok s' \<and> (\<forall>c. counter s' c = counter s c + weight a c)"
begin

lemma for_each_counts:
  assumes "ok s" and "\<forall>a\<in>set xs. valid a"
  shows "\<exists>s'. for_each step xs s = Inr s' \<and> ok s'
    \<and> (\<forall>c. counter s' c = counter s c + (\<Sum>a\<leftarrow>xs. weight a c))"
  using assms
proof (induction xs arbitrary: s)
  case Nil
  then show ?case by simp
next
  case (Cons x xs)
  obtain s1 where 1: "step x s = Inr s1" "ok s1" "\<forall>c. counter s1 c = counter s c + weight x c"
    using step_law Cons.prems by (meson list.set_intros(1))
  obtain s2 where 2: "for_each step xs s1 = Inr s2" "ok s2"
    "\<forall>c. counter s2 c = counter s1 c + (\<Sum>a\<leftarrow>xs. weight a c)"
    using Cons.IH [OF 1(2)] Cons.prems(2) by auto
  show ?case
    by (rule exI [of _ s2]) (simp add: 1 2 add.assoc)
qed

end

end
