(* ===== verification/Hebbian_Updater.thy ===== *)
theory Hebbian_Updater
  imports Hebbian_Network_Correct Counting_Loop
begin

text \<open>
  \<open>attention_broker_server/HebbianNetworkUpdater\<close>: the processing of a \<open>correlate\<close> request, the
  list of the handles that appeared in one query answer.
\<close>

section \<open>Factory\<close>

text \<open>The enumerator \<open>EXACT_COUNT\<close> is 0; a value of the enum type is an \<open>int\<close>.\<close>

datatype hebbian_updater = ExactCountHebbianUpdater

definition EXACT_COUNT :: int where
  "EXACT_COUNT = 0"

definition updater_factory :: "int \<Rightarrow> hebbian_updater result" where
  "updater_factory instance_type =
     (if instance_type = EXACT_COUNT then Inr ExactCountHebbianUpdater
      else Inl (Runtime_Error (''Invalid HebbianNetworkUpdaterType: '' @ dec_int instance_type)))"

section \<open>Correlation\<close>

definition add_nodes :: "(rat \<Rightarrow> rat) \<Rightarrow> string list \<Rightarrow> hebbian_network \<Rightarrow> hebbian_network result" where
  "add_nodes fl = for_each (\<lambda>s network. and_then (add_node fl s network) (\<lambda>(network', _). Inr network'))"

definition correlate_pair :: "string \<Rightarrow> node_ref \<Rightarrow> string \<Rightarrow> hebbian_network \<Rightarrow> hebbian_network result" where
  "correlate_pair s1 node1 s2 network =
     (if string_less s1 s2
      then and_then (lookup_node s2 network) (\<lambda>node2. add_symmetric_edge s1 s2 node1 node2 network)
      else Inr network)"

definition correlate_handle :: "string list \<Rightarrow> string \<Rightarrow> hebbian_network \<Rightarrow> hebbian_network result" where
  "correlate_handle handle_list s1 network =
     and_then (lookup_node s1 network) (\<lambda>node1. for_each (correlate_pair s1 node1) handle_list network)"

text \<open>
  A request is the list of its handles and the network its pointer leads to, \<open>None\<close> for NULL; the
  result is the network after the request.
\<close>

definition correlation :: "(rat \<Rightarrow> rat) \<Rightarrow> string list \<Rightarrow> hebbian_network option
    \<Rightarrow> hebbian_network option result" where
  "correlation fl handle_list network =
     (case network of None \<Rightarrow> Inr None
      | Some network \<Rightarrow>
          and_then (add_nodes fl handle_list network) (\<lambda>network.
            and_then (for_each (correlate_handle handle_list) handle_list network) (\<lambda>network.
              Inr (Some network))))"

section \<open>The counters of the network\<close>

datatype counter_id = Nodes string | Links string string

fun counter :: "hebbian_network \<Rightarrow> counter_id \<Rightarrow> u32" where
  "counter net (Nodes h) = node_count net h"
| "counter net (Links x y) = link_count net x y"

fun node_weight :: "string \<Rightarrow> counter_id \<Rightarrow> u32" where
  "node_weight s (Nodes h) = hit (s = h)"
| "node_weight s (Links x y) = 0"

fun pair_weight :: "string \<Rightarrow> string \<Rightarrow> counter_id \<Rightarrow> u32" where
  "pair_weight s1 s2 (Nodes h) = 0"
| "pair_weight s1 s2 (Links x y) =
     hit (s1 = x \<and> s2 = y \<and> string_less x y) + hit (s2 = x \<and> s1 = y \<and> string_less y x)"

text \<open>What one request adds to a counter.\<close>

fun request_weight :: "string list \<Rightarrow> counter_id \<Rightarrow> u32" where
  "request_weight hs (Nodes h) = of_nat (count_list hs h)"
| "request_weight hs (Links x y) =
     (if x = y then 0 else of_nat (count_list hs x * count_list hs y))"

lemma sum_hit_eq:
  "(\<Sum>s\<leftarrow>hs. hit (s = h \<and> b)) = (if b then of_nat (count_list hs h) else 0)"
  by (induction hs) (auto simp: hit_def)

lemma sum_pair_hit:
  "(\<Sum>s1\<leftarrow>hs. \<Sum>s2\<leftarrow>hs'. hit (s1 = x \<and> s2 = y \<and> b))
    = (if b then of_nat (count_list hs x * count_list hs' y) else 0)"
proof -
  have "(\<Sum>s2\<leftarrow>hs'. hit (s1 = x \<and> s2 = y \<and> b)) = (if s1 = x \<and> b then of_nat (count_list hs' y) else 0)" for s1
    using sum_hit_eq [of y "s1 = x \<and> b" hs'] by (simp add: conj_left_commute)
  then have "(\<Sum>s1\<leftarrow>hs. \<Sum>s2\<leftarrow>hs'. hit (s1 = x \<and> s2 = y \<and> b))
      = (\<Sum>s1\<leftarrow>hs. if s1 = x \<and> b then of_nat (count_list hs' y) else 0)" by simp
  also have "\<dots> = (if b then of_nat (count_list hs x * count_list hs' y) else 0)"
    by (induction hs) (auto simp: algebra_simps)
  finally show ?thesis .
qed

lemma pair_weight_less:
  assumes "string_less s1 s2"
  shows "pair_weight s1 s2 (Links x y) = hit (x = s1 \<and> y = s2) + hit (x = s2 \<and> y = s1)"
proof -
  have "(s1 = x \<and> s2 = y \<and> string_less x y) \<longleftrightarrow> (x = s1 \<and> y = s2)"
    "(s2 = x \<and> s1 = y \<and> string_less y x) \<longleftrightarrow> (x = s2 \<and> y = s1)"
    using assms by blast+
  then show ?thesis by (simp only: pair_weight.simps)
qed

lemma pair_weight_not_less:
  assumes "\<not> string_less s1 s2" shows "pair_weight s1 s2 c = 0"
proof (cases c)
  case (Links x y)
  have "(s1 = x \<and> s2 = y \<and> string_less x y) \<longleftrightarrow> False"
    "(s2 = x \<and> s1 = y \<and> string_less y x) \<longleftrightarrow> False"
    using assms by blast+
  then show ?thesis unfolding Links pair_weight.simps by (simp only: hit_def if_False add_0_left)
qed simp

lemma sum_pair_weight:
  "(\<Sum>s1\<leftarrow>hs. \<Sum>s2\<leftarrow>hs. pair_weight s1 s2 (Links x y)) = request_weight hs (Links x y)"
proof -
  have swap: "hit (s2 = x \<and> s1 = y \<and> b) = hit (s1 = y \<and> s2 = x \<and> b)" for s1 s2 b
    by (simp add: conj_left_commute)
  have "(\<Sum>s1\<leftarrow>hs. \<Sum>s2\<leftarrow>hs. pair_weight s1 s2 (Links x y)) =
      (\<Sum>s1\<leftarrow>hs. \<Sum>s2\<leftarrow>hs. hit (s1 = x \<and> s2 = y \<and> string_less x y))
      + (\<Sum>s1\<leftarrow>hs. \<Sum>s2\<leftarrow>hs. hit (s1 = y \<and> s2 = x \<and> string_less y x))"
    by (simp add: sum_list_addf swap)
  then show ?thesis
    using string_less_total [of x y] string_less_asym [of x y]
    by (auto simp: sum_pair_hit mult.commute)
qed

section \<open>The loops count\<close>

definition knows :: "string list \<Rightarrow> hebbian_network \<Rightarrow> bool" where
  "knows hs net \<longleftrightarrow> network_ok net \<and> set hs \<subseteq> dom (node_map net) \<and> (\<forall>h\<in>set hs. valid_handle h)"

interpretation add_nodes_loop: counting_loop
  "\<lambda>s net. and_then (add_node fl s net) (\<lambda>(net', _). Inr net')" "knows hs" valid_handle counter node_weight
  for fl hs
proof
  fix net s assume *: "knows hs net" "valid_handle s"
  then obtain net' n where r: "add_node fl s net = Inr (net', Some s)" "network_ok net'"
    "node_map net' = (node_map net)(s \<mapsto> n)" "count n = node_count net s + 1"
    "case node_map net s of None \<Rightarrow> edge_map n = (\<lambda>_. None)
      | Some old \<Rightarrow> n = old\<lparr>count := count old + 1, importance := dadd fl (importance old) (Fin 0)\<rparr>"
    using add_node_ok [of net s fl] by (auto simp: knows_def split: option.splits)
  have "counter net' c = counter net c + node_weight s c" for c
    using r(3-5) by (cases c) (auto simp: node_count_def link_count_def hit_def split: option.splits)
  with r * show "\<exists>net'. and_then (add_node fl s net) (\<lambda>(net', _). Inr net') = Inr net' \<and> knows hs net'
      \<and> (\<forall>c. counter net' c = counter net c + node_weight s c)"
    by (auto simp: knows_def)
qed

interpretation inner_loop: counting_loop
  "correlate_pair s1 (Some s1)" "knows (s1 # hs)" "\<lambda>s2. s2 \<in> set hs" counter "pair_weight s1"
  for s1 hs
proof
  fix net s2 assume *: "knows (s1 # hs) net" "s2 \<in> set hs"
  show "\<exists>net'. correlate_pair s1 (Some s1) s2 net = Inr net' \<and> knows (s1 # hs) net'
      \<and> (\<forall>c. counter net' c = counter net c + pair_weight s1 s2 c)"
  proof (cases "string_less s1 s2")
    case True
    obtain net' where r: "add_symmetric_edge s1 s2 (Some s1) (Some s2) net = Inr net'" "network_ok net'"
      "same_nodes net net'"
      "\<forall>x y. link_count net' x y = link_count net x y + hit (x = s1 \<and> y = s2) + hit (x = s2 \<and> y = s1)"
      using symmetric_edge_counts [of net s1 s2] * by (auto simp: knows_def)
    have "correlate_pair s1 (Some s1) s2 net = Inr net'"
      using True * lookup_node_ok [of net s2] r(1) by (auto simp: correlate_pair_def knows_def)
    moreover have "knows (s1 # hs) net'" using * r(2,3) by (auto simp: knows_def same_nodes_def)
    moreover have "counter net' c = counter net c + pair_weight s1 s2 c" for c
      using r(4) same_nodes_count [OF r(3)] pair_weight_less [OF True]
      by (cases c) (simp_all del: pair_weight.simps(2) add: add.assoc)
    ultimately show ?thesis by blast
  next
    case False
    with * show ?thesis by (simp add: correlate_pair_def pair_weight_not_less)
  qed
qed

interpretation outer_loop: counting_loop
  "correlate_handle hs" "knows hs" "\<lambda>s1. s1 \<in> set hs" counter "\<lambda>s1 c. \<Sum>s2\<leftarrow>hs. pair_weight s1 s2 c"
  for hs
proof
  fix net s1 assume *: "knows hs net" "s1 \<in> set hs"
  then have "lookup_node s1 net = Inr (Some s1)"
    using lookup_node_ok [of net s1] by (auto simp: knows_def)
  then show "\<exists>net'. correlate_handle hs s1 net = Inr net' \<and> knows hs net'
      \<and> (\<forall>c. counter net' c = counter net c + (\<Sum>s2\<leftarrow>hs. pair_weight s1 s2 c))"
    using inner_loop.for_each_counts [of s1 hs net hs] * by (auto simp: correlate_handle_def knows_def)
qed

lemma add_nodes_dom:
  assumes "network_ok net" "\<forall>h\<in>set hs. valid_handle h" "add_nodes fl hs net = Inr net'"
  shows "set hs \<union> dom (node_map net) \<subseteq> dom (node_map net')"
  using assms
proof (induction hs arbitrary: net)
  case Nil
  then show ?case by (simp add: add_nodes_def)
next
  case (Cons h hs)
  then obtain net1 n where 1: "add_node fl h net = Inr (net1, Some h)" "network_ok net1"
    "node_map net1 = (node_map net)(h \<mapsto> n)"
    using add_node_ok [of net h fl] by auto
  with Cons.prems(3) have "add_nodes fl hs net1 = Inr net'" by (simp add: add_nodes_def)
  with Cons.IH [OF 1(2)] Cons.prems(2) have "set hs \<union> dom (node_map net1) \<subseteq> dom (node_map net')" by simp
  moreover have "dom (node_map net1) = insert h (dom (node_map net))" using 1(3) by simp
  ultimately show ?case by auto
qed

lemma correlation_counts:
  assumes "network_ok net" "\<forall>h\<in>set hs. valid_handle h"
  shows "\<exists>net'. correlation fl hs (Some net) = Inr (Some net') \<and> network_ok net'
    \<and> (\<forall>c. counter net' c = counter net c + request_weight hs c)"
proof -
  obtain net1 where 1: "add_nodes fl hs net = Inr net1" "knows [] net1"
    "\<forall>c. counter net1 c = counter net c + (\<Sum>s\<leftarrow>hs. node_weight s c)"
    using add_nodes_loop.for_each_counts [of "[]" net hs fl] assms by (auto simp: knows_def add_nodes_def)
  have "knows hs net1" using 1(2) assms(2) add_nodes_dom [OF assms 1(1)] by (auto simp: knows_def)
  then obtain net2 where 2: "for_each (correlate_handle hs) hs net1 = Inr net2" "knows hs net2"
    "\<forall>c. counter net2 c = counter net1 c + (\<Sum>s1\<leftarrow>hs. \<Sum>s2\<leftarrow>hs. pair_weight s1 s2 c)"
    using outer_loop.for_each_counts [of hs net1 hs] by auto
  have "counter net2 c = counter net c + request_weight hs c" for c
  proof (cases c)
    case (Nodes h)
    then show ?thesis
      using 1(3) [rule_format, of c] 2(3) [rule_format, of c] sum_hit_eq [of h True hs] by simp
  next
    case (Links x y)
    then show ?thesis
      using 1(3) [rule_format, of c] 2(3) [rule_format, of c] sum_pair_weight [of x y hs]
      by (simp del: pair_weight.simps)
  qed
  with 1(1) 2 show ?thesis by (auto simp: correlation_def knows_def)
qed

interpretation correlation_loop: counting_loop
  "correlation fl" "\<lambda>s. \<exists>net. s = Some net \<and> network_ok net" "\<lambda>hs. \<forall>h\<in>set hs. valid_handle h"
  "\<lambda>s. counter (the s)" request_weight
  for fl
  by unfold_locales (use correlation_counts in fastforce)

section \<open>Properties\<close>

text \<open>
  C12. A sequence of requests: the count of a node grows by the number of times its handle occurs in
  them; the count of the edge from \<open>x\<close> to another handle \<open>y\<close> grows, for each request, by the product
  of the numbers of occurrences of \<open>x\<close> and of \<open>y\<close>, so it stays symmetric; no edge from a handle to
  itself is counted. All of it modulo \<open>2 ^ 32\<close>.
\<close>

theorem correlate_requests_counts:
  assumes "network_ok net" and "\<forall>hs\<in>set requests. \<forall>h\<in>set hs. valid_handle h"
    and "valid_handle x" and "valid_handle y"
  shows "\<exists>net'. for_each (correlation fl) requests (Some net) = Inr (Some net') \<and> network_ok net'
    \<and> get_node_count x net' = Inr (node_count net x + (\<Sum>hs\<leftarrow>requests. of_nat (count_list hs x)))
    \<and> get_asymmetric_edge_count x y net' = Inr (link_count net x y
        + (\<Sum>hs\<leftarrow>requests. if x = y then 0 else of_nat (count_list hs x * count_list hs y)))"
proof -
  obtain net' where 1: "for_each (correlation fl) requests (Some net) = Inr (Some net')" "network_ok net'"
    "\<forall>c. counter net' c = counter net c + (\<Sum>hs\<leftarrow>requests. request_weight hs c)"
    using correlation_loop.for_each_counts [of "Some net" requests fl] assms(1,2) by auto
  from 1(3) [rule_format, of "Nodes x"] 1(3) [rule_format, of "Links x y"] show ?thesis
    using 1(1,2) assms(3,4) by (simp add: get_node_count_ok get_asymmetric_edge_count_ok)
qed

theorem correlate_requests_counts_witness:
  "\<exists>net net'. new_HebbianNetwork = Inr net
    \<and> for_each (correlation id) [[handle_of CHR ''a'', handle_of CHR ''b''],
        [handle_of CHR ''b'', handle_of CHR ''a'', handle_of CHR ''b'']] (Some net) = Inr (Some net')
    \<and> get_node_count (handle_of CHR ''b'') net' = Inr 3
    \<and> get_asymmetric_edge_count (handle_of CHR ''a'') (handle_of CHR ''b'') net' = Inr 3"
proof -
  obtain net where net: "new_HebbianNetwork = Inr net" "network_ok net" "node_map net = (\<lambda>_. None)"
    using new_HebbianNetwork_ok by blast
  have "node_count net h = 0" "link_count net h h' = 0" for h h'
    by (simp_all add: node_count_def link_count_def net(3))
  with net(1,2) show ?thesis
    using correlate_requests_counts [of net "[[handle_of CHR ''a'', handle_of CHR ''b''],
        [handle_of CHR ''b'', handle_of CHR ''a'', handle_of CHR ''b'']]"
        "handle_of CHR ''a''" "handle_of CHR ''b''" id]
      correlate_requests_counts [of net "[[handle_of CHR ''a'', handle_of CHR ''b''],
        [handle_of CHR ''b'', handle_of CHR ''a'', handle_of CHR ''b'']]"
        "handle_of CHR ''b''" "handle_of CHR ''b''" id]
    by auto
qed

text \<open>
  C28. Requests without repeated handles, on a new network: the count of an edge is the number of
  requests that hold both its ends, so the weight count(x,y) / count(x) of an edge is at most 1.
\<close>

theorem edge_weight_at_most_one:
  assumes "network_ok net" and "node_map net = (\<lambda>_. None)"
    and "\<forall>hs\<in>set requests. distinct hs \<and> (\<forall>h\<in>set hs. valid_handle h)" and "length requests < 2 ^ 32"
    and "for_each (correlation fl) requests (Some net) = Inr (Some net')" and "x \<noteq> y"
  shows "unat (link_count net' x y) = length (filter (\<lambda>hs. x \<in> set hs \<and> y \<in> set hs) requests)
    \<and> unat (node_count net' x) = length (filter (\<lambda>hs. x \<in> set hs) requests)
    \<and> link_count net' x y \<le> node_count net' x"
proof -
  have 1: "counter net' c = counter net c + (\<Sum>hs\<leftarrow>requests. request_weight hs c)" for c
    using correlation_loop.for_each_counts [of "Some net" requests fl] assms(1,3,5) by auto
  have occ: "count_list hs h = (if h \<in> set hs then 1 else 0)" if "distinct hs" for hs :: "string list" and h
    using that by (induction hs) auto
  have filt: "(\<Sum>hs\<leftarrow>requests. of_nat (g hs)) = (of_nat (length (filter P requests)) :: u32)"
    if "\<forall>hs\<in>set requests. g hs = (if P hs then 1 else 0)" for g :: "string list \<Rightarrow> nat" and P
    using that by (induction requests) auto
  have "node_count net' x = of_nat (length (filter (\<lambda>hs. x \<in> set hs) requests))"
    using 1 [of "Nodes x"] filt [of "\<lambda>hs. count_list hs x"] assms(2,3) occ by (simp add: node_count_def)
  moreover have "link_count net' x y
      = of_nat (length (filter (\<lambda>hs. x \<in> set hs \<and> y \<in> set hs) requests))"
    using 1 [of "Links x y"] filt [of "\<lambda>hs. count_list hs x * count_list hs y" "\<lambda>hs. x \<in> set hs \<and> y \<in> set hs"]
      assms(2,3,6) occ by (simp add: link_count_def)
  moreover have "length (filter P requests) < 2 ^ 32" for P
    using length_filter_le [of P requests] assms(4) by (rule le_less_trans)
  moreover have "length (filter (\<lambda>hs. x \<in> set hs \<and> y \<in> set hs) requests)
      \<le> length (filter (\<lambda>hs. x \<in> set hs) requests)"
    by (induction requests) auto
  ultimately show ?thesis
    by (simp add: word_le_nat_alt unat_of_nat take_bit_nat_eq_self)
qed

theorem edge_weight_at_most_one_witness:
  "\<exists>net net'. new_HebbianNetwork = Inr net
    \<and> for_each (correlation id) [[handle_of CHR ''a'', handle_of CHR ''b''], [handle_of CHR ''a'']] (Some net)
      = Inr (Some net')
    \<and> unat (link_count net' (handle_of CHR ''a'') (handle_of CHR ''b'')) = 1
    \<and> unat (node_count net' (handle_of CHR ''a'')) = 2"
proof -
  let ?rs = "[[handle_of CHR ''a'', handle_of CHR ''b''], [handle_of CHR ''a'']]"
  obtain net where net: "new_HebbianNetwork = Inr net" "network_ok net" "node_map net = (\<lambda>_. None)"
    using new_HebbianNetwork_ok by blast
  obtain net' where res: "for_each (correlation id) ?rs (Some net) = Inr (Some net')"
    using correlation_loop.for_each_counts [of "Some net" ?rs id] net(2) by auto
  show ?thesis
    using edge_weight_at_most_one [OF net(2,3) _ _ res, of "handle_of CHR ''a''" "handle_of CHR ''b''"] res net(1)
    by auto
qed

text \<open>
  A request with a handle of another size than 32: the processing ends at the first such handle
  with the exception of the trie, after the handles before it were added.
\<close>

theorem correlation_invalid_handle:
  assumes "network_ok net" and "\<forall>h\<in>set hs. valid_handle h" and "length h \<noteq> 32"
  shows "correlation fl (hs @ h # hs') (Some net)
    = Inl (Runtime_Error (''Invalid key size: '' @ dec (length h) @ '' != 32''))"
proof -
  obtain net1 where 1: "add_nodes fl hs net = Inr net1" "knows [] net1"
    using add_nodes_loop.for_each_counts [of "[]" net hs fl] assms by (auto simp: knows_def add_nodes_def)
  obtain n where n: "new_Node h = Inr n" using new_Node_ok by blast
  have "unat (key_size (nodes net1)) = 32"
    using 1(2) by (simp add: knows_def network_ok_def handle_trie_ok_def)
  moreover have "dec 32 = ''32''" by code_simp
  ultimately have "add_node fl h net1
      = Inl (Runtime_Error (''Invalid key size: '' @ dec (length h) @ '' != 32''))"
    using assms(3) by (simp add: add_node_def n trie_insert_def check_key_size_def)
  with 1(1) show ?thesis by (simp add: correlation_def add_nodes_def for_each_append)
qed

theorem correlation_invalid_handle_witness:
  "\<exists>net. new_HebbianNetwork = Inr net \<and> correlation id [handle_of CHR ''a'', ''xy''] (Some net)
    = Inl (Runtime_Error ''Invalid key size: 2 != 32'')"
proof -
  obtain net where net: "new_HebbianNetwork = Inr net" "network_ok net"
    using new_HebbianNetwork_ok by blast
  have "dec (length ''xy'') = ''2''" by code_simp
  with net show ?thesis
    using correlation_invalid_handle [of net "[handle_of CHR ''a'']" "''xy''" id "[]"] by auto
qed

end
