(* ===== verification/Binary64.thy ===== *)
theory Binary64
  imports Doubles
begin

text \<open>
  The rounding of the machine: binary64 keeps 53 significant bits and rounds to the nearest value, to
  the even one of two nearest. \<open>binade x\<close> is the exponent of a positive \<open>x\<close>. The exponent of the
  model is unbounded, so there is no overflow and no subnormal value.
\<close>

section \<open>Definitions\<close>

lemma half_le_pred: "(2::rat) \<le> c \<Longrightarrow> y \<le> c \<Longrightarrow> y / 2 \<le> c - 1"
  by linarith

function binade_up :: "rat \<Rightarrow> int" where
  "binade_up x = (if x \<ge> 2 then binade_up (x / 2) + 1 else 0)"
  by pat_completeness auto
termination
proof (relation "measure (\<lambda>x. nat \<lceil>x\<rceil>)")
  fix x :: rat assume "x \<ge> 2"
  then have "(2::rat) \<le> of_int \<lceil>x\<rceil>" using le_of_int_ceiling [of x] by (rule order_trans)
  from half_le_pred [OF this le_of_int_ceiling] have "x / 2 \<le> of_int (\<lceil>x\<rceil> - 1)" by simp
  then have "\<lceil>x / 2\<rceil> \<le> \<lceil>x\<rceil> - 1" by (simp only: ceiling_le_iff)
  moreover have "0 < \<lceil>x\<rceil>" using \<open>x \<ge> 2\<close> by simp
  ultimately show "(x / 2, x) \<in> measure (\<lambda>x. nat \<lceil>x\<rceil>)" by simp
qed simp

function binade_down :: "rat \<Rightarrow> int" where
  "binade_down x = (if 0 < x \<and> x < 1 then binade_down (2 * x) - 1 else 0)"
  by pat_completeness auto
termination
proof (relation "measure (\<lambda>x. nat \<lceil>1 / x\<rceil>)")
  fix x :: rat assume x: "0 < x \<and> x < 1"
  then have "1 < 1 / x" by simp
  then have "2 \<le> \<lceil>1 / x\<rceil>" by linarith
  then have "(2::rat) \<le> of_int \<lceil>1 / x\<rceil>" by simp
  from half_le_pred [OF this le_of_int_ceiling] have "1 / x / 2 \<le> of_int (\<lceil>1 / x\<rceil> - 1)"
    by (simp only: of_int_diff of_int_1)
  then have "\<lceil>1 / x / 2\<rceil> \<le> \<lceil>1 / x\<rceil> - 1" by (simp only: ceiling_le_iff)
  moreover have "1 / (2 * x) = 1 / x / 2" by simp
  ultimately have "\<lceil>1 / (2 * x)\<rceil> < \<lceil>1 / x\<rceil>" by (simp only:)
  with \<open>2 \<le> \<lceil>1 / x\<rceil>\<close> show "(2 * x, x) \<in> measure (\<lambda>x. nat \<lceil>1 / x\<rceil>)"
    by (simp only: in_measure nat_mono_iff)
qed simp

declare binade_up.simps [simp del] binade_down.simps [simp del]

definition binade :: "rat \<Rightarrow> int" where
  "binade x = (if x \<ge> 1 then binade_up x else binade_down x)"

definition round_even :: "rat \<Rightarrow> int" where
  "round_even y =
     (let f = \<lfloor>y\<rfloor>; d = y - of_int f
      in if d < 1 / 2 \<or> d = 1 / 2 \<and> even f then f else f + 1)"

definition ulp :: "int \<Rightarrow> rat" where
  "ulp e = 2 powi (e - 52)"

definition round_pos :: "rat \<Rightarrow> rat" where
  "round_pos x = ulp (binade x) * of_int (round_even (x / ulp (binade x)))"

definition binary64 :: "rat \<Rightarrow> rat" where
  "binary64 x = (if x = 0 then 0 else if x < 0 then - round_pos (- x) else round_pos x)"

section \<open>The exponent\<close>

lemma binade_up_bounds: "1 \<le> x \<Longrightarrow> 2 powi binade_up x \<le> x \<and> x < 2 powi (binade_up x + 1)"
proof (induction x rule: binade_up.induct)
  case (1 x)
  show ?case
  proof (cases "x \<ge> 2")
    case True
    then have "2 powi binade_up (x / 2) \<le> x / 2 \<and> x / 2 < 2 powi (binade_up (x / 2) + 1)"
      by (intro 1) simp_all
    then show ?thesis
      using True by (simp add: binade_up.simps [of x] power_int_add field_simps)
  qed (use 1 in \<open>simp add: binade_up.simps [of x]\<close>)
qed

lemma binade_down_bounds:
  "0 < x \<Longrightarrow> x < 2 \<Longrightarrow> 2 powi binade_down x \<le> x \<and> x < 2 powi (binade_down x + 1)"
proof (induction x rule: binade_down.induct)
  case (1 x)
  show ?case
  proof (cases "x < 1")
    case True
    then have "2 powi binade_down (2 * x) \<le> 2 * x \<and> 2 * x < 2 powi (binade_down (2 * x) + 1)"
      using 1 by simp
    then show ?thesis
      using True 1 by (simp add: binade_down.simps [of x] power_int_add power_int_diff field_simps)
  qed (use 1 in \<open>simp add: binade_down.simps [of x]\<close>)
qed

lemma binade_bounds: "0 < x \<Longrightarrow> 2 powi binade x \<le> x \<and> x < 2 powi (binade x + 1)"
  using binade_up_bounds [of x] binade_down_bounds [of x] by (auto simp: binade_def)

lemma powi_le: "a \<le> b \<Longrightarrow> (2::rat) powi a \<le> 2 powi b"
  by (rule power_int_increasing) simp_all

lemma powi_less_imp: "(2::rat) powi a < 2 powi b \<Longrightarrow> a < b"
  using powi_le [of b a] by linarith

lemma binade_less:
  assumes "0 < x" "x \<le> y" shows "binade x \<le> binade y"
proof -
  have "(2::rat) powi binade x < 2 powi (binade y + 1)"
    using binade_bounds [of x] binade_bounds [of y] assms by linarith
  from powi_less_imp [OF this] show ?thesis by simp
qed

lemma binade_unique:
  assumes "2 powi e \<le> x" "x < 2 powi (e + 1)" shows "binade x = e"
proof -
  have "0 < (2::rat) powi e" by simp
  then have "0 < x" using assms(1) by linarith
  note b = binade_bounds [OF this]
  have "(2::rat) powi binade x < 2 powi (e + 1)" "(2::rat) powi e < 2 powi (binade x + 1)"
    using b assms by linarith+
  from this [THEN powi_less_imp] show ?thesis by simp
qed

section \<open>The significand\<close>

lemma round_even_mono: "x \<le> y \<Longrightarrow> round_even x \<le> round_even y"
proof -
  assume xy: "x \<le> y"
  then have "\<lfloor>x\<rfloor> \<le> \<lfloor>y\<rfloor>" by (rule floor_mono)
  then consider "\<lfloor>x\<rfloor> = \<lfloor>y\<rfloor>" | "\<lfloor>x\<rfloor> + 1 \<le> \<lfloor>y\<rfloor>" by linarith
  then show ?thesis
  proof cases
    case 1
    then show ?thesis using xy by (auto simp: round_even_def Let_def)
  next
    case 2
    then show ?thesis by (auto simp: round_even_def Let_def)
  qed
qed

lemma round_even_int [simp]: "round_even (of_int n) = n"
  by (simp add: round_even_def)

lemma ulp_pos [simp]: "0 < ulp e"
  by (simp add: ulp_def)

lemma ulp_scale: "ulp e * 2 ^ 52 = 2 powi e" "ulp e * 2 ^ 53 = 2 powi (e + 1)"
  by (simp_all add: ulp_def power_int_diff power_int_add)

lemma significand_bounds:
  assumes "0 < x"
  shows "2 ^ 52 \<le> round_even (x / ulp (binade x))" and "round_even (x / ulp (binade x)) \<le> 2 ^ 53"
proof -
  note b = binade_bounds [OF assms]
  have "of_int (2 ^ 52) \<le> x / ulp (binade x)" "x / ulp (binade x) \<le> of_int (2 ^ 53)"
    using b ulp_scale [of "binade x"] by (simp_all add: field_simps)
  from round_even_mono [OF this(1)] round_even_mono [OF this(2)]
  show "2 ^ 52 \<le> round_even (x / ulp (binade x))" "round_even (x / ulp (binade x)) \<le> 2 ^ 53"
    by (simp_all only: round_even_int)
qed

lemma round_pos_bounds:
  assumes "0 < x"
  shows "2 powi binade x \<le> round_pos x" and "round_pos x \<le> 2 powi (binade x + 1)"
proof -
  let ?n = "round_even (x / ulp (binade x))"
  have "(2::rat) ^ 52 \<le> of_int ?n" "of_int ?n \<le> (2::rat) ^ 53"
    using significand_bounds [OF assms] by (metis of_int_le_iff of_int_numeral of_int_power)+
  then have "ulp (binade x) * 2 ^ 52 \<le> round_pos x" "round_pos x \<le> ulp (binade x) * 2 ^ 53"
    using ulp_pos [of "binade x"] by (simp_all add: round_pos_def)
  then show "2 powi binade x \<le> round_pos x" "round_pos x \<le> 2 powi (binade x + 1)"
    by (simp_all only: ulp_scale)
qed

lemma round_pos_pos: "0 < x \<Longrightarrow> 0 < round_pos x"
  using round_pos_bounds(1) [of x] by (rule less_le_trans [rotated]) simp_all

lemma round_pos_mono:
  assumes "0 < x" "x \<le> y" shows "round_pos x \<le> round_pos y"
proof (cases "binade x = binade y")
  case True
  have "round_even (x / ulp (binade x)) \<le> round_even (y / ulp (binade x))"
    using assms(2) by (intro round_even_mono divide_right_mono) (simp_all add: less_imp_le)
  then show ?thesis unfolding round_pos_def True [symmetric] by simp
next
  case False
  then have "binade x + 1 \<le> binade y" using binade_less [OF assms] by simp
  from powi_le [OF this] have "(2::rat) powi (binade x + 1) \<le> 2 powi binade y" .
  then show ?thesis using round_pos_bounds(2) [of x] round_pos_bounds(1) [of y] assms by linarith
qed

lemma round_pos_power: "round_pos (2 powi e) = 2 powi e"
proof -
  have b: "binade (2 powi e) = e" by (rule binade_unique) (simp_all add: power_int_add)
  have "2 powi e / ulp e = of_int (2 ^ 52)"
    unfolding ulp_scale(1) [symmetric] using ulp_pos [of e] by (simp del: ulp_pos)
  then have "round_pos (2 powi e) = ulp e * of_int (2 ^ 52)" by (simp only: round_pos_def b round_even_int)
  then show ?thesis by (simp only: of_int_power of_int_numeral ulp_scale)
qed

lemma round_pos_idem:
  assumes "0 < x" shows "round_pos (round_pos x) = round_pos x"
proof (cases "round_pos x < 2 powi (binade x + 1)")
  case True
  then have b: "binade (round_pos x) = binade x"
    using round_pos_bounds(1) [OF assms] by (intro binade_unique)
  have "round_pos x / ulp (binade x) = of_int (round_even (x / ulp (binade x)))"
    using ulp_pos [of "binade x"] unfolding round_pos_def by (simp del: ulp_pos)
  then show ?thesis by (simp only: round_pos_def [of "round_pos x"] b round_even_int) (simp add: round_pos_def)
next
  case False
  then have "round_pos x = 2 powi (binade x + 1)" using round_pos_bounds(2) [OF assms] by simp
  then show ?thesis by (simp add: round_pos_power)
qed

section \<open>binary64 is a rounding\<close>

interpretation binary64: rounding binary64
proof
  fix x y :: rat
  show "x \<le> y \<Longrightarrow> binary64 x \<le> binary64 y"
    using round_pos_mono [of x y] round_pos_mono [of "- y" "- x"] round_pos_pos [of y] round_pos_pos [of "- x"]
    by (auto simp: binary64_def)
  show "binary64 (binary64 x) = binary64 x"
    using round_pos_idem [of x] round_pos_idem [of "- x"] round_pos_pos [of x] round_pos_pos [of "- x"]
    by (auto simp: binary64_def)
  show "binary64 1 = 1" using round_pos_power [of 0] by (simp add: binary64_def)
  show "binary64 (1 / 2) = 1 / 2" using round_pos_power [of "- 1"] by (simp add: binary64_def)
qed (simp_all add: binary64_def round_pos_pos)

end
