(* ===== verification/Stimulus_Spreader.thy ===== *)
theory Stimulus_Spreader
  imports Hebbian_Network_Correct Binary64
begin

text \<open>
  \<open>attention_broker_server/StimulusSpreader\<close>: the processing of a \<open>stimulate\<close> request. Every node
  pays a rent, the collected tokens are paid as wages to the handles of the request, and then every
  node spreads a part of its importance among its neighbours. The parameter \<open>fl\<close> is the rounding of
  the machine.

  A \<open>TrieNode *\<close> handed to a visit function leads to an object of the network, which other visits
  change, so a visit function of nodes reads its node from the current network, by the key of the
  leaf; the edges of a node do not change while they are visited.
\<close>

section \<open>Factory and parameters\<close>

datatype stimulus_spreader = TokenSpreader

definition TOKEN :: int where
  "TOKEN = 0"

definition spreader_factory :: "int \<Rightarrow> stimulus_spreader result" where
  "spreader_factory instance_type =
     (if instance_type = TOKEN then Inr TokenSpreader
      else Inl (Runtime_Error (''Invalid StimulusSpreaderType: '' @ dec_int instance_type)))"

definition RENT_RATE :: "(rat \<Rightarrow> rat) \<Rightarrow> double" where
  "RENT_RATE fl = Fin (fl (1 / 10))"

definition SPREADING_RATE_LOWERBOUND :: "(rat \<Rightarrow> rat) \<Rightarrow> double" where
  "SPREADING_RATE_LOWERBOUND fl = Fin (fl (1 / 100))"

definition SPREADING_RATE_UPPERBOUND :: "(rat \<Rightarrow> rat) \<Rightarrow> double" where
  "SPREADING_RATE_UPPERBOUND fl = Fin (fl (10 / 100))"

section \<open>State\<close>

record importance_change =
  rent :: double
  wages :: double

definition merge_changes :: "(rat \<Rightarrow> rat) \<Rightarrow> importance_change \<Rightarrow> importance_change \<Rightarrow> importance_change" where
  "merge_changes fl c other =
     c\<lparr>rent := dadd fl (rent c) (rent other), wages := dadd fl (wages c) (wages other)\<rparr>"

record stimuli_data =
  rent_rate :: double
  total_rent :: double
  importance_changes :: "importance_change handle_trie"
  network_arity :: u32
  spreading_rate_lowerbound :: double
  spreading_rate_range_size :: double
  to_spread :: double
  weight_sum :: double

type_synonym spread_state = "hebbian_network \<times> stimuli_data"

section \<open>Visit functions\<close>

definition collect_rent :: "(rat \<Rightarrow> rat) \<Rightarrow> node trie_node \<Rightarrow> spread_state \<Rightarrow> (bool \<times> spread_state) result" where
  "collect_rent fl t = (\<lambda>(net, data).
     and_then (deref net (Some (node_suffix t))) (\<lambda>value.
       let r = dmul fl (rent_rate data) (importance value);
           data = data\<lparr>total_rent := dadd fl (total_rent data) r\<rparr>
       in and_then (trie_insert (merge_changes fl) (importance_changes data) (node_suffix t)
                      \<lparr>rent = r, wages = Fin 0\<rparr>)
            (\<lambda>(changes, _). Inr (False, (net, data\<lparr>importance_changes := changes\<rparr>)))))"

definition consolidate_rent_and_wages :: "(rat \<Rightarrow> rat) \<Rightarrow> node trie_node \<Rightarrow> spread_state
    \<Rightarrow> (bool \<times> spread_state) result" where
  "consolidate_rent_and_wages fl t = (\<lambda>(net, data).
     and_then (deref net (Some (node_suffix t))) (\<lambda>value.
     and_then (trie_lookup (importance_changes data) (node_suffix t)) (\<lambda>found.
       case found of None \<Rightarrow> Inl Null_Dereference
       | Some changes \<Rightarrow>
           let value = value\<lparr>importance := dsub fl (importance value) (rent changes)\<rparr>;
               value = value\<lparr>importance := dadd fl (importance value) (wages changes)\<rparr>;
               arity_ratio = ddiv fl (double_of_uint (arity value)) (double_of_uint (network_arity data));
               spreading_rate = dadd fl (spreading_rate_lowerbound data)
                 (dmul fl (spreading_rate_range_size data) arity_ratio);
               amount = dmul fl (importance value) spreading_rate;
               value = value\<lparr>importance := dsub fl (importance value) amount\<rparr>;
               value = value\<lparr>stimuli_to_spread := amount\<rparr>
           in Inr (False, (store_node value net, data)))))"

text \<open>\<open>(double) edge->count / edge->node1->count\<close>\<close>

definition edge_weight :: "(rat \<Rightarrow> rat) \<Rightarrow> hebbian_network \<Rightarrow> edge \<Rightarrow> double result" where
  "edge_weight fl net e =
     and_then (deref net (edge_node1 e)) (\<lambda>n1.
       Inr (ddiv fl (double_of_uint (edge_count e)) (double_of_uint (count n1))))"

definition sum_weights :: "(rat \<Rightarrow> rat) \<Rightarrow> edge trie_node \<Rightarrow> spread_state \<Rightarrow> (bool \<times> spread_state) result" where
  "sum_weights fl t = (\<lambda>(net, data).
     case node_value t of None \<Rightarrow> Inl Null_Dereference
     | Some edge \<Rightarrow>
         and_then (edge_weight fl net edge) (\<lambda>w.
           Inr (False, (net, data\<lparr>weight_sum := dadd fl (weight_sum data) w\<rparr>))))"

definition deliver_stimulus :: "(rat \<Rightarrow> rat) \<Rightarrow> edge trie_node \<Rightarrow> spread_state \<Rightarrow> (bool \<times> spread_state) result" where
  "deliver_stimulus fl t = (\<lambda>(net, data).
     case node_value t of None \<Rightarrow> Inl Null_Dereference
     | Some edge \<Rightarrow>
         and_then (edge_weight fl net edge) (\<lambda>w.
           let stimulus = dmul fl (ddiv fl w (weight_sum data)) (to_spread data)
           in and_then (deref net (edge_node2 edge)) (\<lambda>n2.
                Inr (False, (store_node (n2\<lparr>importance := dadd fl (importance n2) stimulus\<rparr>) net, data)))))"

definition consolidate_stimulus :: "(rat \<Rightarrow> rat) \<Rightarrow> node trie_node \<Rightarrow> spread_state
    \<Rightarrow> (bool \<times> spread_state) result" where
  "consolidate_stimulus fl t = (\<lambda>(net, data).
     and_then (deref net (Some (node_suffix t))) (\<lambda>value.
       let data = data\<lparr>to_spread := stimuli_to_spread value, weight_sum := Fin 0\<rparr>
       in and_then (trie_traverse (sum_weights fl) (neighbors value) (net, data)) (\<lambda>s.
          and_then (trie_traverse (deliver_stimulus fl) (neighbors value) s) (\<lambda>(net, data).
          and_then (deref net (Some (node_suffix t))) (\<lambda>value.
            Inr (False, (store_node (value\<lparr>stimuli_to_spread := Fin 0\<rparr>) net, data)))))))"

section \<open>Processing of a request\<close>

text \<open>
  The map of a request is the list of its entries, in the order in which the container iterates; its
  values are read as \<open>unsigned int\<close>, the type of \<open>total_wages\<close>.
\<close>

type_synonym handle_count = "(string \<times> u32) list"

definition pay_wages :: "(rat \<Rightarrow> rat) \<Rightarrow> u32 \<Rightarrow> double \<Rightarrow> string \<times> u32 \<Rightarrow> stimuli_data \<Rightarrow> stimuli_data result" where
  "pay_wages fl total_wages total_to_spread p data =
     (if fst p \<noteq> ''SUM''
      then let normalized_amount = ddiv fl (dmul fl (double_of_uint (snd p)) total_to_spread)
                 (double_of_uint total_wages)
           in and_then (trie_insert (merge_changes fl) (importance_changes data) (fst p)
                          \<lparr>rent = Fin 0, wages = normalized_amount\<rparr>)
                (\<lambda>(changes, _). Inr (data\<lparr>importance_changes := changes\<rparr>))
      else Inr data)"

definition distribute_wages :: "(rat \<Rightarrow> rat) \<Rightarrow> handle_count \<Rightarrow> double \<Rightarrow> stimuli_data \<Rightarrow> stimuli_data result" where
  "distribute_wages fl handle_count total_to_spread data =
     (case map_of handle_count ''SUM'' of
        None \<Rightarrow> Inl (Runtime_Error ''Missing 'SUM' key in HandleCount request'')
      | Some total_wages \<Rightarrow> for_each (pay_wages fl total_wages total_to_spread) handle_count data)"

text \<open>
  The fields \<open>to_spread\<close> and \<open>sum_weights\<close> of a new \<open>StimuliData\<close> are not initialised; they are
  written by \<open>consolidate_stimulus\<close> before anything reads them, their first value is arbitrary.
\<close>

definition init_data :: "(rat \<Rightarrow> rat) \<Rightarrow> hebbian_network \<Rightarrow> importance_change handle_trie \<Rightarrow> stimuli_data" where
  "init_data fl net changes =
     \<lparr>rent_rate = RENT_RATE fl, total_rent = Fin 0, importance_changes = changes,
      network_arity = largest_arity net, spreading_rate_lowerbound = SPREADING_RATE_LOWERBOUND fl,
      spreading_rate_range_size = dsub fl (SPREADING_RATE_UPPERBOUND fl) (SPREADING_RATE_LOWERBOUND fl),
      to_spread = NaN, weight_sum = NaN\<rparr>"

definition spread_stimuli :: "(rat \<Rightarrow> rat) \<Rightarrow> handle_count \<Rightarrow> hebbian_network option
    \<Rightarrow> hebbian_network option result" where
  "spread_stimuli fl request network =
     (case network of None \<Rightarrow> Inr None
      | Some net \<Rightarrow>
          and_then (new_HandleTrie (HANDLE_HASH_SIZE - 1)) (\<lambda>changes.
          and_then (visit_nodes (collect_rent fl) net (net, init_data fl net changes)) (\<lambda>(net, data).
            let (tokens, net) = alienate_tokens net;
                total_to_spread = dadd fl tokens (total_rent data)
            in and_then (distribute_wages fl request total_to_spread data) (\<lambda>data.
               and_then (visit_nodes (consolidate_rent_and_wages fl) net (net, data)) (\<lambda>(net, data).
               and_then (visit_nodes (consolidate_stimulus fl) net (net, data)) (\<lambda>(net, _).
                 Inr (Some net)))))))"

end
