(* ===== verification/Spreader_Steps.thy ===== *)
theory Spreader_Steps
  imports Stimulus_Spreader
begin

text \<open>
  What each traversal of \<open>spread_stimuli\<close> computes, for any rounding \<open>fl\<close>: the visits of distinct
  leaves are followed one by one, and the result is given as a function of the state before.
\<close>

section \<open>Leaves of a well-formed trie\<close>

definition leaf_of :: "'v handle_trie \<Rightarrow> 'v trie_node list" where
  "leaf_of m = leaves (root m)"

definition node_list :: "hebbian_network \<Rightarrow> string list" where
  "node_list net = map fst (trie_entries (nodes net))"

definition neighbour_list :: "node \<Rightarrow> string list" where
  "neighbour_list n = map fst (trie_entries (neighbors n))"

lemma leaf_of_entries:
  assumes "handle_trie_ok n A m"
  shows "map node_suffix (leaf_of m) = map fst (trie_entries m)"
    and "t \<in> set (leaf_of m) \<Longrightarrow> node_value t = trie_map m (node_suffix t) \<and> node_suffix t \<in> dom (trie_map m)"
    and "distinct (map node_suffix (leaf_of m))"
proof -
  have l: "map leaf_entry (leaf_of m) = trie_entries m" "\<forall>l\<in>set (leaf_of m). node_value l \<noteq> None"
    using leaves_ok [of n A 0 "root m"] assms
    by (auto simp: handle_trie_ok_def trie_entries_def leaf_of_def)
  have "map node_suffix (leaf_of m) = map fst (map leaf_entry (leaf_of m))"
    by (simp add: leaf_entry_def comp_def)
  then show s: "map node_suffix (leaf_of m) = map fst (trie_entries m)" by (simp only: l(1))
  show "distinct (map node_suffix (leaf_of m))"
    unfolding s by (rule sorted_distinct_keys(2) [OF assms])
  show "node_value t = trie_map m (node_suffix t) \<and> node_suffix t \<in> dom (trie_map m)"
    if t: "t \<in> set (leaf_of m)"
  proof -
    obtain v where v: "node_value t = Some v" using l(2) t by auto
    have "leaf_entry t \<in> set (trie_entries m)" using t l(1) by (metis image_eqI set_map)
    then have "trie_map m (node_suffix t) = Some v"
      using sorted_distinct_keys(2) [OF assms] v by (simp add: leaf_entry_def trie_map_def)
    with v show ?thesis by auto
  qed
qed

lemma node_list_ok:
  assumes "network_ok net"
  shows "distinct (node_list net)" and "set (node_list net) = dom (node_map net)"
  using assms sorted_distinct_keys(2) [of 32 hex_digits "nodes net"]
  by (simp_all add: network_ok_def node_list_def node_map_def trie_map_def dom_map_of_conv_image_fst)

lemma neighbour_list_ok:
  assumes "handles_ok (neighbors n)"
  shows "distinct (neighbour_list n)" and "set (neighbour_list n) = dom (edge_map n)"
  using assms sorted_distinct_keys(2) [of 32 hex_digits "neighbors n"]
  by (simp_all add: neighbour_list_def edge_map_def trie_map_def dom_map_of_conv_image_fst)

section \<open>What the spreading does not change\<close>

definition strip :: "node \<Rightarrow> node" where
  "strip n = n\<lparr>importance := NaN, stimuli_to_spread := NaN\<rparr>"

definition frame :: "hebbian_network \<Rightarrow> hebbian_network \<Rightarrow> bool" where
  "frame net net' \<longleftrightarrow> network_ok net' \<and> largest_arity net' = largest_arity net
     \<and> (\<forall>h. map_option strip (node_map net' h) = map_option strip (node_map net h))
     \<and> node_list net' = node_list net"

lemma frame_refl: "network_ok net \<Longrightarrow> frame net net"
  by (simp add: frame_def)

lemma frame_trans: "frame a b \<Longrightarrow> frame b c \<Longrightarrow> frame a c"
  by (simp add: frame_def)

lemma strip_fields:
  assumes "strip n = strip n'"
  shows "self n = self n'" "arity n = arity n'" "count n = count n'" "neighbors n = neighbors n'"
    "edge_map n = edge_map n'" "neighbour_list n = neighbour_list n'"
proof -
  show "self n = self n'" "arity n = arity n'" "count n = count n'" "neighbors n = neighbors n'"
    using assms by (cases n; cases n'; simp add: strip_def)+
  then show "edge_map n = edge_map n'" "neighbour_list n = neighbour_list n'"
    by (simp_all add: edge_map_def neighbour_list_def)
qed

lemma frame_node:
  assumes "frame net net'" and "node_map net h = Some n"
  obtains n' where "node_map net' h = Some n'" "strip n' = strip n"
proof -
  have "map_option strip (node_map net' h) = Some (strip n)" using assms by (simp add: frame_def)
  then show thesis using that by auto
qed

lemma frame_None:
  assumes "frame net net'" shows "node_map net' h = None \<longleftrightarrow> node_map net h = None"
proof -
  have "map_option strip (node_map net' h) = map_option strip (node_map net h)"
    using assms by (simp add: frame_def)
  then show ?thesis by (cases "node_map net h"; cases "node_map net' h") simp_all
qed

lemma frame_dom: "frame net net' \<Longrightarrow> dom (node_map net') = dom (node_map net)"
  by (simp add: dom_def frame_None)

lemma frame_counts:
  assumes "frame net net'"
  shows "node_count net' h = node_count net h" "link_count net' h k = link_count net h k"
proof -
  have *: "map_option strip (node_map net' h) = map_option strip (node_map net h)"
    using assms by (simp add: frame_def)
  have "node_count net' h = node_count net h \<and> link_count net' h k = link_count net h k"
  proof (cases "node_map net h")
    case None
    with * show ?thesis by (simp add: node_count_def link_count_def)
  next
    case (Some n)
    with * obtain n' where n': "node_map net' h = Some n'" "strip n' = strip n" by auto
    note f = strip_fields(3,5) [OF n'(2)]
    show ?thesis by (simp add: node_count_def link_count_def Some n'(1) f)
  qed
  then show "node_count net' h = node_count net h" "link_count net' h k = link_count net h k" by simp_all
qed

lemma set_node_ok:
  fixes x y :: double
  assumes net: "network_ok net" and n: "node_map net h = Some n"
  defines "n' \<equiv> n\<lparr>importance := x, stimuli_to_spread := y\<rparr>"
  shows "frame net (store_node n' net)" and "node_map (store_node n' net) = (node_map net)(h \<mapsto> n')"
    and "tokens_to_distribute (store_node n' net) = tokens_to_distribute net"
proof -
  have n_ok: "node_ok net h n" using net n by (simp add: network_ok_def)
  then have self: "self n' = h" by (simp add: n'_def node_ok_def)
  note st = store_node_ok [OF net, of n']
  show m: "node_map (store_node n' net) = (node_map net)(h \<mapsto> n')" using st(2) self n by simp
  have "node_ok net h n'" using n_ok by (simp add: node_ok_def n'_def)
  then have n'_ok: "node_ok (store_node n' net) h n'"
    by (rule node_ok_mono) (use m st(3) self n in auto)
  have "network_ok (store_node n' net)"
    by (rule network_okI [OF _ m n'_ok net]) (use st self n in simp_all)
  moreover have "node_list (store_node n' net) = node_list net"
    using update_value_ok(3) [of 32 hex_digits "nodes net"] net
    by (simp add: node_list_def store_node_def network_ok_def case_prod_unfold comp_def)
  ultimately show "frame net (store_node n' net)"
    using m n st(3) self by (simp add: frame_def n'_def strip_def)
  show "tokens_to_distribute (store_node n' net) = tokens_to_distribute net" using st(4) self n by simp
qed

lemma valid_node:
  assumes "network_ok net" "h \<in> dom (node_map net)" shows "valid_handle h"
proof -
  have "h \<in> set (keys (root (nodes net)))"
    using assms(2) by (simp add: node_map_def trie_map_def trie_entries_def keys_def dom_map_of_conv_image_fst)
  then show ?thesis
    using trie_ok_keys [of 32 hex_digits 0 "root (nodes net)" h] assms(1)
    by (simp add: network_ok_def handle_trie_ok_def valid_key_def)
qed

section \<open>Collecting the rent\<close>

definition importance_of :: "hebbian_network \<Rightarrow> string \<Rightarrow> double" where
  "importance_of net h = (case node_map net h of None \<Rightarrow> Fin 0 | Some n \<Rightarrow> importance n)"

definition rents :: "(rat \<Rightarrow> rat) \<Rightarrow> double \<Rightarrow> hebbian_network \<Rightarrow> string list \<Rightarrow> double \<Rightarrow> double" where
  "rents fl rate net hs acc = fold (\<lambda>h a. dadd fl a (dmul fl rate (importance_of net h))) hs acc"

lemma collect_rent_visits:
  assumes "network_ok net" and "distinct (map node_suffix ts)"
    and "\<forall>t\<in>set ts. node_suffix t \<in> dom (node_map net)"
    and "handles_ok (importance_changes data)"
    and "\<forall>t\<in>set ts. trie_map (importance_changes data) (node_suffix t) = None"
  shows "\<exists>m. visit_all (collect_rent fl) ts (net, data) = Inr (net, data\<lparr>importance_changes := m,
        total_rent := rents fl (rent_rate data) net (map node_suffix ts) (total_rent data)\<rparr>)
    \<and> handles_ok m
    \<and> trie_map m = (\<lambda>h. if h \<in> node_suffix ` set ts
        then Some \<lparr>rent = dmul fl (rent_rate data) (importance_of net h), wages = Fin 0\<rparr>
        else trie_map (importance_changes data) h)"
  using assms
proof (induction ts arbitrary: data)
  case Nil
  then show ?case by (intro exI [of _ "importance_changes data"]) (simp add: rents_def)
next
  case (Cons t ts)
  let ?h = "node_suffix t"
  obtain n where n: "node_map net ?h = Some n" using Cons.prems(3) by auto
  let ?r = "dmul fl (rent_rate data) (importance n)"
  let ?c = "\<lparr>rent = ?r, wages = Fin 0\<rparr>"
  have v: "valid_handle ?h" using valid_node Cons.prems(1,3) by simp
  obtain m where m: "trie_insert (merge_changes fl) (importance_changes data) ?h ?c = Inr (m, ?c)"
    "handles_ok m" "trie_map m = (trie_map (importance_changes data))(?h \<mapsto> ?c)"
    using trie_insert_ok [OF Cons.prems(4) v, of "merge_changes fl" ?c] Cons.prems(5) by auto
  let ?data = "data\<lparr>total_rent := dadd fl (total_rent data) ?r, importance_changes := m\<rparr>"
  have step: "collect_rent fl t (net, data) = Inr (False, (net, ?data))"
    using n m(1) by (simp add: collect_rent_def deref_ok Let_def)
  have e: "importance_changes ?data = m" "rent_rate ?data = rent_rate data"
    "total_rent ?data = dadd fl (total_rent data) ?r" by simp_all
  have fresh: "\<forall>t\<in>set ts. trie_map m (node_suffix t) = None"
    using Cons.prems(2,5) m(3) by (auto simp: image_iff)
  obtain m' where m': "visit_all (collect_rent fl) ts (net, ?data) = Inr (net, ?data\<lparr>importance_changes := m',
        total_rent := rents fl (rent_rate data) net (map node_suffix ts) (dadd fl (total_rent data) ?r)\<rparr>)"
    "handles_ok m'"
    "trie_map m' = (\<lambda>h. if h \<in> node_suffix ` set ts
        then Some \<lparr>rent = dmul fl (rent_rate data) (importance_of net h), wages = Fin 0\<rparr>
        else trie_map m h)"
    using Cons.IH [of ?data, unfolded e, OF Cons.prems(1) _ _ m(2) fresh] Cons.prems(2,3) by auto
  show ?case
    using step m' m(3) n Cons.prems(2)
    by (intro exI [of _ m']) (auto simp: rents_def importance_of_def fun_eq_iff)
qed

section \<open>Paying the wages\<close>

definition wage :: "(rat \<Rightarrow> rat) \<Rightarrow> u32 \<Rightarrow> double \<Rightarrow> u32 \<Rightarrow> double" where
  "wage fl total_wages pool c =
     ddiv fl (dmul fl (double_of_uint c) pool) (double_of_uint total_wages)"

definition request_ok :: "handle_count \<Rightarrow> bool" where
  "request_ok req \<longleftrightarrow> distinct (map fst req) \<and> ''SUM'' \<in> fst ` set req
     \<and> (\<forall>p\<in>set req. fst p = ''SUM'' \<or> valid_handle (fst p))"

lemma SUM_not_valid [simp]: "\<not> valid_handle ''SUM''"
  by (simp add: valid_key_def)

lemma pay_wages_loop:
  assumes "distinct (map fst req)" and "\<forall>p\<in>set req. fst p = ''SUM'' \<or> valid_handle (fst p)"
    and "handles_ok (importance_changes data)"
  shows "\<exists>m. for_each (pay_wages fl tw pool) req data = Inr (data\<lparr>importance_changes := m\<rparr>)
    \<and> handles_ok m
    \<and> (\<forall>h. valid_handle h \<longrightarrow> trie_map m h = (case map_of req h of
          None \<Rightarrow> trie_map (importance_changes data) h
        | Some c \<Rightarrow> Some (combined (merge_changes fl) (trie_map (importance_changes data) h)
            \<lparr>rent = Fin 0, wages = wage fl tw pool c\<rparr>)))"
  using assms
proof (induction req arbitrary: data)
  case Nil
  then show ?case by (intro exI [of _ "importance_changes data"]) simp
next
  case (Cons p req)
  obtain k c where p: "p = (k, c)" by (cases p)
  show ?case
  proof (cases "k = ''SUM''")
    case True
    then have "pay_wages fl tw pool p data = Inr data" by (simp add: pay_wages_def p)
    moreover have "map_of (p # req) h = map_of req h" if "valid_handle h" for h
      using True p that by auto
    ultimately show ?thesis using Cons.IH [of data] Cons.prems by simp
  next
    case False
    then have v: "valid_handle k" using Cons.prems(2) p by simp
    let ?c = "\<lparr>rent = Fin 0, wages = wage fl tw pool c\<rparr>"
    let ?w = "combined (merge_changes fl) (trie_map (importance_changes data) k) ?c"
    obtain m where m: "trie_insert (merge_changes fl) (importance_changes data) k ?c = Inr (m, ?w)"
      "handles_ok m" "trie_map m = (trie_map (importance_changes data))(k \<mapsto> ?w)"
      using trie_insert_ok [OF Cons.prems(3) v, of "merge_changes fl" ?c] by blast
    let ?data = "data\<lparr>importance_changes := m\<rparr>"
    have step: "pay_wages fl tw pool p data = Inr ?data"
      using False m(1) by (simp add: pay_wages_def p wage_def Let_def)
    have e: "importance_changes ?data = m" by simp
    obtain m' where m': "for_each (pay_wages fl tw pool) req ?data = Inr (?data\<lparr>importance_changes := m'\<rparr>)"
      "handles_ok m'"
      "\<forall>h. valid_handle h \<longrightarrow> trie_map m' h = (case map_of req h of
          None \<Rightarrow> trie_map m h
        | Some c \<Rightarrow> Some (combined (merge_changes fl) (trie_map m h)
            \<lparr>rent = Fin 0, wages = wage fl tw pool c\<rparr>))"
      using Cons.IH [of ?data, unfolded e, OF _ _ m(2)] Cons.prems(1,2) by auto
    have "map_of req k = None" using Cons.prems(1) p by (auto simp: map_of_eq_None_iff)
    then have "trie_map m' h = (case map_of (p # req) h of
          None \<Rightarrow> trie_map (importance_changes data) h
        | Some c \<Rightarrow> Some (combined (merge_changes fl) (trie_map (importance_changes data) h)
            \<lparr>rent = Fin 0, wages = wage fl tw pool c\<rparr>))" if "valid_handle h" for h
    proof (cases "h = k")
      case False
      then have "trie_map m h = trie_map (importance_changes data) h" using m(3) by simp
      with m'(3) [rule_format, OF that] p False show ?thesis by (simp split: option.split)
    qed (use m'(3) [rule_format, OF that] m(3) p \<open>map_of req k = None\<close> in simp)
    with step m'(1,2) show ?thesis by (intro exI [of _ m']) simp
  qed
qed

section \<open>Consolidating rent and wages\<close>

definition settled :: "(rat \<Rightarrow> rat) \<Rightarrow> importance_change \<Rightarrow> double \<Rightarrow> double" where
  "settled fl c i = dadd fl (dsub fl i (rent c)) (wages c)"

definition spreading_rate :: "(rat \<Rightarrow> rat) \<Rightarrow> stimuli_data \<Rightarrow> u32 \<Rightarrow> double" where
  "spreading_rate fl data a = dadd fl (spreading_rate_lowerbound data)
     (dmul fl (spreading_rate_range_size data)
       (ddiv fl (double_of_uint a) (double_of_uint (network_arity data))))"

definition consolidated :: "(rat \<Rightarrow> rat) \<Rightarrow> stimuli_data \<Rightarrow> importance_change \<Rightarrow> node \<Rightarrow> node" where
  "consolidated fl data c n =
     (let i = settled fl c (importance n); amount = dmul fl i (spreading_rate fl data (arity n))
      in n\<lparr>importance := dsub fl i amount, stimuli_to_spread := amount\<rparr>)"

lemma consolidate_visits:
  assumes "network_ok net" and "distinct (map node_suffix ts)"
    and "\<forall>t\<in>set ts. node_suffix t \<in> dom (node_map net)"
    and "handles_ok (importance_changes data)"
    and "\<forall>t\<in>set ts. trie_map (importance_changes data) (node_suffix t) = Some (chg (node_suffix t))"
  shows "\<exists>net'. visit_all (consolidate_rent_and_wages fl) ts (net, data) = Inr (net', data)
    \<and> frame net net' \<and> tokens_to_distribute net' = tokens_to_distribute net
    \<and> node_map net' = (\<lambda>h. if h \<in> node_suffix ` set ts
        then map_option (consolidated fl data (chg h)) (node_map net h) else node_map net h)"
  using assms(1-3,5)
proof (induction ts arbitrary: net)
  case Nil
  then show ?case by (simp add: frame_refl)
next
  case (Cons t ts)
  let ?h = "node_suffix t"
  obtain n where n: "node_map net ?h = Some n" using Cons.prems(3) by auto
  have "valid_handle ?h" using valid_node Cons.prems(1,3) by simp
  then have found: "trie_lookup (importance_changes data) ?h = Inr (Some (chg ?h))"
    using trie_lookup_ok [OF assms(4)] Cons.prems(4) by simp
  let ?n = "consolidated fl data (chg ?h) n"
  let ?net = "store_node ?n net"
  have step: "consolidate_rent_and_wages fl t (net, data) = Inr (False, (?net, data))"
    using n found
    by (simp add: consolidate_rent_and_wages_def deref_ok Let_def consolidated_def settled_def spreading_rate_def)
  have st: "frame net ?net" "node_map ?net = (node_map net)(?h \<mapsto> ?n)"
    "tokens_to_distribute ?net = tokens_to_distribute net"
    using set_node_ok [OF Cons.prems(1) n] by (simp_all add: consolidated_def Let_def)
  then have "network_ok ?net" "\<forall>t\<in>set ts. node_suffix t \<in> dom (node_map ?net)"
    using Cons.prems(3) by (auto simp: frame_def)
  then obtain net' where net': "visit_all (consolidate_rent_and_wages fl) ts (?net, data) = Inr (net', data)"
    "frame ?net net'" "tokens_to_distribute net' = tokens_to_distribute ?net"
    "node_map net' = (\<lambda>h. if h \<in> node_suffix ` set ts
        then map_option (consolidated fl data (chg h)) (node_map ?net h) else node_map ?net h)"
    using Cons.IH [of ?net] Cons.prems(2,4) by auto
  show ?case
    using step net' st frame_trans [OF st(1) net'(2)] Cons.prems(2) n
    by (intro exI [of _ net']) (auto simp: fun_eq_iff)
qed

section \<open>Spreading\<close>

definition weight :: "(rat \<Rightarrow> rat) \<Rightarrow> hebbian_network \<Rightarrow> string \<Rightarrow> string \<Rightarrow> double" where
  "weight fl net h k = ddiv fl (double_of_uint (link_count net h k)) (double_of_uint (node_count net h))"

definition neighbours_of :: "hebbian_network \<Rightarrow> string \<Rightarrow> string list" where
  "neighbours_of net h = (case node_map net h of None \<Rightarrow> [] | Some n \<Rightarrow> neighbour_list n)"

definition weights :: "(rat \<Rightarrow> rat) \<Rightarrow> hebbian_network \<Rightarrow> string \<Rightarrow> string list \<Rightarrow> double \<Rightarrow> double" where
  "weights fl net h ks acc = fold (\<lambda>k a. dadd fl a (weight fl net h k)) ks acc"

definition share :: "(rat \<Rightarrow> rat) \<Rightarrow> hebbian_network \<Rightarrow> string \<Rightarrow> double \<Rightarrow> string \<Rightarrow> double" where
  "share fl net h s k =
     dmul fl (ddiv fl (weight fl net h k) (weights fl net h (neighbours_of net h) (Fin 0))) s"

definition stimuli_of :: "hebbian_network \<Rightarrow> string \<Rightarrow> double" where
  "stimuli_of net h = (case node_map net h of None \<Rightarrow> Fin 0 | Some n \<Rightarrow> stimuli_to_spread n)"

lemma frame_neighbours:
  assumes "frame net net'" shows "neighbours_of net' h = neighbours_of net h"
proof (cases "node_map net h")
  case None
  with frame_None [OF assms, of h] show ?thesis by (simp add: neighbours_of_def)
next
  case (Some n)
  with assms obtain n' where n': "node_map net' h = Some n'" "strip n' = strip n" by (rule frame_node)
  show ?thesis by (simp add: neighbours_of_def Some n'(1) strip_fields(6) [OF n'(2)])
qed

lemma frame_weight: "frame net net' \<Longrightarrow> weight fl net' h k = weight fl net h k"
  by (simp add: weight_def frame_counts)

lemma frame_share: "frame net net' \<Longrightarrow> share fl net' h s k = share fl net h s k"
  by (simp add: share_def weights_def frame_weight frame_neighbours)

text \<open>The leaves of the edges that leave the node \<open>h\<close>.\<close>

definition edge_leaf :: "hebbian_network \<Rightarrow> string \<Rightarrow> edge trie_node \<Rightarrow> bool" where
  "edge_leaf net h t \<longleftrightarrow> (\<exists>e. node_value t = Some e \<and> edge_node1 e = Some h
     \<and> edge_node2 e = Some (node_suffix t) \<and> edge_count e = link_count net h (node_suffix t))
     \<and> h \<in> dom (node_map net) \<and> node_suffix t \<in> dom (node_map net)"

lemma edge_leaf_weight:
  assumes "edge_leaf net h t"
  obtains e where "node_value t = Some e" "edge_weight fl net e = Inr (weight fl net h (node_suffix t))"
    "edge_node2 e = Some (node_suffix t)"
  using assms by (auto simp: edge_leaf_def edge_weight_def deref_ok weight_def node_count_def)

lemma sum_weights_visits:
  assumes "\<forall>t\<in>set ts. edge_leaf net h t"
  shows "visit_all (sum_weights fl) ts (net, data) =
    Inr (net, data\<lparr>weight_sum := weights fl net h (map node_suffix ts) (weight_sum data)\<rparr>)"
  using assms
proof (induction ts arbitrary: data)
  case Nil
  then show ?case by (simp add: weights_def)
next
  case (Cons t ts)
  then obtain e where "node_value t = Some e" "edge_weight fl net e = Inr (weight fl net h (node_suffix t))"
    using edge_leaf_weight by (metis list.set_intros(1))
  with Cons show ?case by (simp add: sum_weights_def weights_def)
qed

lemma edge_leaf_frame: "edge_leaf net h t \<Longrightarrow> frame net net' \<Longrightarrow> edge_leaf net' h t"
  by (simp add: edge_leaf_def frame_counts frame_dom)

definition delivered :: "(rat \<Rightarrow> rat) \<Rightarrow> double \<Rightarrow> node \<Rightarrow> node" where
  "delivered fl x n = n\<lparr>importance := dadd fl (importance n) x\<rparr>"

lemma deliver_visits:
  assumes "network_ok net" and "\<forall>t\<in>set ts. edge_leaf net h t" and "distinct (map node_suffix ts)"
  shows "\<exists>net'. visit_all (deliver_stimulus fl) ts (net, data) = Inr (net', data)
    \<and> frame net net' \<and> tokens_to_distribute net' = tokens_to_distribute net
    \<and> node_map net' = (\<lambda>k. if k \<in> node_suffix ` set ts
        then map_option (delivered fl (dmul fl (ddiv fl (weight fl net h k) (weight_sum data)) (to_spread data)))
          (node_map net k)
        else node_map net k)"
  using assms
proof (induction ts arbitrary: net)
  case Nil
  then show ?case by (simp add: frame_refl)
next
  case (Cons t ts)
  let ?k = "node_suffix t"
  obtain n where n: "node_map net ?k = Some n" using Cons.prems(2) by (auto simp: edge_leaf_def)
  obtain e where e: "node_value t = Some e" "edge_weight fl net e = Inr (weight fl net h ?k)"
    "edge_node2 e = Some ?k"
    using edge_leaf_weight Cons.prems(2) by (metis list.set_intros(1))
  let ?n = "delivered fl (dmul fl (ddiv fl (weight fl net h ?k) (weight_sum data)) (to_spread data)) n"
  let ?net = "store_node ?n net"
  have step: "deliver_stimulus fl t (net, data) = Inr (False, (?net, data))"
    using n e by (simp add: deliver_stimulus_def deref_ok delivered_def Let_def)
  have n_eq: "?n = n\<lparr>importance := importance ?n, stimuli_to_spread := stimuli_to_spread n\<rparr>"
    by (simp add: delivered_def)
  have st: "frame net ?net" "node_map ?net = (node_map net)(?k \<mapsto> ?n)"
    "tokens_to_distribute ?net = tokens_to_distribute net"
    using set_node_ok [OF Cons.prems(1) n, where x = "importance ?n" and y = "stimuli_to_spread n"]
    unfolding n_eq [symmetric] by simp_all
  have "network_ok ?net" "\<forall>t\<in>set ts. edge_leaf ?net h t"
    using st(1) Cons.prems(2) edge_leaf_frame by (auto simp: frame_def)
  then obtain net' where net': "visit_all (deliver_stimulus fl) ts (?net, data) = Inr (net', data)"
    "frame ?net net'" "tokens_to_distribute net' = tokens_to_distribute ?net"
    "node_map net' = (\<lambda>k. if k \<in> node_suffix ` set ts
        then map_option (delivered fl (dmul fl (ddiv fl (weight fl ?net h k) (weight_sum data)) (to_spread data)))
          (node_map ?net k)
        else node_map ?net k)"
    using Cons.IH [of ?net] Cons.prems(3) by auto
  show ?case
    using step net' st frame_trans [OF st(1) net'(2)] frame_weight [OF st(1)] Cons.prems(3) n
    by (intro exI [of _ net']) (auto simp: fun_eq_iff)
qed

text \<open>One node: every neighbour gets its share, once, and the node has nothing left to spread.\<close>

lemma consolidate_stimulus_visit:
  assumes net: "network_ok net" and h: "node_map net (node_suffix t) = Some n"
  shows "\<exists>net' data'. consolidate_stimulus fl t (net, data) = Inr (False, (net', data'))
    \<and> frame net net' \<and> tokens_to_distribute net' = tokens_to_distribute net
    \<and> (\<forall>k. importance_of net' k = (if k \<in> set (neighbours_of net (node_suffix t))
          then dadd fl (importance_of net k) (share fl net (node_suffix t) (stimuli_to_spread n) k)
          else importance_of net k))
    \<and> (\<forall>k. stimuli_of net' k = (if k = node_suffix t then Fin 0 else stimuli_of net k))"
proof -
  let ?h = "node_suffix t"
  let ?ts = "leaf_of (neighbors n)"
  have n_ok: "node_ok net ?h n" using net h by (simp add: network_ok_def)
  then have nb: "handles_ok (neighbors n)" by (simp add: node_ok_def)
  note leaf = leaf_of_entries [OF nb]
  have ks: "map node_suffix ?ts = neighbours_of net ?h"
    using leaf(1) h by (simp add: neighbours_of_def neighbour_list_def)
  have edges: "\<forall>l\<in>set ?ts. edge_leaf net ?h l"
  proof
    fix l assume l: "l \<in> set ?ts"
    then obtain e where e: "node_value l = Some e" "edge_map n (node_suffix l) = Some e"
      using leaf(2) by (auto simp: edge_map_def)
    then have "edge_ok net ?h (node_suffix l) e" using n_ok by (simp add: node_ok_def)
    with e h show "edge_leaf net ?h l" by (auto simp: edge_leaf_def edge_ok_def link_count_def)
  qed
  let ?W = "weights fl net ?h (neighbours_of net ?h) (Fin 0)"
  let ?data = "data\<lparr>to_spread := stimuli_to_spread n, weight_sum := ?W\<rparr>"
  have sum: "trie_traverse (sum_weights fl) (neighbors n)
      (net, data\<lparr>to_spread := stimuli_to_spread n, weight_sum := Fin 0\<rparr>) = Inr (net, ?data)"
    using sum_weights_visits [OF edges] by (simp add: trie_traverse_leaves leaf_of_def [symmetric] ks)
  obtain net1 where d: "trie_traverse (deliver_stimulus fl) (neighbors n) (net, ?data) = Inr (net1, ?data)"
    "frame net net1" "tokens_to_distribute net1 = tokens_to_distribute net"
    "node_map net1 = (\<lambda>k. if k \<in> node_suffix ` set ?ts
        then map_option (delivered fl (dmul fl (ddiv fl (weight fl net ?h k) (weight_sum ?data)) (to_spread ?data)))
          (node_map net k)
        else node_map net k)"
    using deliver_visits [OF net edges leaf(3), of fl ?data]
    unfolding trie_traverse_leaves leaf_of_def [symmetric] by blast
  have mem: "k \<in> node_suffix ` set ?ts \<longleftrightarrow> k \<in> set (neighbours_of net ?h)" for k
    unfolding ks [symmetric] by simp
  have dom_k: "k \<in> dom (node_map net)" if "k \<in> set (neighbours_of net ?h)" for k
  proof -
    from that have "k \<in> node_suffix ` set ?ts" by (simp only: mem)
    then obtain l where l: "l \<in> set ?ts" "k = node_suffix l" by blast
    then have "edge_leaf net ?h l" using edges by blast
    then show ?thesis unfolding edge_leaf_def l(2) by blast
  qed
  obtain n1 where n1: "node_map net1 ?h = Some n1" using frame_node [OF d(2) h] by blast
  let ?n = "n1\<lparr>stimuli_to_spread := Fin 0\<rparr>"
  let ?net = "store_node ?n net1"
  have res: "consolidate_stimulus fl t (net, data) = Inr (False, (?net, ?data))"
    using h sum d(1) n1 by (simp add: consolidate_stimulus_def deref_ok Let_def)
  have "network_ok net1" using d(2) by (simp add: frame_def)
  note st = set_node_ok [OF this n1, where x = "importance n1" and y = "Fin 0"]
  have eq: "n1\<lparr>importance := importance n1, stimuli_to_spread := Fin 0\<rparr> = ?n" by simp
  note st = st [unfolded eq]
  have "importance_of ?net k = importance_of net1 k" for k
    using st(2) n1 by (simp add: importance_of_def)
  moreover have "importance_of net1 k = (if k \<in> set (neighbours_of net ?h)
      then dadd fl (importance_of net k) (share fl net ?h (stimuli_to_spread n) k) else importance_of net k)" for k
    using d(4) dom_k [of k] mem [of k] by (auto simp: importance_of_def share_def delivered_def)
  moreover have "stimuli_of net1 k = stimuli_of net k" for k
    using d(4) by (auto simp: stimuli_of_def delivered_def split: option.split)
  then have "stimuli_of ?net k = (if k = ?h then Fin 0 else stimuli_of net k)" for k
    using st(2) n1 by (auto simp: stimuli_of_def)
  ultimately show ?thesis
    using res frame_trans [OF d(2) st(1)] st(3) d(3) by (intro exI [of _ ?net] exI [of _ ?data]) simp
qed

definition received :: "(rat \<Rightarrow> rat) \<Rightarrow> hebbian_network \<Rightarrow> string list \<Rightarrow> (string \<Rightarrow> double) \<Rightarrow> string
    \<Rightarrow> double \<Rightarrow> double" where
  "received fl net hs s k acc =
     fold (\<lambda>h a. if k \<in> set (neighbours_of net h) then dadd fl a (share fl net h (s h) k) else a) hs acc"

lemma received_cong:
  "frame net net' \<Longrightarrow> (\<And>h. h \<in> set hs \<Longrightarrow> s h = s' h) \<Longrightarrow>
    received fl net' hs s k acc = received fl net hs s' k acc"
  unfolding received_def by (rule fold_cong) (simp_all add: fun_eq_iff frame_neighbours frame_share)

lemma consolidate_stimulus_visits:
  assumes "network_ok net" and "distinct (map node_suffix ts)"
    and "\<forall>t\<in>set ts. node_suffix t \<in> dom (node_map net)"
  shows "\<exists>net' data'. visit_all (consolidate_stimulus fl) ts (net, data) = Inr (net', data')
    \<and> frame net net' \<and> tokens_to_distribute net' = tokens_to_distribute net
    \<and> (\<forall>k. importance_of net' k
        = received fl net (map node_suffix ts) (stimuli_of net) k (importance_of net k))
    \<and> (\<forall>k. stimuli_of net' k = (if k \<in> node_suffix ` set ts then Fin 0 else stimuli_of net k))"
  using assms
proof (induction ts arbitrary: net data)
  case Nil
  then show ?case by (simp add: frame_refl received_def)
next
  case (Cons t ts)
  let ?h = "node_suffix t"
  obtain n where n: "node_map net ?h = Some n" using Cons.prems(3) by auto
  then have s: "stimuli_to_spread n = stimuli_of net ?h" by (simp add: stimuli_of_def)
  obtain net1 data1 where 1: "consolidate_stimulus fl t (net, data) = Inr (False, (net1, data1))"
    "frame net net1" "tokens_to_distribute net1 = tokens_to_distribute net"
    "\<forall>k. importance_of net1 k = (if k \<in> set (neighbours_of net ?h)
          then dadd fl (importance_of net k) (share fl net ?h (stimuli_of net ?h) k)
          else importance_of net k)"
    "\<forall>k. stimuli_of net1 k = (if k = ?h then Fin 0 else stimuli_of net k)"
    using consolidate_stimulus_visit [OF Cons.prems(1) n, of fl data] unfolding s by blast
  have "network_ok net1" "\<forall>t\<in>set ts. node_suffix t \<in> dom (node_map net1)"
    using 1(2) Cons.prems(3) by (simp_all add: frame_def frame_dom [OF 1(2)])
  then obtain net2 data2 where 2: "visit_all (consolidate_stimulus fl) ts (net1, data1) = Inr (net2, data2)"
    "frame net1 net2" "tokens_to_distribute net2 = tokens_to_distribute net1"
    "\<forall>k. importance_of net2 k
        = received fl net1 (map node_suffix ts) (stimuli_of net1) k (importance_of net1 k)"
    "\<forall>k. stimuli_of net2 k = (if k \<in> node_suffix ` set ts then Fin 0 else stimuli_of net1 k)"
    using Cons.IH [of net1 data1] Cons.prems(2) by auto
  have "stimuli_of net1 h = stimuli_of net h" if "h \<in> set (map node_suffix ts)" for h
  proof -
    have "h \<noteq> ?h" using that Cons.prems(2) by (simp only: list.map distinct.simps) blast
    with 1(5) show ?thesis by simp
  qed
  then have "received fl net1 (map node_suffix ts) (stimuli_of net1) k acc
      = received fl net (map node_suffix ts) (stimuli_of net) k acc" for k acc
    using received_cong [OF 1(2)] by blast
  then have "importance_of net2 k
      = received fl net (map node_suffix (t # ts)) (stimuli_of net) k (importance_of net k)" for k
    using 2(4) 1(4) by (simp add: received_def)
  then show ?case
    using 1 2 frame_trans [OF 1(2) 2(2)] by (intro exI [of _ net2] exI [of _ data2]) auto
qed

end
