(* ===== verification/Spreader_Correct.thy ===== *)
theory Spreader_Correct
  imports Spreader_Steps
begin

text \<open>
  The result of \<open>spread_stimuli\<close> as a function of the network and the request, for any rounding; and
  what follows from it: when every importance stays finite and non-negative, when every one becomes
  NaN, and the balance of the tokens in exact arithmetic.
\<close>

section \<open>The importance of each node after a request\<close>

definition arity_of :: "hebbian_network \<Rightarrow> string \<Rightarrow> u32" where
  "arity_of net h = (case node_map net h of None \<Rightarrow> 0 | Some n \<Rightarrow> arity n)"

text \<open>The tokens that are paid as wages.\<close>

definition token_pool :: "(rat \<Rightarrow> rat) \<Rightarrow> hebbian_network \<Rightarrow> double" where
  "token_pool fl net = dadd fl (tokens_to_distribute net) (rents fl (RENT_RATE fl) net (node_list net) (Fin 0))"

definition total_wages :: "handle_count \<Rightarrow> u32" where
  "total_wages req = the (map_of req ''SUM'')"

definition change :: "(rat \<Rightarrow> rat) \<Rightarrow> handle_count \<Rightarrow> hebbian_network \<Rightarrow> string \<Rightarrow> importance_change" where
  "change fl req net h =
     (let c = \<lparr>rent = dmul fl (RENT_RATE fl) (importance_of net h), wages = Fin 0\<rparr>
      in case map_of req h of None \<Rightarrow> c
         | Some w \<Rightarrow> merge_changes fl c \<lparr>rent = Fin 0, wages = wage fl (total_wages req) (token_pool fl net) w\<rparr>)"

definition paid :: "(rat \<Rightarrow> rat) \<Rightarrow> handle_count \<Rightarrow> hebbian_network \<Rightarrow> string \<Rightarrow> double" where
  "paid fl req net h = settled fl (change fl req net h) (importance_of net h)"

definition rate :: "(rat \<Rightarrow> rat) \<Rightarrow> hebbian_network \<Rightarrow> string \<Rightarrow> double" where
  "rate fl net h =
     dadd fl (SPREADING_RATE_LOWERBOUND fl)
       (dmul fl (dsub fl (SPREADING_RATE_UPPERBOUND fl) (SPREADING_RATE_LOWERBOUND fl))
         (ddiv fl (double_of_uint (arity_of net h)) (double_of_uint (largest_arity net))))"

definition outgoing :: "(rat \<Rightarrow> rat) \<Rightarrow> handle_count \<Rightarrow> hebbian_network \<Rightarrow> string \<Rightarrow> double" where
  "outgoing fl req net h = dmul fl (paid fl req net h) (rate fl net h)"

definition kept :: "(rat \<Rightarrow> rat) \<Rightarrow> handle_count \<Rightarrow> hebbian_network \<Rightarrow> string \<Rightarrow> double" where
  "kept fl req net h = dsub fl (paid fl req net h) (outgoing fl req net h)"

definition final_importance :: "(rat \<Rightarrow> rat) \<Rightarrow> handle_count \<Rightarrow> hebbian_network \<Rightarrow> string \<Rightarrow> double" where
  "final_importance fl req net k =
     received fl net (node_list net) (outgoing fl req net) k (kept fl req net k)"

lemma visit_nodes_leaves: "visit_nodes visit net s = visit_all visit (leaf_of (nodes net)) s"
  by (simp add: visit_nodes_def trie_traverse_leaves leaf_of_def)

lemma node_leaves:
  assumes "network_ok net"
  shows "map node_suffix (leaf_of (nodes net)) = node_list net"
    and "distinct (map node_suffix (leaf_of (nodes net)))"
    and "\<forall>t\<in>set (leaf_of (nodes net)). node_suffix t \<in> dom (node_map net)"
    and "node_suffix ` set (leaf_of (nodes net)) = dom (node_map net)"
proof -
  have ok: "handles_ok (nodes net)" using assms by (simp add: network_ok_def)
  show m: "map node_suffix (leaf_of (nodes net)) = node_list net"
    using leaf_of_entries(1) [OF ok] by (simp add: node_list_def)
  show "distinct (map node_suffix (leaf_of (nodes net)))" by (rule leaf_of_entries(3) [OF ok])
  show "\<forall>t\<in>set (leaf_of (nodes net)). node_suffix t \<in> dom (node_map net)"
    using leaf_of_entries(2) [OF ok] by (simp add: node_map_def)
  show "node_suffix ` set (leaf_of (nodes net)) = dom (node_map net)"
    using arg_cong [OF m, of set] node_list_ok(2) [OF assms] by simp
qed

lemma frame_alienate: "network_ok net \<Longrightarrow> frame net (net\<lparr>tokens_to_distribute := t\<rparr>)"
  by (simp add: frame_def network_ok_def node_ok_def edge_ok_def node_list_def)

lemma spread_stimuli_steps:
  assumes net: "network_ok net" and req: "request_ok req"
  shows "\<exists>net'. spread_stimuli fl req (Some net) = Inr (Some net') \<and> frame net net'
    \<and> tokens_to_distribute net' = Fin 0
    \<and> (\<forall>h\<in>dom (node_map net). importance_of net' h = final_importance fl req net h
        \<and> stimuli_of net' h = Fin 0)"
proof -
  obtain m0 :: "importance_change handle_trie" where m0: "new_HandleTrie 32 = Inr m0" "handles_ok m0"
    "trie_map m0 = (\<lambda>_. None)"
    using new_handle_trie_ok by blast
  let ?d0 = "init_data fl net m0"
  have d0: "rent_rate ?d0 = RENT_RATE fl" "importance_changes ?d0 = m0" "total_rent ?d0 = Fin 0"
    by (simp_all add: init_data_def)
  obtain m1 where m1: "visit_nodes (collect_rent fl) net (net, ?d0) = Inr (net, ?d0\<lparr>importance_changes := m1,
        total_rent := rents fl (RENT_RATE fl) net (node_list net) (Fin 0)\<rparr>)" "handles_ok m1"
    "trie_map m1 = (\<lambda>h. if h \<in> dom (node_map net)
        then Some \<lparr>rent = dmul fl (RENT_RATE fl) (importance_of net h), wages = Fin 0\<rparr> else None)"
    using collect_rent_visits [OF net node_leaves(2,3) [OF net], of ?d0 fl] m0(2)
    unfolding visit_nodes_leaves d0 node_leaves(1,4) [OF net] m0(3) by auto
  let ?net1 = "net\<lparr>tokens_to_distribute := Fin 0\<rparr>"
  let ?d1 = "?d0\<lparr>importance_changes := m1,
        total_rent := rents fl (RENT_RATE fl) net (node_list net) (Fin 0)\<rparr>"
  have fr1: "frame net ?net1" using frame_alienate [OF net] .
  obtain tw where tw: "map_of req ''SUM'' = Some tw"
    using req by (auto simp: request_ok_def dest: weak_map_of_SomeI)
  have req': "distinct (map fst req)" "\<forall>p\<in>set req. fst p = ''SUM'' \<or> valid_handle (fst p)"
    using req by (simp_all add: request_ok_def)
  have d1: "importance_changes ?d1 = m1" by simp
  obtain m2 where m2: "distribute_wages fl req (token_pool fl net) ?d1 = Inr (?d1\<lparr>importance_changes := m2\<rparr>)"
    "handles_ok m2"
    "\<forall>h. valid_handle h \<longrightarrow> trie_map m2 h = (case map_of req h of
          None \<Rightarrow> trie_map m1 h
        | Some c \<Rightarrow> Some (combined (merge_changes fl) (trie_map m1 h)
            \<lparr>rent = Fin 0, wages = wage fl tw (token_pool fl net) c\<rparr>))"
    using pay_wages_loop [OF req', of ?d1 fl tw "token_pool fl net", unfolded d1, OF m1(2)]
    unfolding distribute_wages_def tw option.case by blast
  let ?d2 = "?d1\<lparr>importance_changes := m2\<rparr>"
  have ch: "trie_map m2 h = Some (change fl req net h)" if h: "h \<in> dom (node_map net)" for h
    using m2(3) [rule_format, OF valid_node [OF net h]] m1(3) h
    by (simp add: change_def total_wages_def tw Let_def split: option.split)
  have net1: "network_ok ?net1" using fr1 by (simp add: frame_def)
  have d2: "importance_changes ?d2 = m2" by simp
  have ch2: "\<forall>t\<in>set (leaf_of (nodes ?net1)). trie_map m2 (node_suffix t) = Some (change fl req net (node_suffix t))"
    using node_leaves(3) [OF net1] ch by simp
  have t1: "tokens_to_distribute ?net1 = Fin 0" by simp
  obtain net2 where n2: "visit_nodes (consolidate_rent_and_wages fl) ?net1 (?net1, ?d2) = Inr (net2, ?d2)"
    "frame ?net1 net2" "tokens_to_distribute net2 = Fin 0"
    "node_map net2 = (\<lambda>h. if h \<in> dom (node_map net)
        then map_option (consolidated fl ?d2 (change fl req net h)) (node_map net h) else node_map net h)"
    using consolidate_visits [OF net1 node_leaves(2,3) [OF net1], of ?d2 "change fl req net" fl,
        unfolded d2, OF m2(2) ch2]
    unfolding visit_nodes_leaves node_leaves(4) [OF net1] node_map_update t1 by blast
  have net2: "network_ok net2" using n2(2) by (simp add: frame_def)
  have fr2: "frame net net2" by (rule frame_trans [OF fr1 n2(2)])
  have rate: "spreading_rate fl ?d2 (arity n) = rate fl net h" if "node_map net h = Some n" for h n
    using that by (simp add: spreading_rate_def rate_def init_data_def arity_of_def)
  have st2: "importance_of net2 h = kept fl req net h \<and> stimuli_of net2 h = outgoing fl req net h"
    if h: "h \<in> dom (node_map net)" for h
  proof -
    obtain n where n: "node_map net h = Some n" using h by blast
    show ?thesis
      using n2(4) n domI [of "node_map net", OF n] rate [OF n]
      by (simp add: importance_of_def stimuli_of_def consolidated_def kept_def outgoing_def paid_def Let_def)
  qed
  obtain net3 d3 where n3: "visit_nodes (consolidate_stimulus fl) net2 (net2, ?d2) = Inr (net3, d3)"
    "frame net2 net3" "tokens_to_distribute net3 = tokens_to_distribute net2"
    "\<forall>k. importance_of net3 k = received fl net2 (node_list net2) (stimuli_of net2) k (importance_of net2 k)"
    "\<forall>k. stimuli_of net3 k = (if k \<in> dom (node_map net2) then Fin 0 else stimuli_of net2 k)"
    using consolidate_stimulus_visits [OF net2 node_leaves(2,3) [OF net2], of fl ?d2]
    unfolding visit_nodes_leaves node_leaves(1,4) [OF net2] by blast
  have nl: "node_list net2 = node_list net" using fr2 by (simp add: frame_def)
  have "received fl net2 (node_list net2) (stimuli_of net2) k acc
      = received fl net (node_list net) (outgoing fl req net) k acc" for k acc
    unfolding nl by (rule received_cong [OF fr2]) (use st2 node_list_ok(2) [OF net] in simp)
  then have "importance_of net3 h = final_importance fl req net h \<and> stimuli_of net3 h = Fin 0"
    if "h \<in> dom (node_map net)" for h
    using n3(4,5) st2 [OF that] that frame_dom [OF fr2] by (simp add: final_importance_def)
  moreover have "spread_stimuli fl req (Some net) = Inr (Some net3)"
    using m0(1) m1(1) m2(1) n2(1) n3(1)
    by (simp add: spread_stimuli_def alienate_tokens_def Let_def token_pool_def)
  ultimately show ?thesis
    using frame_trans [OF fr2 n3(2)] n2(3) n3(3) by (intro exI [of _ net3]) simp
qed

lemma get_node_importance_ok:
  assumes "network_ok net" "valid_handle h"
  shows "get_node_importance h net = Inr (importance_of net h)"
  using assms trie_lookup_ok [of 32 hex_digits "nodes net" h]
  by (simp add: get_node_importance_def network_ok_def node_map_def importance_of_def)

section \<open>NaN\<close>

lemma received_NaN [simp]: "received fl net hs s k NaN = NaN"
  by (induction hs) (simp_all add: received_def)

lemma rate_NaN:
  assumes "network_ok net" "largest_arity net = 0" shows "rate fl net h = NaN"
proof -
  have "arity_of net h = 0"
    using assms by (auto simp: arity_of_def network_ok_def node_ok_def split: option.split)
  then show ?thesis using assms(2) by (simp add: rate_def double_of_uint_def)
qed

lemma final_importance_NaN:
  "network_ok net \<Longrightarrow> largest_arity net = 0 \<Longrightarrow> final_importance fl req net h = NaN"
  by (simp add: final_importance_def kept_def outgoing_def rate_NaN)

section \<open>Finite and non-negative values\<close>

definition nonneg :: "double \<Rightarrow> bool" where
  "nonneg d \<longleftrightarrow> (\<exists>x. d = Fin x \<and> 0 \<le> x)"

definition amount_ok :: "(rat \<Rightarrow> rat) \<Rightarrow> double \<Rightarrow> bool" where
  "amount_ok fl d \<longleftrightarrow> (\<exists>x. d = Fin x \<and> 0 \<le> x \<and> fl x = x)"

text \<open>
  Every importance, and the tokens of the network, are finite, non-negative and representable; the
  counts that are divided by are positive.
\<close>

definition amounts_ok :: "(rat \<Rightarrow> rat) \<Rightarrow> hebbian_network \<Rightarrow> bool" where
  "amounts_ok fl net \<longleftrightarrow> amount_ok fl (tokens_to_distribute net)
     \<and> (\<forall>h\<in>dom (node_map net). amount_ok fl (importance_of net h))"

definition counts_positive :: "hebbian_network \<Rightarrow> bool" where
  "counts_positive net \<longleftrightarrow> 0 < largest_arity net
     \<and> (\<forall>h k. k \<in> set (neighbours_of net h) \<longrightarrow> 0 < link_count net h k \<and> 0 < node_count net h)"

lemma nonneg_uint [simp]: "nonneg (double_of_uint w)"
  by (simp add: nonneg_def double_of_uint_def)

lemma nonneg_Fin0 [simp]: "nonneg (Fin 0)"
  by (simp add: nonneg_def)

context rounding
begin

lemma amount_nonneg: "amount_ok fl d \<Longrightarrow> nonneg d"
  by (auto simp: amount_ok_def nonneg_def)

lemma amount_Fin0 [simp]: "amount_ok fl (Fin 0)"
  by (simp add: amount_ok_def fl_zero)

lemma amount_dadd: "nonneg a \<Longrightarrow> nonneg b \<Longrightarrow> amount_ok fl (dadd fl a b)"
  by (auto simp: amount_ok_def nonneg_def fl_nonneg fl_idem)

lemma amount_dmul: "nonneg a \<Longrightarrow> nonneg b \<Longrightarrow> amount_ok fl (dmul fl a b)"
  by (auto simp: amount_ok_def nonneg_def fl_nonneg fl_idem)

lemma amount_ddiv: "nonneg a \<Longrightarrow> 0 < b \<Longrightarrow> amount_ok fl (ddiv fl a (Fin b))"
  by (auto simp: amount_ok_def nonneg_def fl_nonneg fl_idem)

lemma amount_dadd_0: "amount_ok fl a \<Longrightarrow> dadd fl a (Fin 0) = a \<and> dadd fl (Fin 0) a = a"
  by (auto simp: amount_ok_def)

text \<open>A share of an amount, and what is left of it.\<close>

lemma amount_share:
  assumes "amount_ok fl d" "0 \<le> r" "r \<le> 1"
  shows "amount_ok fl (dmul fl (Fin r) d)" "amount_ok fl (dmul fl d (Fin r))"
    "amount_ok fl (dsub fl d (dmul fl (Fin r) d))" "amount_ok fl (dsub fl d (dmul fl d (Fin r)))"
  using assms fl_share by (auto simp: amount_ok_def fl_idem mult.commute)

lemma rate_unit:
  assumes "network_ok net" "0 < largest_arity net"
  shows "\<exists>r. rate fl net h = Fin r \<and> 0 \<le> r \<and> r \<le> 1"
proof -
  let ?lo = "fl (1 / 100)" and ?up = "fl (10 / 100)"
  let ?a = "of_nat (unat (arity_of net h)) / of_nat (unat (largest_arity net)) :: rat"
  have "arity_of net h \<le> largest_arity net"
    using assms(1) by (auto simp: arity_of_def network_ok_def node_ok_def split: option.split)
  then have a: "0 \<le> ?a" "?a \<le> 1"
    using assms(2) by (simp_all add: divide_le_eq_1)
  have lo: "0 \<le> ?lo" "?lo \<le> 1 / 2" and up: "?lo \<le> ?up" "?up \<le> 1 / 2"
    using fl_le_representable [OF _ fl_half, of "1 / 100"] fl_le_representable [OF _ fl_half, of "10 / 100"]
    by (simp_all add: fl_nonneg fl_mono)
  let ?range = "fl (?up - ?lo)"
  have range: "0 \<le> ?range" "?range \<le> 1 / 2"
  proof -
    have "?up - ?lo \<le> 1 / 2" using lo up by linarith
    then show "?range \<le> 1 / 2" by (rule fl_le_representable [OF _ fl_half])
  qed (use up in \<open>simp add: fl_nonneg\<close>)
  have fa: "0 \<le> fl ?a" "fl ?a \<le> 1" using fl_unit_interval a by blast+
  have part: "0 \<le> fl (?range * fl ?a)" "fl (?range * fl ?a) \<le> 1 / 2"
  proof -
    show "0 \<le> fl (?range * fl ?a)" using range(1) fa(1) by (intro fl_nonneg) simp
    have "?range * fl ?a \<le> ?range" using range(1) fa by (intro mult_right_le_one_le) simp_all
    with range(2) have "?range * fl ?a \<le> 1 / 2" by linarith
    then show "fl (?range * fl ?a) \<le> 1 / 2" by (rule fl_le_representable [OF _ fl_half])
  qed
  have "0 \<le> fl (?lo + fl (?range * fl ?a))" "fl (?lo + fl (?range * fl ?a)) \<le> 1"
    using lo part fl_le_representable [OF _ fl_one, of "?lo + fl (?range * fl ?a)"]
    by (simp_all add: fl_nonneg)
  moreover have "rate fl net h = Fin (fl (?lo + fl (?range * fl ?a)))"
    using assms(2) by (simp add: rate_def SPREADING_RATE_LOWERBOUND_def SPREADING_RATE_UPPERBOUND_def
        double_of_uint_def)
  ultimately show ?thesis by blast
qed

lemma RENT_RATE_unit: "\<exists>r. RENT_RATE fl = Fin r \<and> 0 \<le> r \<and> r \<le> 1"
  using fl_unit_interval [of "1 / 10"] by (simp add: RENT_RATE_def)

lemma amount_pool:
  assumes "amounts_ok fl net" "set hs \<subseteq> dom (node_map net)" "amount_ok fl acc"
  shows "amount_ok fl (rents fl (RENT_RATE fl) net hs acc)"
  using assms(2,3)
proof (induction hs arbitrary: acc)
  case Nil
  then show ?case by (simp add: rents_def)
next
  case (Cons h hs)
  obtain r where "RENT_RATE fl = Fin r" "0 \<le> r" "r \<le> 1" using RENT_RATE_unit by blast
  then have "amount_ok fl (dmul fl (RENT_RATE fl) (importance_of net h))"
    using assms(1) Cons.prems(1) amount_share(1) by (simp add: amounts_ok_def)
  then have "amount_ok fl (dadd fl acc (dmul fl (RENT_RATE fl) (importance_of net h)))"
    using Cons.prems(2) by (intro amount_dadd amount_nonneg)
  with Cons show ?case by (simp add: rents_def)
qed

lemma amount_paid:
  assumes net: "network_ok net" "amounts_ok fl net" and req: "0 < total_wages req"
    and h: "h \<in> dom (node_map net)"
  shows "amount_ok fl (paid fl req net h)"
proof -
  obtain r where r: "RENT_RATE fl = Fin r" "0 \<le> r" "r \<le> 1" using RENT_RATE_unit by blast
  have imp: "amount_ok fl (importance_of net h)" using net(2) h by (simp add: amounts_ok_def)
  let ?rent = "dmul fl (RENT_RATE fl) (importance_of net h)"
  have left: "amount_ok fl (dsub fl (importance_of net h) ?rent)" "amount_ok fl ?rent"
    using amount_share(3,1) [OF imp r(2,3)] r(1) by simp_all
  have "amount_ok fl (rents fl (RENT_RATE fl) net (node_list net) (Fin 0))"
    using net node_list_ok(2) [OF net(1)] by (intro amount_pool) simp_all
  then have "amount_ok fl (token_pool fl net)"
    unfolding token_pool_def using net(2) by (intro amount_dadd) (simp_all add: amounts_ok_def amount_nonneg)
  then have w: "amount_ok fl (wage fl (total_wages req) (token_pool fl net) c)" for c
  proof -
    have "amount_ok fl (dmul fl (double_of_uint c) (token_pool fl net))"
      using \<open>amount_ok fl (token_pool fl net)\<close> by (intro amount_dmul amount_nonneg nonneg_uint)
    from amount_ddiv [OF amount_nonneg [OF this], of "unsigned (total_wages req)"] req
    show ?thesis by (simp add: wage_def double_of_uint_def)
  qed
  show ?thesis
  proof (cases "map_of req h")
    case None
    then show ?thesis
      using left amount_dadd_0 by (simp add: paid_def settled_def change_def Let_def)
  next
    case (Some c)
    have "rent (change fl req net h) = ?rent"
      "wages (change fl req net h) = wage fl (total_wages req) (token_pool fl net) c"
      using Some amount_dadd_0 left(2) w by (simp_all add: change_def merge_changes_def Let_def)
    then show ?thesis
      using left(1) w by (simp add: paid_def settled_def amount_dadd amount_nonneg)
  qed
qed

lemma amount_received:
  assumes "\<forall>h\<in>set hs. k \<in> set (neighbours_of net h) \<longrightarrow> amount_ok fl (share fl net h (s h) k)"
    and "amount_ok fl acc"
  shows "amount_ok fl (received fl net hs s k acc)"
  using assms
proof (induction hs arbitrary: acc)
  case Nil
  then show ?case by (simp add: received_def)
next
  case (Cons h hs)
  then show ?case
    using amount_dadd [OF amount_nonneg amount_nonneg, of acc "share fl net h (s h) k"]
    by (simp add: received_def)
qed

lemma weights_pos:
  assumes "\<forall>k\<in>set ks. 0 < link_count net h k \<and> 0 < node_count net h" and "0 \<le> x" "ks \<noteq> [] \<or> 0 < x"
  shows "\<exists>y. weights fl net h ks (Fin x) = Fin y \<and> 0 < y"
  using assms
proof (induction ks arbitrary: x)
  case Nil
  then show ?case by (simp add: weights_def)
next
  case (Cons k ks)
  let ?w = "fl (unsigned (link_count net h k) / unsigned (node_count net h))"
  have "0 < ?w" using Cons.prems(1) by (intro fl_pos) simp
  then have "0 < fl (x + ?w)" using Cons.prems(2) by (intro fl_pos) simp
  moreover have "weight fl net h k = Fin ?w"
    using Cons.prems(1) by (auto simp: weight_def double_of_uint_def)
  ultimately show ?case using Cons.IH [of "fl (x + ?w)"] Cons.prems(1) by (simp add: weights_def)
qed

lemma amount_share_of:
  assumes "counts_positive net" "k \<in> set (neighbours_of net h)" "amount_ok fl s"
  shows "amount_ok fl (share fl net h s k)"
proof -
  have p: "\<forall>k\<in>set (neighbours_of net h). 0 < link_count net h k \<and> 0 < node_count net h"
    using assms(1) by (simp add: counts_positive_def)
  obtain y where y: "weights fl net h (neighbours_of net h) (Fin 0) = Fin y" "0 < y"
    using weights_pos [OF p, of 0] assms(2) by (cases "neighbours_of net h") auto
  have "0 < node_count net h" using p assms(2) by blast
  then have "amount_ok fl (weight fl net h k)"
    unfolding weight_def by (subst (2) double_of_uint_def) (intro amount_ddiv, simp_all)
  then have "amount_ok fl (ddiv fl (weight fl net h k) (Fin y))"
    using y(2) by (intro amount_ddiv amount_nonneg)
  then show ?thesis unfolding share_def y(1) using assms(3) by (intro amount_dmul amount_nonneg)
qed

lemma final_importance_amount:
  assumes "network_ok net" "amounts_ok fl net" "counts_positive net" "0 < total_wages req"
    and k: "k \<in> dom (node_map net)"
  shows "amount_ok fl (final_importance fl req net k)"
proof -
  have out: "amount_ok fl (outgoing fl req net h) \<and> amount_ok fl (kept fl req net h)"
    if h: "h \<in> dom (node_map net)" for h
  proof -
    obtain r where r: "rate fl net h = Fin r" "0 \<le> r" "r \<le> 1"
      using rate_unit [OF assms(1), of h] assms(3) by (auto simp: counts_positive_def)
    have "amount_ok fl (paid fl req net h)" by (rule amount_paid [OF assms(1,2,4) h])
    from amount_share(2,4) [OF this r(2,3)] show ?thesis by (simp add: outgoing_def kept_def r(1))
  qed
  show ?thesis
    unfolding final_importance_def
    using out k node_list_ok(2) [OF assms(1)] amount_share_of [OF assms(3)]
    by (intro amount_received) auto
qed

end

section \<open>The balance of the tokens in exact arithmetic\<close>

fun val :: "double \<Rightarrow> rat" where
  "val (Fin x) = x"
| "val d = 0"

definition total_importance :: "hebbian_network \<Rightarrow> rat" where
  "total_importance net = (\<Sum>h\<in>dom (node_map net). val (importance_of net h))"

definition wage_paid :: "handle_count \<Rightarrow> hebbian_network \<Rightarrow> string \<Rightarrow> rat" where
  "wage_paid req net h = (case map_of req h of None \<Rightarrow> 0
     | Some c \<Rightarrow> val (wage exact (total_wages req) (token_pool exact net) c))"

definition Fin_val :: "double \<Rightarrow> bool" where
  "Fin_val d \<longleftrightarrow> d = Fin (val d)"

lemma Fin_val_simps [simp]: "Fin_val (Fin x)"
  by (simp add: Fin_val_def)

lemma exact_ops:
  assumes "Fin_val a" "Fin_val b"
  shows "Fin_val (dadd exact a b)" "val (dadd exact a b) = val a + val b"
    "Fin_val (dsub exact a b)" "val (dsub exact a b) = val a - val b"
    "Fin_val (dmul exact a b)" "val (dmul exact a b) = val a * val b"
    "val b \<noteq> 0 \<Longrightarrow> Fin_val (ddiv exact a b)" "val b \<noteq> 0 \<Longrightarrow> val (ddiv exact a b) = val a / val b"
  using assms by (cases a; cases b; simp add: Fin_val_def exact_def)+

lemma Fin_val_amount: "amount_ok exact d \<Longrightarrow> Fin_val d"
  by (auto simp: amount_ok_def)

lemma val_uint [simp]: "Fin_val (double_of_uint w)" "val (double_of_uint w) = unsigned w"
  by (simp_all add: double_of_uint_def)

lemma exact_rents:
  assumes "\<forall>h\<in>set hs. Fin_val (importance_of net h)" "Fin_val acc"
  shows "Fin_val (rents exact (RENT_RATE exact) net hs acc) \<and> val (rents exact (RENT_RATE exact) net hs acc)
    = val acc + (\<Sum>h\<leftarrow>hs. val (importance_of net h)) / 10"
  using assms
proof (induction hs arbitrary: acc)
  case Nil
  then show ?case by (simp add: rents_def)
next
  case (Cons h hs)
  let ?a = "dadd exact acc (dmul exact (RENT_RATE exact) (importance_of net h))"
  have "Fin_val ?a" "val ?a = val acc + val (importance_of net h) / 10"
    using Cons.prems by (simp_all add: exact_ops RENT_RATE_def exact_def)
  with Cons.IH [of ?a] Cons.prems show ?case by (simp add: rents_def add_divide_distrib)
qed

lemma exact_pool:
  assumes "network_ok net" "amounts_ok exact net"
  shows "Fin_val (token_pool exact net)"
    and "val (token_pool exact net) = val (tokens_to_distribute net) + total_importance net / 10"
proof -
  have f: "\<forall>h\<in>set (node_list net). Fin_val (importance_of net h)" "Fin_val (tokens_to_distribute net)"
    using assms(2) node_list_ok(2) [OF assms(1)] by (simp_all add: amounts_ok_def Fin_val_amount)
  have "(\<Sum>h\<leftarrow>node_list net. val (importance_of net h)) = total_importance net"
    using node_list_ok [OF assms(1)] by (simp add: sum_list_distinct_conv_sum_set total_importance_def)
  with exact_rents [OF f(1), of "Fin 0"] f(2)
  show "Fin_val (token_pool exact net)"
    "val (token_pool exact net) = val (tokens_to_distribute net) + total_importance net / 10"
    by (simp_all add: token_pool_def exact_ops)
qed

lemma exact_paid:
  assumes "network_ok net" "amounts_ok exact net" "0 < total_wages req" "h \<in> dom (node_map net)"
  shows "Fin_val (paid exact req net h)"
    and "val (paid exact req net h) = val (importance_of net h) * 9 / 10 + wage_paid req net h"
proof -
  have i: "Fin_val (importance_of net h)" using assms(2,4) by (simp add: amounts_ok_def Fin_val_amount)
  have w: "Fin_val (wage exact (total_wages req) (token_pool exact net) c)" for c
    using exact_pool [OF assms(1,2)] assms(3) by (simp add: wage_def exact_ops)
  show "Fin_val (paid exact req net h)"
    "val (paid exact req net h) = val (importance_of net h) * 9 / 10 + wage_paid req net h"
    using i w
    by (auto simp: paid_def settled_def change_def Let_def wage_paid_def merge_changes_def exact_ops
        RENT_RATE_def exact_def split: option.split)
qed

lemma exact_received:
  assumes "\<forall>h\<in>set hs. k \<in> set (neighbours_of net h) \<longrightarrow> Fin_val (share exact net h (s h) k)" "Fin_val acc"
  shows "Fin_val (received exact net hs s k acc) \<and> val (received exact net hs s k acc)
    = val acc + (\<Sum>h\<leftarrow>hs. if k \<in> set (neighbours_of net h) then val (share exact net h (s h) k) else 0)"
  using assms
proof (induction hs arbitrary: acc)
  case Nil
  then show ?case by (simp add: received_def)
next
  case (Cons h hs)
  show ?case
  proof (cases "k \<in> set (neighbours_of net h)")
    case True
    let ?a = "dadd exact acc (share exact net h (s h) k)"
    have "Fin_val ?a" "val ?a = val acc + val (share exact net h (s h) k)"
      using Cons.prems True by (simp_all add: exact_ops)
    with Cons.IH [of ?a] Cons.prems True show ?thesis by (simp add: received_def)
  next
    case False
    with Cons.IH [of acc] Cons.prems show ?thesis by (simp add: received_def)
  qed
qed

lemma exact_weights:
  assumes "\<forall>k\<in>set ks. Fin_val (weight exact net h k)" "Fin_val acc"
  shows "Fin_val (weights exact net h ks acc) \<and>
    val (weights exact net h ks acc) = val acc + (\<Sum>k\<leftarrow>ks. val (weight exact net h k))"
  using assms
proof (induction ks arbitrary: acc)
  case Nil
  then show ?case by (simp add: weights_def)
next
  case (Cons k ks)
  have "Fin_val (dadd exact acc (weight exact net h k))"
    "val (dadd exact acc (weight exact net h k)) = val acc + val (weight exact net h k)"
    using Cons.prems by (simp_all add: exact_ops)
  with Cons.IH [of "dadd exact acc (weight exact net h k)"] Cons.prems show ?case by (simp add: weights_def)
qed

text \<open>A node with neighbours gives away exactly what it has to spread.\<close>

lemma exact_shares:
  assumes net: "network_ok net" and c: "counts_positive net" and s: "Fin_val s"
    and h: "h \<in> dom (node_map net)"
  shows "k \<in> set (neighbours_of net h) \<Longrightarrow> Fin_val (share exact net h s k)"
    and "(\<Sum>k\<in>dom (node_map net). if k \<in> set (neighbours_of net h) then val (share exact net h s k) else 0)
      = (if neighbours_of net h = [] then 0 else val s)"
proof -
  let ?N = "neighbours_of net h"
  have w: "Fin_val (weight exact net h k)" "0 < val (weight exact net h k)" if "k \<in> set ?N" for k
  proof -
    have p: "0 < link_count net h k" "0 < node_count net h"
      using c that by (simp_all add: counts_positive_def)
    then have "node_count net h \<noteq> 0" by auto
    with p show "Fin_val (weight exact net h k)" "0 < val (weight exact net h k)"
      by (simp_all add: weight_def exact_ops)
  qed
  obtain n where n: "node_map net h = Some n" using h by blast
  have n_ok: "node_ok net h n" using net n by (simp add: network_ok_def)
  have N: "distinct ?N" "set ?N \<subseteq> dom (node_map net)"
    using neighbour_list_ok [of n] n_ok n
    by (auto simp: neighbours_of_def node_ok_def edge_ok_def)
  let ?W = "weights exact net h ?N (Fin 0)"
  have W: "Fin_val ?W" "val ?W = (\<Sum>k\<in>set ?N. val (weight exact net h k))"
    using exact_weights [of ?N net h "Fin 0"] w(1) N(1) by (simp_all add: sum_list_distinct_conv_sum_set)
  have Wpos: "?N \<noteq> [] \<Longrightarrow> 0 < val ?W" unfolding W(2) by (intro sum_pos w(2)) simp_all
  have sh: "Fin_val (share exact net h s k)" "val (share exact net h s k) = val (weight exact net h k) / val ?W * val s"
    if k: "k \<in> set ?N" for k
  proof -
    have nz: "val ?W \<noteq> 0" using Wpos k by (cases ?N) auto
    show "Fin_val (share exact net h s k)" "val (share exact net h s k) = val (weight exact net h k) / val ?W * val s"
      using exact_ops(7,8) [OF w(1) [OF k] W(1) nz] s by (simp_all add: share_def exact_ops)
  qed
  then show "k \<in> set ?N \<Longrightarrow> Fin_val (share exact net h s k)" by blast
  have "(\<Sum>k\<in>dom (node_map net). if k \<in> set ?N then val (share exact net h s k) else 0)
      = (\<Sum>k\<in>set ?N. val (share exact net h s k))"
    using N(2) by (intro sum.mono_neutral_cong_right)
      (auto simp: node_map_def trie_map_def finite_dom_map_of)
  also have "\<dots> = (\<Sum>k\<in>set ?N. val (weight exact net h k)) / val ?W * val s"
    using sh(2) by (simp add: sum_divide_distrib sum_distrib_right)
  also have "\<dots> = (if ?N = [] then 0 else val s)"
    using Wpos W(2) by auto
  finally show "(\<Sum>k\<in>dom (node_map net). if k \<in> set ?N then val (share exact net h s k) else 0)
      = (if ?N = [] then 0 else val s)" .
qed

lemma exact_kept:
  assumes "network_ok net" "amounts_ok exact net" "counts_positive net" "0 < total_wages req"
    and "h \<in> dom (node_map net)"
  shows "Fin_val (outgoing exact req net h)" "Fin_val (kept exact req net h)"
    and "val (kept exact req net h) = val (paid exact req net h) - val (outgoing exact req net h)"
proof -
  obtain r where r: "rate exact net h = Fin r"
    using exact.rate_unit [OF assms(1), of h] assms(3) by (auto simp: counts_positive_def)
  have p: "Fin_val (paid exact req net h)" using exact_paid(1) [OF assms(1,2,4,5)] .
  show o: "Fin_val (outgoing exact req net h)" unfolding outgoing_def r by (simp add: exact_ops p)
  show "Fin_val (kept exact req net h)"
    "val (kept exact req net h) = val (paid exact req net h) - val (outgoing exact req net h)"
    unfolding kept_def using exact_ops(3,4) [OF p o] by simp_all
qed

lemma finite_nodes [simp]: "finite (dom (node_map net))"
  by (simp add: node_map_def trie_map_def finite_dom_map_of)

lemma exact_final:
  assumes "network_ok net" "amounts_ok exact net" "counts_positive net" "0 < total_wages req"
    and k: "k \<in> dom (node_map net)"
  shows "val (final_importance exact req net k) = val (kept exact req net k)
    + (\<Sum>h\<in>dom (node_map net). if k \<in> set (neighbours_of net h)
         then val (share exact net h (outgoing exact req net h) k) else 0)"
proof -
  note nl = node_list_ok [OF assms(1)]
  have "\<forall>h\<in>set (node_list net). k \<in> set (neighbours_of net h) \<longrightarrow>
      Fin_val (share exact net h (outgoing exact req net h) k)"
    using exact_shares(1) [OF assms(1,3)] exact_kept(1) [OF assms(1-4)] nl(2) by simp
  with exact_received exact_kept(2) [OF assms] show ?thesis
    by (simp add: final_importance_def sum_list_distinct_conv_sum_set nl)
qed

text \<open>
  What is not returned to the nodes: the wages of handles that are no nodes, or that the field
  \<open>SUM\<close> counts and no entry claims, and what nodes without neighbours spread.
\<close>

definition unpaid :: "handle_count \<Rightarrow> hebbian_network \<Rightarrow> rat" where
  "unpaid req net = val (token_pool exact net) - (\<Sum>h\<in>dom (node_map net). wage_paid req net h)"

definition stranded :: "handle_count \<Rightarrow> hebbian_network \<Rightarrow> rat" where
  "stranded req net = (\<Sum>h\<in>dom (node_map net).
     if neighbours_of net h = [] then val (outgoing exact req net h) else 0)"

lemma exact_balance:
  assumes "network_ok net" "amounts_ok exact net" "counts_positive net" "0 < total_wages req"
  shows "(\<Sum>k\<in>dom (node_map net). val (final_importance exact req net k))
    = total_importance net + val (tokens_to_distribute net) - unpaid req net - stranded req net"
proof -
  let ?D = "dom (node_map net)"
  let ?out = "\<lambda>h. val (outgoing exact req net h)"
  let ?sh = "\<lambda>h k. if k \<in> set (neighbours_of net h)
      then val (share exact net h (outgoing exact req net h) k) else 0"
  have "(\<Sum>k\<in>?D. val (final_importance exact req net k))
      = (\<Sum>k\<in>?D. val (kept exact req net k)) + (\<Sum>k\<in>?D. \<Sum>h\<in>?D. ?sh h k)"
    by (simp add: exact_final [OF assms] sum.distrib)
  also have "(\<Sum>k\<in>?D. \<Sum>h\<in>?D. ?sh h k) = (\<Sum>h\<in>?D. \<Sum>k\<in>?D. ?sh h k)"
    by (rule sum.swap)
  also have "\<dots> = (\<Sum>h\<in>?D. if neighbours_of net h = [] then 0 else ?out h)"
    by (intro sum.cong refl exact_shares(2) [OF assms(1,3)] exact_kept(1) [OF assms])
  also have "\<dots> = (\<Sum>h\<in>?D. ?out h) - stranded req net"
    unfolding stranded_def by (simp add: sum_subtractf [symmetric]) (rule sum.cong, simp_all)
  also have "(\<Sum>k\<in>?D. val (kept exact req net k))
      = (\<Sum>k\<in>?D. val (paid exact req net k)) - (\<Sum>h\<in>?D. ?out h)"
    by (simp add: exact_kept(3) [OF assms] sum_subtractf)
  also have "(\<Sum>k\<in>?D. val (paid exact req net k))
      = total_importance net * 9 / 10 + (\<Sum>k\<in>?D. wage_paid req net k)"
    by (simp add: exact_paid(2) [OF assms(1,2,4)] sum.distrib total_importance_def sum_divide_distrib
        sum_distrib_right)
  finally show ?thesis
    using exact_pool(2) [OF assms(1,2)] by (simp add: unpaid_def)
qed

lemma sum_map_of:
  fixes f :: "u32 \<Rightarrow> rat"
  assumes "distinct (map fst xs)" "finite D"
  shows "(\<Sum>h\<in>D. case map_of xs h of None \<Rightarrow> 0 | Some c \<Rightarrow> f c)
    = (\<Sum>p\<leftarrow>xs. if fst p \<in> D then f (snd p) else 0)"
  using assms(1)
proof (induction xs)
  case Nil
  then show ?case by simp
next
  case (Cons p xs)
  obtain k c where p: "p = (k, c)" by (cases p)
  have "map_of xs k = None" using Cons.prems p by (auto simp: map_of_eq_None_iff)
  then have "(case map_of (p # xs) h of None \<Rightarrow> 0 | Some c \<Rightarrow> f c)
      = (if h = k then f c else 0) + (case map_of xs h of None \<Rightarrow> 0 | Some c \<Rightarrow> f c)" for h
    by (simp add: p)
  then show ?case
    using Cons assms(2) by (simp add: sum.distrib p)
qed

text \<open>All wages are claimed by nodes.\<close>

definition all_claimed :: "handle_count \<Rightarrow> hebbian_network \<Rightarrow> bool" where
  "all_claimed req net \<longleftrightarrow> (\<forall>p\<in>set req. fst p \<noteq> ''SUM'' \<longrightarrow> fst p \<in> dom (node_map net))
     \<and> (\<Sum>p\<leftarrow>req. if fst p = ''SUM'' then 0 else unat (snd p)) = unat (total_wages req)"

lemma all_claimed_unpaid:
  assumes "network_ok net" "amounts_ok exact net" "request_ok req" "0 < total_wages req" "all_claimed req net"
  shows "unpaid req net = 0"
proof -
  let ?D = "dom (node_map net)" and ?S = "unsigned (total_wages req) :: rat"
  have SUM: "''SUM'' \<notin> ?D" using valid_node [OF assms(1), of "''SUM''"] by auto
  have w: "val (wage exact (total_wages req) (token_pool exact net) c) = unsigned c * val (token_pool exact net) / ?S" for c
    using exact_pool(1) [OF assms(1,2)] assms(4) by (simp add: wage_def exact_ops)
  have "(\<Sum>h\<in>?D. wage_paid req net h)
      = (\<Sum>p\<leftarrow>req. if fst p \<in> ?D then unsigned (snd p) * val (token_pool exact net) / ?S else 0)"
    using sum_map_of [of req ?D "\<lambda>c. unsigned c * val (token_pool exact net) / ?S"] assms(3)
    by (simp add: wage_paid_def w request_ok_def cong: option.case_cong)
  also have "\<dots> = (\<Sum>p\<leftarrow>req. (if fst p = ''SUM'' then 0 else unsigned (snd p)) * (val (token_pool exact net) / ?S))"
    using assms(5) SUM by (intro arg_cong [of _ _ sum_list] map_cong) (auto simp: all_claimed_def)
  also have "\<dots> = (\<Sum>p\<leftarrow>req. if fst p = ''SUM'' then 0 else unsigned (snd p)) * (val (token_pool exact net) / ?S)"
    by (rule sum_list_mult_const)
  also have "(\<Sum>p\<leftarrow>req. if fst p = ''SUM'' then 0 else unsigned (snd p))
      = (of_nat (\<Sum>p\<leftarrow>req. if fst p = ''SUM'' then 0 else unat (snd p)) :: rat)"
    by (induction req) auto
  also have "\<dots> = ?S" using assms(5) by (simp add: all_claimed_def)
  finally show ?thesis using assms(4) by (simp add: unpaid_def)
qed

end
