(* ===== verification/Spreader_Properties.thy ===== *)
theory Spreader_Properties
  imports Spreader_Correct
begin

text \<open>The properties of \<open>spread_stimuli\<close>, and the network that shows that their hypotheses can hold.\<close>

section \<open>A request for the witnesses\<close>

abbreviation handle_a :: string where "handle_a \<equiv> handle_of CHR ''a''"
abbreviation handle_b :: string where "handle_b \<equiv> handle_of CHR ''b''"

definition request_a :: handle_count where
  "request_a = [(handle_a, 3), (''SUM'', 3)]"

lemma handle_of_not_SUM [simp]: "handle_of c \<noteq> ''SUM''" "''SUM'' \<noteq> handle_of c"
  by (auto simp: handle_of_def dest: arg_cong [where f = length])

lemma request_a_ok: "request_ok request_a"
  by (simp add: request_ok_def request_a_def)

lemma total_wages_a [simp]: "total_wages request_a = 3"
  by (simp add: total_wages_def request_a_def)

text \<open>The linked network is fit for the spreading, whatever the rounding.\<close>

lemma linked_nodes_fit:
  "\<exists>net. linked_nodes = Inr net \<and> network_ok net \<and> amounts_ok binary64 net \<and> amounts_ok exact net
    \<and> counts_positive net \<and> dom (node_map net) = {handle_a, handle_b}
    \<and> neighbours_of net handle_a = [handle_b] \<and> neighbours_of net handle_b = [handle_a]
    \<and> tokens_to_distribute net = Fin 1 \<and> total_importance net = 0"
proof -
  obtain net na nb where net: "linked_nodes = Inr net" "network_ok net" "largest_arity net = 1"
    "node_map net = [handle_a \<mapsto> na, handle_b \<mapsto> nb]"
    "dom (edge_map na) = {handle_b}" "dom (edge_map nb) = {handle_a}"
    "link_count net handle_a handle_b = 1" "link_count net handle_b handle_a = 1"
    "count na = 1" "count nb = 1" "importance na = Fin 0" "importance nb = Fin 0"
    "tokens_to_distribute net = Fin 1"
    using linked_nodes_ok by blast
  have nbs: "neighbours_of net h = [k]" if "node_map net h = Some n" "dom (edge_map n) = {k}" for h k n
  proof -
    have "handles_ok (neighbors n)" using net(2) that(1) by (simp add: network_ok_def node_ok_def)
    from neighbour_list_ok [OF this] that show ?thesis
      by (cases "neighbour_list n" rule: list.exhaust; cases "tl (neighbour_list n)")
        (auto simp: neighbours_of_def)
  qed
  have ab: "node_map net handle_a = Some na" "node_map net handle_b = Some nb" using net(4) by simp_all
  have N: "neighbours_of net handle_a = [handle_b]" "neighbours_of net handle_b = [handle_a]"
    using nbs [OF ab(1) net(5)] nbs [OF ab(2) net(6)] .
  have "neighbours_of net h = []" if "h \<noteq> handle_a" "h \<noteq> handle_b" for h
    using that net(4) by (simp add: neighbours_of_def)
  with N have "k \<in> set (neighbours_of net h) \<Longrightarrow> (h = handle_a \<and> k = handle_b) \<or> (h = handle_b \<and> k = handle_a)" for h k
    by (cases "h = handle_a \<or> h = handle_b") auto
  then have "counts_positive net"
    using net(3,7-10) ab unfolding counts_positive_def by (fastforce simp: node_count_def)
  moreover have "importance_of net handle_a = Fin 0" "importance_of net handle_b = Fin 0"
    using ab net(11,12) by (simp_all add: importance_of_def)
  moreover have "dom (node_map net) = {handle_a, handle_b}" using net(4) by auto
  ultimately show ?thesis
    using net(1,2,13) N binary64.fl_one binary64.fl_zero exact.fl_one exact.fl_zero
    by (intro exI [of _ net]) (auto simp: amounts_ok_def amount_ok_def total_importance_def)
qed

section \<open>Properties\<close>

text \<open>
  C13. The result of a \<open>stimulate\<close> request, for any rounding: the request is processed, the tokens of
  the network are taken, counts, edges and arities stay, and every node ends with the importance
  \<open>final_importance\<close>: what it keeps after rent, wages and spreading, and then the shares of
  the nodes it is a neighbour of, in the order of the traversal.
\<close>

theorem spread_importances:
  assumes "network_ok net" and "request_ok req"
  shows "\<exists>net'. spread_stimuli fl req (Some net) = Inr (Some net') \<and> network_ok net'
    \<and> alienate_tokens net' = (Fin 0, net')
    \<and> (\<forall>h\<in>dom (node_map net). get_node_importance h net' = Inr (final_importance fl req net h)
        \<and> node_count net' h = node_count net h \<and> (\<forall>k. link_count net' h k = link_count net h k))"
proof -
  obtain net' where 1: "spread_stimuli fl req (Some net) = Inr (Some net')" "frame net net'"
    "tokens_to_distribute net' = Fin 0"
    "\<forall>h\<in>dom (node_map net). importance_of net' h = final_importance fl req net h"
    using spread_stimuli_steps [OF assms, of fl] by blast
  have ok: "network_ok net'" using 1(2) by (simp add: frame_def)
  have "alienate_tokens net' = (Fin 0, net')"
    using 1(3) by (cases net') (simp add: alienate_tokens_def)
  with 1 ok show ?thesis
    using get_node_importance_ok [OF ok] valid_node [OF assms(1)] frame_counts [OF 1(2)] by auto
qed

theorem spread_importances_witness:
  "\<exists>net net'. linked_nodes = Inr net \<and> spread_stimuli binary64 request_a (Some net) = Inr (Some net')
    \<and> get_node_importance handle_b net' = Inr (final_importance binary64 request_a net handle_b)"
proof -
  obtain net where "linked_nodes = Inr net" "network_ok net" "dom (node_map net) = {handle_a, handle_b}"
    using linked_nodes_fit by blast
  then show ?thesis
    using spread_importances [of net request_a binary64] request_a_ok by auto
qed



text \<open>
  C14. The balance of the tokens in exact arithmetic: after a request the nodes hold what they held
  and the tokens of the network, less the wages that no node claims and less what the nodes without
  neighbours spread. When all wages are claimed by nodes and every node has a neighbour, the total
  amount of tokens is conserved.
\<close>

theorem spread_conserves_tokens:
  assumes "network_ok net" and "amounts_ok exact net" and "counts_positive net"
    and "request_ok req" and "0 < total_wages req"
  shows "\<exists>net'. spread_stimuli exact req (Some net) = Inr (Some net') \<and> tokens_to_distribute net' = Fin 0
    \<and> total_importance net' = total_importance net + val (tokens_to_distribute net)
        - unpaid req net - stranded req net
    \<and> (all_claimed req net \<and> (\<forall>h\<in>dom (node_map net). neighbours_of net h \<noteq> [])
        \<longrightarrow> total_importance net' = total_importance net + val (tokens_to_distribute net))"
proof -
  obtain net' where 1: "spread_stimuli exact req (Some net) = Inr (Some net')" "frame net net'"
    "tokens_to_distribute net' = Fin 0"
    "\<forall>h\<in>dom (node_map net). importance_of net' h = final_importance exact req net h"
    using spread_stimuli_steps [OF assms(1,4), of exact] by blast
  have "total_importance net' = (\<Sum>k\<in>dom (node_map net). val (final_importance exact req net k))"
    using 1(4) frame_dom [OF 1(2)] by (simp add: total_importance_def)
  also have "\<dots> = total_importance net + val (tokens_to_distribute net) - unpaid req net - stranded req net"
    by (rule exact_balance [OF assms(1,2,3,5)])
  finally have bal: "total_importance net'
      = total_importance net + val (tokens_to_distribute net) - unpaid req net - stranded req net" .
  moreover have "unpaid req net = 0" if "all_claimed req net"
    using all_claimed_unpaid [OF assms(1,2,4,5) that] .
  moreover have "stranded req net = 0" if "\<forall>h\<in>dom (node_map net). neighbours_of net h \<noteq> []"
    unfolding stranded_def using that by (intro sum.neutral) auto
  ultimately show ?thesis using 1(1,3) by auto
qed

theorem spread_conserves_tokens_witness:
  "\<exists>net net'. linked_nodes = Inr net \<and> spread_stimuli exact request_a (Some net) = Inr (Some net')
    \<and> total_importance net' = 1"
proof -
  obtain net where net: "linked_nodes = Inr net" "network_ok net" "dom (node_map net) = {handle_a, handle_b}"
    "amounts_ok exact net" "counts_positive net" "neighbours_of net handle_a = [handle_b]"
    "neighbours_of net handle_b = [handle_a]" "tokens_to_distribute net = Fin 1" "total_importance net = 0"
    using linked_nodes_fit by blast
  have "all_claimed request_a net" unfolding all_claimed_def total_wages_a using net(3) by (simp add: request_a_def)
  moreover have "\<forall>h\<in>dom (node_map net). neighbours_of net h \<noteq> []" using net(3,6,7) by simp
  ultimately show ?thesis
    using spread_conserves_tokens [OF net(2,4,5) request_a_ok] net(1,8,9) by (auto simp: word_gt_0)
qed

text \<open>
  A network without edges (\<open>largest_arity\<close> 0): the arity ratio is 0 / 0, so a \<open>stimulate\<close>
  request turns the importance of every node into NaN, whatever the rounding.
\<close>

theorem spread_without_edges:
  assumes "network_ok net" and "request_ok req" and "largest_arity net = 0" and "h \<in> dom (node_map net)"
  shows "\<exists>net'. spread_stimuli fl req (Some net) = Inr (Some net') \<and> get_node_importance h net' = Inr NaN"
proof -
  obtain net' where 1: "spread_stimuli fl req (Some net) = Inr (Some net')" "frame net net'"
    "\<forall>h\<in>dom (node_map net). importance_of net' h = final_importance fl req net h"
    using spread_stimuli_steps [OF assms(1,2), of fl] by blast
  have "network_ok net'" using 1(2) by (simp add: frame_def)
  then have "get_node_importance h net' = Inr NaN"
    using get_node_importance_ok valid_node [OF assms(1,4)] 1(3) assms(4)
      final_importance_NaN [OF assms(1,3)] by simp
  with 1(1) show ?thesis by blast
qed

theorem spread_without_edges_witness:
  "\<exists>net net'. two_nodes = Inr net \<and> spread_stimuli binary64 request_a (Some net) = Inr (Some net')
    \<and> get_node_importance handle_a net' = Inr NaN"
proof -
  obtain net where "two_nodes = Inr net" "network_ok net" "largest_arity net = 0"
    "dom (node_map net) = {handle_a, handle_b}"
    using two_nodes_ok by blast
  then show ?thesis
    using spread_without_edges [of net request_a handle_a binary64] request_a_ok by auto
qed

text \<open>
  A request without the key \<open>SUM\<close> ends with the exception of \<open>Utils::error\<close>, after the
  rent was computed; a request whose network pointer is NULL does nothing.
\<close>

theorem spread_missing_SUM:
  assumes "network_ok net" and "''SUM'' \<notin> fst ` set req"
  shows "spread_stimuli fl req (Some net) = Inl (Runtime_Error ''Missing 'SUM' key in HandleCount request'')
    \<and> spread_stimuli fl req None = Inr None"
proof -
  obtain m0 :: "importance_change handle_trie" where m0: "new_HandleTrie 32 = Inr m0" "handles_ok m0"
    "trie_map m0 = (\<lambda>_. None)"
    using new_handle_trie_ok by blast
  obtain d where "visit_nodes (collect_rent fl) net (net, init_data fl net m0) = Inr (net, d)"
    using collect_rent_visits [OF assms(1) node_leaves(2,3) [OF assms(1)], of "init_data fl net m0" fl] m0(2,3)
    by (auto simp: visit_nodes_leaves init_data_def)
  moreover have "map_of req ''SUM'' = None" using assms(2) by (simp add: map_of_eq_None_iff)
  ultimately show ?thesis
    using m0(1) by (simp add: spread_stimuli_def alienate_tokens_def distribute_wages_def Let_def)
qed

theorem spread_missing_SUM_witness:
  "\<exists>net. linked_nodes = Inr net \<and> spread_stimuli binary64 [(handle_a, 3)] (Some net)
    = Inl (Runtime_Error ''Missing 'SUM' key in HandleCount request'')"
proof -
  obtain net where "linked_nodes = Inr net" "network_ok net"
    using linked_nodes_fit by blast
  then show ?thesis using spread_missing_SUM [of net "[(handle_a, 3)]" binary64] by auto
qed

end
