(* ===== verification/Request_Selector.thy ===== *)
theory Request_Selector
  imports Request_Queue Hebbian_Updater Spreader_Properties
begin

text \<open>
  \<open>attention_broker_server/RequestSelector\<close>: which queue a worker thread reads. A request is the
  protobuf object behind the \<open>void *\<close> of the queues: the fields that the workers read, and the
  address of its network, which is named by the context the server keeps it under (\<open>None\<close> is NULL).
\<close>

datatype request_type = STIMULUS | CORRELATION

datatype request =
    Handle_Count (counts: handle_count) (target: "string option")
  | Handle_List (handles: "string list") (target: "string option")

record queues =
  stimulus :: "request request_queue"
  correlation_queue :: "request request_queue"

definition queue_of :: "request_type \<Rightarrow> queues \<Rightarrow> request request_queue" where
  "queue_of ty qs = (case ty of STIMULUS \<Rightarrow> stimulus qs | CORRELATION \<Rightarrow> correlation_queue qs)"

definition set_queue :: "request_type \<Rightarrow> request request_queue \<Rightarrow> queues \<Rightarrow> queues" where
  "set_queue ty q qs = (case ty of STIMULUS \<Rightarrow> qs\<lparr>stimulus := q\<rparr> | CORRELATION \<Rightarrow> qs\<lparr>correlation_queue := q\<rparr>)"

lemma queue_of_set [simp]:
  "queue_of ty (set_queue ty' q qs) = (if ty = ty' then q else queue_of ty qs)"
  by (cases ty; cases ty') (simp_all add: queue_of_def set_queue_def)

record even_thread_count =
  thread_id :: u32
  even_thread_id :: bool

definition new_EvenThreadCount :: "u32 \<Rightarrow> even_thread_count" where
  "new_EvenThreadCount i = \<lparr>thread_id = i, even_thread_id = (i mod 2 = 0)\<rparr>"

text \<open>The enumerator \<open>EVEN_THREAD_COUNT\<close> is 0.\<close>

definition EVEN_THREAD_COUNT :: int where
  "EVEN_THREAD_COUNT = 0"

definition selector_factory :: "int \<Rightarrow> u32 \<Rightarrow> even_thread_count result" where
  "selector_factory instance_type i =
     (if instance_type = EVEN_THREAD_COUNT then Inr (new_EvenThreadCount i)
      else Inl (Runtime_Error (''Invalid selector type: '' @ dec_int instance_type)))"

text \<open>\<open>EvenThreadCount::next\<close>: the type of the request and the request, \<open>None\<close> when there is none.\<close>

definition next_request :: "even_thread_count \<Rightarrow> queues \<Rightarrow> ((request_type \<times> request option) \<times> queues) result" where
  "next_request sel qs =
     (if even_thread_id sel
      then and_then (dequeue (stimulus qs)) (\<lambda>(r, q). Inr ((STIMULUS, r), qs\<lparr>stimulus := q\<rparr>))
      else and_then (dequeue (correlation_queue qs))
             (\<lambda>(r, q). Inr ((CORRELATION, r), qs\<lparr>correlation_queue := q\<rparr>)))"

definition type_of_thread :: "u32 \<Rightarrow> request_type" where
  "type_of_thread i = (if i mod 2 = 0 then STIMULUS else CORRELATION)"

lemma next_request_eq:
  "next_request (new_EvenThreadCount i) qs =
    and_then (dequeue (queue_of (type_of_thread i) qs))
      (\<lambda>(r, q). Inr ((type_of_thread i, r), set_queue (type_of_thread i) q qs))"
  by (simp add: next_request_def new_EvenThreadCount_def type_of_thread_def queue_of_def set_queue_def)

end
