(* ===== verification/Worker_Threads.thy ===== *)
theory Worker_Threads
  imports Request_Selector
begin

text \<open>
  \<open>attention_broker_server/WorkerThreads\<close>: the pool of worker threads and its shutdown, as a
  labelled transition system. A step is one action of a thread: an arrival (an RPC thread enqueues a
  request), the attempt of a worker to take a request, the processing of a request as a whole, the
  check of the stop flag after a sleep, the steps of \<open>graceful_stop\<close>. The time of a sleep is not
  modelled: a sleeping worker may wake at any moment.
\<close>

section \<open>Processing\<close>

type_synonym networks = "string \<rightharpoonup> hebbian_network"

text \<open>Run an operation on the network that a request points to.\<close>

definition on_network :: "(hebbian_network option \<Rightarrow> hebbian_network option result) \<Rightarrow> string option
    \<Rightarrow> networks \<Rightarrow> networks result" where
  "on_network f network nets =
     (case network of
        None \<Rightarrow> and_then (f None) (\<lambda>_. Inr nets)
      | Some c \<Rightarrow> (case nets c of
          None \<Rightarrow> Inl Null_Dereference
        | Some net \<Rightarrow> and_then (f (Some net)) (\<lambda>net'. Inr (nets(c := net')))))"

text \<open>The \<open>switch\<close> of \<open>worker_thread\<close>; the \<open>void *\<close> is cast to the type the case expects.\<close>

fun process :: "(rat \<Rightarrow> rat) \<Rightarrow> request_type \<Rightarrow> request \<Rightarrow> networks \<Rightarrow> networks result" where
  "process fl STIMULUS (Handle_Count c network) nets = on_network (spread_stimuli fl c) network nets"
| "process fl CORRELATION (Handle_List hs network) nets = on_network (correlation fl hs) network nets"
| "process fl ty r nets = Inl Type_Confusion"

section \<open>State\<close>

text \<open>
  Where a worker is: before \<open>selector->next()\<close>, at a request, in its sleep, or returned. The thread
  that calls \<open>graceful_stop\<close> is in none of its calls, at the \<open>join\<close> of a thread, or back.
\<close>

datatype worker = Idle | Working request_type request | Asleep | Done

datatype stopper = Serving | Joining nat | Stopped

record worker_pool =
  queues :: queues
  networks :: networks
  stop_flag :: bool
  workers :: "worker list"
  joined :: "bool list"
  stopper :: stopper
  crashed :: "error option"

definition WORKER_THREADS_COUNT :: nat where
  "WORKER_THREADS_COUNT = 10"

definition new_WorkerThreads :: "queues \<Rightarrow> networks \<Rightarrow> worker_pool" where
  "new_WorkerThreads qs nets =
     \<lparr>queues = qs, networks = nets, stop_flag = False,
      workers = replicate WORKER_THREADS_COUNT Idle, joined = replicate WORKER_THREADS_COUNT False,
      stopper = Serving, crashed = None\<rparr>"

section \<open>Steps\<close>

datatype event =
    Arrive request_type request
  | Take nat request_type request
  | Find_Empty nat
  | Finish nat request_type request
  | Terminate nat error
  | Wake nat
  | Exit nat
  | Stop
  | Join nat
  | Join_Error nat
  | Return

definition set_worker :: "nat \<Rightarrow> worker \<Rightarrow> worker_pool \<Rightarrow> worker_pool" where
  "set_worker i w s = s\<lparr>workers := (workers s)[i := w]\<rparr>"

definition worker_at :: "worker_pool \<Rightarrow> nat \<Rightarrow> worker option" where
  "worker_at s i = (if i < length (workers s) then Some (workers s ! i) else None)"

inductive pool_step :: "(rat \<Rightarrow> rat) \<Rightarrow> worker_pool \<Rightarrow> event \<Rightarrow> worker_pool \<Rightarrow> bool" for fl where
  arrive: "crashed s = None \<Longrightarrow> enqueue (queue_of ty (queues s)) (Some r) = Inr q \<Longrightarrow>
    pool_step fl s (Arrive ty r) (s\<lparr>queues := set_queue ty q (queues s)\<rparr>)"
| take: "crashed s = None \<Longrightarrow> worker_at s i = Some Idle \<Longrightarrow>
    next_request (new_EvenThreadCount (of_nat i)) (queues s) = Inr ((ty, Some r), qs) \<Longrightarrow>
    pool_step fl s (Take i ty r) (set_worker i (Working ty r) (s\<lparr>queues := qs\<rparr>))"
| find_empty: "crashed s = None \<Longrightarrow> worker_at s i = Some Idle \<Longrightarrow>
    next_request (new_EvenThreadCount (of_nat i)) (queues s) = Inr ((ty, None), qs) \<Longrightarrow>
    pool_step fl s (Find_Empty i) (set_worker i Asleep (s\<lparr>queues := qs\<rparr>))"
| finish: "crashed s = None \<Longrightarrow> worker_at s i = Some (Working ty r) \<Longrightarrow>
    process fl ty r (networks s) = Inr nets \<Longrightarrow>
    pool_step fl s (Finish i ty r) (set_worker i Idle (s\<lparr>networks := nets\<rparr>))"
| terminate: "crashed s = None \<Longrightarrow> worker_at s i = Some (Working ty r) \<Longrightarrow>
    process fl ty r (networks s) = Inl e \<Longrightarrow>
    pool_step fl s (Terminate i e) (s\<lparr>crashed := Some e\<rparr>)"
| wake: "crashed s = None \<Longrightarrow> worker_at s i = Some Asleep \<Longrightarrow> \<not> stop_flag s \<Longrightarrow>
    pool_step fl s (Wake i) (set_worker i Idle s)"
| exit: "crashed s = None \<Longrightarrow> worker_at s i = Some Asleep \<Longrightarrow> stop_flag s \<Longrightarrow>
    pool_step fl s (Exit i) (set_worker i Done s)"
| stop: "crashed s = None \<Longrightarrow> stopper s = Serving \<or> stopper s = Stopped \<Longrightarrow>
    pool_step fl s Stop (s\<lparr>stop_flag := True, stopper := Joining 0\<rparr>)"
| join: "crashed s = None \<Longrightarrow> stopper s = Joining i \<Longrightarrow> worker_at s i = Some Done \<Longrightarrow>
    \<not> joined s ! i \<Longrightarrow>
    pool_step fl s (Join i) (s\<lparr>joined := (joined s)[i := True], stopper := Joining (Suc i)\<rparr>)"
| join_error: "crashed s = None \<Longrightarrow> stopper s = Joining i \<Longrightarrow> worker_at s i \<noteq> None \<Longrightarrow>
    joined s ! i \<Longrightarrow> pool_step fl s (Join_Error i) (s\<lparr>crashed := Some Not_Joinable\<rparr>)"
| return: "crashed s = None \<Longrightarrow> stopper s = Joining i \<Longrightarrow> worker_at s i = None \<Longrightarrow>
    pool_step fl s Return (s\<lparr>stopper := Stopped\<rparr>)"

text \<open>The same steps as a function: the state after an event, \<open>None\<close> when it cannot happen.\<close>

fun pool_event :: "(rat \<Rightarrow> rat) \<Rightarrow> event \<Rightarrow> worker_pool \<Rightarrow> worker_pool option" where
  "pool_event fl (Arrive ty r) s =
     (case enqueue (queue_of ty (queues s)) (Some r) of
        Inl e \<Rightarrow> None | Inr q \<Rightarrow> Some (s\<lparr>queues := set_queue ty q (queues s)\<rparr>))"
| "pool_event fl (Take i ty r) s =
     (if worker_at s i = Some Idle
      then case next_request (new_EvenThreadCount (of_nat i)) (queues s) of
             Inr ((ty', Some r'), qs) \<Rightarrow>
               if ty' = ty \<and> r' = r then Some (set_worker i (Working ty r) (s\<lparr>queues := qs\<rparr>)) else None
           | _ \<Rightarrow> None
      else None)"
| "pool_event fl (Find_Empty i) s =
     (if worker_at s i = Some Idle
      then case next_request (new_EvenThreadCount (of_nat i)) (queues s) of
             Inr ((ty', None), qs) \<Rightarrow> Some (set_worker i Asleep (s\<lparr>queues := qs\<rparr>))
           | _ \<Rightarrow> None
      else None)"
| "pool_event fl (Finish i ty r) s =
     (if worker_at s i = Some (Working ty r)
      then case process fl ty r (networks s) of
             Inl e \<Rightarrow> None | Inr nets \<Rightarrow> Some (set_worker i Idle (s\<lparr>networks := nets\<rparr>))
      else None)"
| "pool_event fl (Terminate i e) s =
     (case worker_at s i of
        Some (Working ty r) \<Rightarrow>
          (case process fl ty r (networks s) of
             Inl e' \<Rightarrow> if e' = e then Some (s\<lparr>crashed := Some e\<rparr>) else None
           | Inr _ \<Rightarrow> None)
      | _ \<Rightarrow> None)"
| "pool_event fl (Wake i) s =
     (if worker_at s i = Some Asleep \<and> \<not> stop_flag s then Some (set_worker i Idle s) else None)"
| "pool_event fl (Exit i) s =
     (if worker_at s i = Some Asleep \<and> stop_flag s then Some (set_worker i Done s) else None)"
| "pool_event fl Stop s =
     (if stopper s = Serving \<or> stopper s = Stopped
      then Some (s\<lparr>stop_flag := True, stopper := Joining 0\<rparr>) else None)"
| "pool_event fl (Join i) s =
     (if stopper s = Joining i \<and> worker_at s i = Some Done \<and> \<not> joined s ! i
      then Some (s\<lparr>joined := (joined s)[i := True], stopper := Joining (Suc i)\<rparr>) else None)"
| "pool_event fl (Join_Error i) s =
     (if stopper s = Joining i \<and> worker_at s i \<noteq> None \<and> joined s ! i
      then Some (s\<lparr>crashed := Some Not_Joinable\<rparr>) else None)"
| "pool_event fl Return s =
     (case stopper s of
        Joining i \<Rightarrow> if worker_at s i = None then Some (s\<lparr>stopper := Stopped\<rparr>) else None
      | _ \<Rightarrow> None)"

fun exec :: "(rat \<Rightarrow> rat) \<Rightarrow> worker_pool \<Rightarrow> event list \<Rightarrow> worker_pool option" where
  "exec fl s [] = Some s"
| "exec fl s (e # es) =
     (if crashed s = None then case pool_event fl e s of None \<Rightarrow> None | Some s' \<Rightarrow> exec fl s' es else None)"

inductive run :: "(rat \<Rightarrow> rat) \<Rightarrow> worker_pool \<Rightarrow> event list \<Rightarrow> worker_pool \<Rightarrow> bool" for fl s where
  start: "run fl s [] s"
| more: "run fl s es s' \<Longrightarrow> pool_step fl s' e s'' \<Longrightarrow> run fl s (es @ [e]) s''"

inductive_cases arriveE: "pool_step fl s (Arrive ty r) s'"
inductive_cases takeE: "pool_step fl s (Take i ty r) s'"
inductive_cases finishE: "pool_step fl s (Finish i ty r) s'"
inductive_simps run_Nil [simp]: "run fl s [] s'"

section \<open>The function and the relation\<close>

lemma pool_step_event:
  "pool_step fl s e s' \<longleftrightarrow> crashed s = None \<and> pool_event fl e s = Some s'"
proof
  assume "pool_step fl s e s'"
  then show "crashed s = None \<and> pool_event fl e s = Some s'" by cases auto
next
  assume *: "crashed s = None \<and> pool_event fl e s = Some s'"
  then show "pool_step fl s e s'"
    by (cases e) (auto split: if_splits sum.splits option.splits prod.splits worker.splits stopper.splits
        intro: pool_step.intros)
qed

lemma run_append: "run fl s' es' s'' \<Longrightarrow> run fl s es s' \<Longrightarrow> run fl s (es @ es') s''"
  by (induction rule: run.induct) (auto simp: append_assoc [symmetric] simp del: append_assoc intro: run.intros)

lemma set_worker_fields [simp]:
  "queues (set_worker i w s) = queues s" "networks (set_worker i w s) = networks s"
  "stop_flag (set_worker i w s) = stop_flag s" "joined (set_worker i w s) = joined s"
  "stopper (set_worker i w s) = stopper s" "crashed (set_worker i w s) = crashed s"
  "length (workers (set_worker i w s)) = length (workers s)"
  by (simp_all add: set_worker_def)

lemma worker_at_set [simp]:
  "worker_at (set_worker i w s) j = (if i = j \<and> i < length (workers s) then Some w else worker_at s j)"
  by (auto simp: worker_at_def set_worker_def)

lemma worker_at_fields [simp]:
  "worker_at (s\<lparr>queues := qs\<rparr>) = worker_at s" "worker_at (s\<lparr>networks := nets\<rparr>) = worker_at s"
  "worker_at (s\<lparr>stop_flag := b\<rparr>) = worker_at s" "worker_at (s\<lparr>joined := js\<rparr>) = worker_at s"
  "worker_at (s\<lparr>stopper := st\<rparr>) = worker_at s" "worker_at (s\<lparr>crashed := c\<rparr>) = worker_at s"
  by (simp_all add: worker_at_def fun_eq_iff)

lemma worker_at_length: "worker_at s i = Some w \<Longrightarrow> i < length (workers s)"
  by (simp add: worker_at_def split: if_splits)

lemma exec_run: "exec fl s es = Some s' \<Longrightarrow> run fl s es s'"
proof (induction es arbitrary: s)
  case Nil
  then show ?case by (simp add: run.start)
next
  case (Cons e es)
  then obtain s1 where "pool_step fl s e s1" "exec fl s1 es = Some s'"
    by (auto simp: pool_step_event split: if_splits option.splits)
  with Cons.IH run_append [of fl s1 es s' s "[e]"] run.more [OF run.start, of fl s e s1]
  show ?case by simp
qed

text \<open>A run with a condition on its last state, found by computing.\<close>

lemma exec_reaches:
  "(case exec fl s es of None \<Rightarrow> False | Some s' \<Rightarrow> P s') \<Longrightarrow> \<exists>s'. run fl s es s' \<and> P s'"
  by (cases "exec fl s es") (auto dest: exec_run)

end
