(* ===== verification/Worker_Pool_Correct.thy ===== *)
theory Worker_Pool_Correct
  imports Worker_Threads "HOL-Library.Multiset"
begin

text \<open>
  The worker pool over all its runs: what happens to the requests, and what \<open>graceful_stop\<close> waits for.
\<close>

section \<open>Requests of a run\<close>

fun arrivals_of :: "request_type \<Rightarrow> event \<Rightarrow> request list" where
  "arrivals_of ty (Arrive ty' r) = (if ty = ty' then [r] else [])"
| "arrivals_of ty e = []"

fun takes_of :: "request_type \<Rightarrow> event \<Rightarrow> request list" where
  "takes_of ty (Take i ty' r) = (if ty = ty' then [r] else [])"
| "takes_of ty e = []"

fun finishes_of :: "request_type \<Rightarrow> event \<Rightarrow> request list" where
  "finishes_of ty (Finish i ty' r) = (if ty = ty' then [r] else [])"
| "finishes_of ty e = []"

definition arrived :: "request_type \<Rightarrow> event list \<Rightarrow> request list" where
  "arrived ty es = concat (map (arrivals_of ty) es)"

definition taken :: "request_type \<Rightarrow> event list \<Rightarrow> request list" where
  "taken ty es = concat (map (takes_of ty) es)"

definition finished :: "request_type \<Rightarrow> event list \<Rightarrow> request list" where
  "finished ty es = concat (map (finishes_of ty) es)"

lemma trace_simps [simp]:
  "arrived ty [] = []" "arrived ty (es @ [e]) = arrived ty es @ arrivals_of ty e"
  "taken ty [] = []" "taken ty (es @ [e]) = taken ty es @ takes_of ty e"
  "finished ty [] = []" "finished ty (es @ [e]) = finished ty es @ finishes_of ty e"
  by (simp_all add: arrived_def taken_def finished_def)

text \<open>The requests that workers are processing.\<close>

fun work_of :: "request_type \<Rightarrow> worker \<Rightarrow> request multiset" where
  "work_of ty (Working ty' r) = (if ty = ty' then {#r#} else {#})"
| "work_of ty w = {#}"

definition in_work :: "request_type \<Rightarrow> worker_pool \<Rightarrow> request multiset" where
  "in_work ty s = (\<Sum>w\<leftarrow>workers s. work_of ty w)"

lemma in_work_fields [simp]:
  "in_work ty (s\<lparr>queues := qs\<rparr>) = in_work ty s" "in_work ty (s\<lparr>networks := nets\<rparr>) = in_work ty s"
  "in_work ty (s\<lparr>stop_flag := b\<rparr>) = in_work ty s" "in_work ty (s\<lparr>joined := js\<rparr>) = in_work ty s"
  "in_work ty (s\<lparr>stopper := st\<rparr>) = in_work ty s" "in_work ty (s\<lparr>crashed := c\<rparr>) = in_work ty s"
  by (simp_all add: in_work_def)

lemma in_work_set_worker:
  assumes "worker_at s i = Some w"
  shows "in_work ty (set_worker i w' s) + work_of ty w = in_work ty s + work_of ty w'"
  using assms sum_list_swap [of i "map (work_of ty) (workers s)" "work_of ty w'"]
  by (auto simp: worker_at_def in_work_def set_worker_def map_update split: if_splits)

lemma in_work_new [simp]: "in_work ty (new_WorkerThreads qs nets) = {#}"
  by (simp add: in_work_def new_WorkerThreads_def WORKER_THREADS_COUNT_def eval_nat_numeral)

lemma new_WorkerThreads_fields [simp]:
  "queues (new_WorkerThreads qs nets) = qs" "networks (new_WorkerThreads qs nets) = nets"
  "stop_flag (new_WorkerThreads qs nets) = False" "stopper (new_WorkerThreads qs nets) = Serving"
  "crashed (new_WorkerThreads qs nets) = None" "length (workers (new_WorkerThreads qs nets)) = 10"
  by (simp_all add: new_WorkerThreads_def WORKER_THREADS_COUNT_def)

section \<open>What a step does to the requests\<close>

lemma taken_step:
  assumes "pool_step fl s e s'"
  shows "mset (takes_of ty e) + in_work ty s = mset (finishes_of ty e) + in_work ty s'"
  using assms
proof cases
  case (take i ty' r qs)
  then show ?thesis
    using in_work_set_worker [of "s\<lparr>queues := qs\<rparr>" i Idle ty "Working ty' r"] by auto
next
  case (find_empty i ty' qs)
  then show ?thesis using in_work_set_worker [of "s\<lparr>queues := qs\<rparr>" i Idle ty Asleep] by simp
next
  case (finish i ty' r nets)
  then show ?thesis
    using in_work_set_worker [of "s\<lparr>networks := nets\<rparr>" i "Working ty' r" ty Idle] by auto
next
  case (wake i)
  then show ?thesis using in_work_set_worker [of s i Asleep ty Idle] by simp
next
  case (exit i)
  then show ?thesis using in_work_set_worker [of s i Asleep ty Done] by simp
qed simp_all

lemma fifo_step:
  assumes "pool_step fl s e s'" and "queue_ok (queue_of ty (queues s))"
    and "length (queue_contents (queue_of ty (queues s))) < 2 ^ 31 \<or> arrivals_of ty e = []"
    and "None \<notin> set (queue_contents (queue_of ty (queues s)))"
  shows "queue_ok (queue_of ty (queues s')) \<and>
    queue_contents (queue_of ty (queues s)) @ map Some (arrivals_of ty e)
      = map Some (takes_of ty e) @ queue_contents (queue_of ty (queues s'))"
  using assms(1)
proof cases
  case (arrive ty' r q)
  then show ?thesis
    using rq.enq_law [of "queue_of ty (queues s)" "Some r"] assms(2,3) by auto
next
  case (take i ty' r qs)
  then show ?thesis
    using rq.deq_total [of "queue_of ty (queues s)"] assms(2)
    by (cases "queue_contents (queue_of ty (queues s))") (auto simp: next_request_eq and_then_Inr_iff)
next
  case (find_empty i ty' qs)
  then show ?thesis
    using rq.deq_total [of "queue_of ty (queues s)"] assms(2,4)
    by (cases "queue_contents (queue_of ty (queues s))") (auto simp: next_request_eq and_then_Inr_iff)
qed (use assms(2) in simp_all)

section \<open>Runs\<close>

lemma fifo_run:
  assumes "run fl s0 es s" and "queue_ok (queue_of ty (queues s0))"
    and "queue_contents (queue_of ty (queues s0)) = []" and "length (arrived ty es) \<le> 2 ^ 31"
  shows "queue_ok (queue_of ty (queues s))
    \<and> map Some (arrived ty es) = map Some (taken ty es) @ queue_contents (queue_of ty (queues s))"
  using assms(1,4)
proof (induction rule: run.induct)
  case start
  then show ?case using assms(2,3) by simp
next
  case (more es s e s')
  let ?c = "queue_contents (queue_of ty (queues s))"
  have IH: "queue_ok (queue_of ty (queues s))" "map Some (arrived ty es) = map Some (taken ty es) @ ?c"
    using more by simp_all
  from arg_cong [where f = length, OF IH(2)] have "length ?c \<le> length (arrived ty es)" by simp
  then have "length ?c < 2 ^ 31 \<or> arrivals_of ty e = []"
    using more.prems by (cases "arrivals_of ty e") auto
  moreover have "None \<notin> set ?c"
    using arg_cong [where f = set, OF IH(2)] by (metis Un_iff ex_map_conv option.distinct(1) set_append)
  ultimately show ?case
    using fifo_step [OF more.hyps(2) IH(1)] IH(2) by simp
qed

lemma accounting_run:
  assumes "run fl s0 es s"
  shows "in_work ty s0 + mset (taken ty es) = mset (finished ty es) + in_work ty s"
  using assms
proof (induction rule: run.induct)
  case (more es s e s')
  have "in_work ty s0 + mset (taken ty (es @ [e])) + in_work ty s
      = mset (finished ty es) + (mset (takes_of ty e) + in_work ty s) + in_work ty s"
    using more.IH by (simp add: ac_simps)
  also have "\<dots> = mset (finished ty (es @ [e])) + in_work ty s' + in_work ty s"
    using taken_step [OF more.hyps(2), of ty] by (simp add: ac_simps)
  finally show ?case by simp
qed simp

section \<open>Properties\<close>

text \<open>
  C11. First in, first out: at any moment of any run of a new pool, the requests of a type that have
  arrived are the ones that workers have taken, in this order, followed by the ones in the queue.
\<close>

theorem requests_taken_in_order:
  assumes "run fl (new_WorkerThreads qs nets) es s"
    and "queue_ok (queue_of ty qs)" and "queue_contents (queue_of ty qs) = []"
    and "length (arrived ty es) \<le> 2 ^ 31"
  shows "map Some (arrived ty es) = map Some (taken ty es) @ queue_contents (queue_of ty (queues s))"
  using fifo_run [OF assms(1)] assms(2-4) by simp

text \<open>Two empty queues, small enough to compute with.\<close>

definition small_queues :: queues where
  "small_queues = \<lparr>stimulus = new_RequestQueue 2, correlation_queue = new_RequestQueue 2\<rparr>"

lemma small_queues_ok [simp]:
  "queue_ok (queue_of ty small_queues)" "queue_contents (queue_of ty small_queues) = []"
  by (cases ty; simp add: small_queues_def queue_of_def queue_ok_new)+

definition no_network :: "request" where
  "no_network = Handle_List [] None"

text \<open>Three requests, the third one enlarges the queue; worker 1 takes the first one.\<close>

definition first_events :: "event list" where
  "first_events = [Arrive CORRELATION no_network, Arrive CORRELATION (Handle_List [''a''] None),
     Arrive CORRELATION no_network, Take 1 CORRELATION no_network]"

lemma first_events_run: "\<exists>s. run id (new_WorkerThreads small_queues Map.empty) first_events s"
proof -
  have "case exec id (new_WorkerThreads small_queues Map.empty) first_events of None \<Rightarrow> False | Some _ \<Rightarrow> True"
    by code_simp
  from exec_reaches [OF this] show ?thesis by blast
qed

theorem requests_taken_in_order_witness:
  "\<exists>s. run id (new_WorkerThreads small_queues Map.empty) first_events s
    \<and> queue_contents (queue_of CORRELATION (queues s)) = [Some (Handle_List [''a''] None), Some no_network]"
proof -
  obtain s where s: "run id (new_WorkerThreads small_queues Map.empty) first_events s"
    using first_events_run by blast
  with requests_taken_in_order [OF s, of CORRELATION] show ?thesis
    by (auto simp: first_events_def arrived_def taken_def)
qed

text \<open>
  No request is lost or processed twice: at any moment of any run of a new pool, the requests of
  a type that workers have taken are the ones whose processing is finished and the ones in work.
\<close>

theorem requests_processed_once:
  assumes "run fl (new_WorkerThreads qs nets) es s"
  shows "mset (taken ty es) = mset (finished ty es) + in_work ty s"
  using accounting_run [OF assms, of ty] by simp

theorem requests_processed_once_witness:
  "\<exists>s. run id (new_WorkerThreads small_queues Map.empty) first_events s
    \<and> in_work CORRELATION s = {#no_network#}"
proof -
  obtain s where s: "run id (new_WorkerThreads small_queues Map.empty) first_events s"
    using first_events_run by blast
  with requests_processed_once [OF s, of CORRELATION] show ?thesis
    by (auto simp: first_events_def finished_def taken_def)
qed

end
