(* ===== verification/Worker_Pool_Shutdown.thy ===== *)
theory Worker_Pool_Shutdown
  imports Worker_Pool_Correct
begin

text \<open>
  \<open>graceful_stop\<close> over all runs: what holds when it returns, that it returns, within which number of
  steps, and what a second call does.
\<close>

section \<open>The invariant of the shutdown\<close>

definition all_joined :: "worker_pool \<Rightarrow> nat \<Rightarrow> bool" where
  "all_joined s k \<longleftrightarrow> (\<forall>i<k. i < length (joined s) \<longrightarrow> joined s ! i)"

definition shutdown_ok :: "worker_pool \<Rightarrow> bool" where
  "shutdown_ok s \<longleftrightarrow> length (workers s) = WORKER_THREADS_COUNT \<and> length (joined s) = WORKER_THREADS_COUNT
     \<and> (\<forall>i. i < WORKER_THREADS_COUNT \<and> joined s ! i \<longrightarrow> worker_at s i = Some Done)
     \<and> (stopper s \<noteq> Serving \<longrightarrow> stop_flag s)
     \<and> (case stopper s of Serving \<Rightarrow> \<forall>i<WORKER_THREADS_COUNT. \<not> joined s ! i
        | Joining k \<Rightarrow> all_joined s k
        | Stopped \<Rightarrow> all_joined s WORKER_THREADS_COUNT)"

lemma all_joined_fields [simp]:
  "all_joined (s\<lparr>queues := qs\<rparr>) = all_joined s" "all_joined (s\<lparr>networks := nets\<rparr>) = all_joined s"
  "all_joined (s\<lparr>stop_flag := b\<rparr>) = all_joined s" "all_joined (s\<lparr>stopper := st\<rparr>) = all_joined s"
  "all_joined (s\<lparr>crashed := c\<rparr>) = all_joined s" "all_joined (set_worker i w s) = all_joined s"
  by (simp_all add: all_joined_def fun_eq_iff)

lemma shutdown_ok_new: "shutdown_ok (new_WorkerThreads qs nets)"
  by (auto simp: shutdown_ok_def new_WorkerThreads_def)

lemma worker_at_Some: "worker_at s i = Some w \<Longrightarrow> shutdown_ok s \<Longrightarrow> i < WORKER_THREADS_COUNT"
  by (auto simp: shutdown_ok_def dest: worker_at_length)

lemma worker_at_None: "worker_at s i = None \<Longrightarrow> shutdown_ok s \<Longrightarrow> WORKER_THREADS_COUNT \<le> i"
  by (auto simp: shutdown_ok_def worker_at_def split: if_splits)

text \<open>A worker that is not \<open>Done\<close> is not joined, so it may change.\<close>

lemma shutdown_ok_set_worker:
  assumes "shutdown_ok s" and "worker_at s i = Some w" and "w \<noteq> Done"
  shows "shutdown_ok (set_worker i w' s)"
  using assms by (auto simp: shutdown_ok_def split: stopper.splits)

lemma shutdown_ok_fields:
  assumes "shutdown_ok s"
  shows "shutdown_ok (s\<lparr>queues := qs\<rparr>)" "shutdown_ok (s\<lparr>networks := nets\<rparr>)" "shutdown_ok (s\<lparr>crashed := c\<rparr>)"
  using assms by (simp_all add: shutdown_ok_def split: stopper.splits)

lemma shutdown_step:
  assumes "pool_step fl s e s'" and ok: "shutdown_ok s"
  shows "shutdown_ok s'"
  using assms(1)
proof cases
  case (take i ty r qs)
  then show ?thesis
    using shutdown_ok_set_worker [OF shutdown_ok_fields(1) [OF ok], of qs i Idle] by simp
next
  case (find_empty i ty qs)
  then show ?thesis
    using shutdown_ok_set_worker [OF shutdown_ok_fields(1) [OF ok], of qs i Idle] by simp
next
  case (finish i ty r nets)
  then show ?thesis
    using shutdown_ok_set_worker [OF shutdown_ok_fields(2) [OF ok], of nets i "Working ty r"] by simp
next
  case stop
  then show ?thesis using ok by (simp add: shutdown_ok_def all_joined_def)
next
  case (join i)
  then show ?thesis
    using ok worker_at_Some [OF _ ok, of i Done]
    by (auto simp: shutdown_ok_def all_joined_def nth_list_update less_Suc_eq)
next
  case (return i)
  then show ?thesis
    using ok worker_at_None [OF _ ok, of i] by (simp add: shutdown_ok_def all_joined_def)
qed (use ok shutdown_ok_set_worker shutdown_ok_fields in auto)

lemma shutdown_run: "run fl s0 es s \<Longrightarrow> shutdown_ok s0 \<Longrightarrow> shutdown_ok s"
  by (induction rule: run.induct) (auto dest: shutdown_step)

lemma stopped_workers:
  assumes "shutdown_ok s" and "stopper s = Stopped"
  shows "workers s = replicate WORKER_THREADS_COUNT Done"
proof (rule nth_equalityI)
  fix i assume "i < length (workers s)"
  with assms have "worker_at s i = Some Done" by (auto simp: shutdown_ok_def all_joined_def)
  then show "workers s ! i = replicate WORKER_THREADS_COUNT Done ! i"
    using worker_at_Some [OF _ assms(1)] by (simp add: worker_at_def split: if_splits)
qed (use assms in \<open>simp add: shutdown_ok_def\<close>)

lemma stopped_idle:
  assumes "shutdown_ok s" and "stopper s = Stopped"
  shows "in_work ty s = {#}"
  by (simp add: in_work_def stopped_workers [OF assms] WORKER_THREADS_COUNT_def eval_nat_numeral)

section \<open>The number of steps of a shutdown\<close>

text \<open>The steps that go on once nothing arrives and \<open>graceful_stop\<close> is not called again.\<close>

fun internal :: "event \<Rightarrow> bool" where
  "internal (Arrive ty r) = False"
| "internal Stop = False"
| "internal e = True"

fun worker_cost :: "worker \<Rightarrow> nat" where
  "worker_cost Done = 0"
| "worker_cost Asleep = 1"
| "worker_cost Idle = 2"
| "worker_cost (Working ty r) = 3"

fun stopper_cost :: "stopper \<Rightarrow> nat" where
  "stopper_cost (Joining k) = Suc (WORKER_THREADS_COUNT - k)"
| "stopper_cost st = 0"

definition pending :: "worker_pool \<Rightarrow> nat" where
  "pending s = length (queue_contents (stimulus (queues s)))
     + length (queue_contents (correlation_queue (queues s)))"

definition stop_cost :: "worker_pool \<Rightarrow> nat" where
  "stop_cost s = 2 * pending s + (\<Sum>w\<leftarrow>workers s. worker_cost w) + stopper_cost (stopper s)
     + (if crashed s = None then 1 else 0)"

definition queues_ok :: "worker_pool \<Rightarrow> bool" where
  "queues_ok s \<longleftrightarrow> (\<forall>ty. queue_ok (queue_of ty (queues s)))"

lemma pending_fields [simp]:
  "pending (s\<lparr>networks := nets\<rparr>) = pending s" "pending (s\<lparr>stop_flag := b\<rparr>) = pending s"
  "pending (s\<lparr>joined := js\<rparr>) = pending s" "pending (s\<lparr>stopper := st\<rparr>) = pending s"
  "pending (s\<lparr>crashed := c\<rparr>) = pending s" "pending (set_worker i w s) = pending s"
  by (simp_all add: pending_def)

lemma worker_cost_set:
  assumes "worker_at s i = Some w"
  shows "(\<Sum>w\<leftarrow>workers (set_worker i w' s). worker_cost w) + worker_cost w
    = (\<Sum>w\<leftarrow>workers s. worker_cost w) + worker_cost w'"
  using assms sum_list_swap [of i "map worker_cost (workers s)" "worker_cost w'"]
  by (auto simp: worker_at_def set_worker_def map_update split: if_splits)

text \<open>An attempt to take a request takes one off a queue unless that queue is empty.\<close>

lemma next_request_pending:
  assumes "queues_ok s" and "next_request (new_EvenThreadCount i) (queues s) = Inr ((ty, r), qs)"
  shows "queues_ok (s\<lparr>queues := qs\<rparr>) \<and> pending (s\<lparr>queues := qs\<rparr>) + (if r = None then 0 else 1) \<le> pending s"
proof -
  let ?ty = "type_of_thread i"
  have ok: "queue_ok (queue_of ty (queues s))" for ty using assms(1) by (simp add: queues_ok_def)
  obtain q where q: "dequeue (queue_of ?ty (queues s)) = Inr (r, q)" "qs = set_queue ?ty q (queues s)"
    using assms(2) by (auto simp: next_request_eq and_then_Inr_iff)
  obtain q' r' where "dequeue (queue_of ?ty (queues s)) = Inr (r', q')" "queue_ok q'"
    "queue_contents q' = tl (queue_contents (queue_of ?ty (queues s)))"
    "r' = (case queue_contents (queue_of ?ty (queues s)) of [] \<Rightarrow> None | x # _ \<Rightarrow> x)"
    using rq.deq_total [OF ok [of ?ty]] by blast
  with q(1) have q': "queue_ok q" "queue_contents q = tl (queue_contents (queue_of ?ty (queues s)))"
    "r = (case queue_contents (queue_of ?ty (queues s)) of [] \<Rightarrow> None | x # _ \<Rightarrow> x)"
    by auto
  then have "length (queue_contents q) + (if r = None then 0 else 1)
      \<le> length (queue_contents (queue_of ?ty (queues s)))"
    by (cases "queue_contents (queue_of ?ty (queues s))") auto
  then have "pending (s\<lparr>queues := qs\<rparr>) + (if r = None then 0 else 1) \<le> pending s"
    unfolding q(2) by (cases ?ty) (auto simp: pending_def set_queue_def queue_of_def)
  with q(2) q'(1) ok show ?thesis by (simp add: queues_ok_def)
qed

lemma internal_step_cost:
  assumes "pool_step fl s e s'" and "internal e" and "queues_ok s" and "stop_flag s" and "shutdown_ok s"
  shows "stop_cost s' < stop_cost s \<and> queues_ok s' \<and> stop_flag s'"
  using assms(1)
proof cases
  case (take i ty r qs)
  then show ?thesis
    using next_request_pending [OF assms(3)] worker_cost_set [of "s\<lparr>queues := qs\<rparr>" i Idle "Working ty r"] assms(4)
    by (fastforce simp: stop_cost_def queues_ok_def)
next
  case (find_empty i ty qs)
  then show ?thesis
    using next_request_pending [OF assms(3)] worker_cost_set [of "s\<lparr>queues := qs\<rparr>" i Idle Asleep] assms(4)
    by (fastforce simp: stop_cost_def queues_ok_def)
next
  case (finish i ty r nets)
  then show ?thesis
    using worker_cost_set [of "s\<lparr>networks := nets\<rparr>" i "Working ty r" Idle] assms(3,4)
    by (simp add: stop_cost_def queues_ok_def)
next
  case (exit i)
  then show ?thesis
    using worker_cost_set [of s i Asleep Done] assms(3,4) by (simp add: stop_cost_def queues_ok_def)
next
  case (join i)
  then show ?thesis
    using worker_at_Some [OF _ assms(5), of i Done] assms(3,4) by (simp add: stop_cost_def queues_ok_def)
qed (use assms(2-4) in \<open>simp_all add: stop_cost_def queues_ok_def\<close>)

lemma internal_run_cost:
  assumes "run fl s es s'" and "list_all internal es" and "queues_ok s" and "stop_flag s" and "shutdown_ok s"
  shows "length es + stop_cost s' \<le> stop_cost s \<and> queues_ok s' \<and> stop_flag s' \<and> shutdown_ok s'"
  using assms
proof (induction rule: run.induct)
  case (more es s' e s'')
  then have IH: "length es + stop_cost s' \<le> stop_cost s" "queues_ok s'" "stop_flag s'" "shutdown_ok s'"
    by simp_all
  with internal_step_cost [OF more.hyps(2)] shutdown_step [OF more.hyps(2)] more.prems(1) show ?case
    by fastforce
qed simp

lemma stop_cost_bound:
  assumes "shutdown_ok s"
  shows "stop_cost s \<le> 2 * pending s + 42"
proof -
  have "worker_cost w \<le> 3" for w by (cases w) simp_all
  then have "(\<Sum>w\<leftarrow>ws. worker_cost w) \<le> 3 * length ws" for ws
    by (induction ws) (simp_all add: add_mono)
  from this [of "workers s"] have "(\<Sum>w\<leftarrow>workers s. worker_cost w) \<le> 30"
    using assms by (simp add: shutdown_ok_def WORKER_THREADS_COUNT_def)
  moreover have "stopper_cost (stopper s) \<le> 11" by (cases "stopper s") (simp_all add: WORKER_THREADS_COUNT_def)
  ultimately show ?thesis by (simp add: stop_cost_def)
qed

section \<open>Progress\<close>

lemma worker_progress:
  assumes "crashed s = None" and "queues_ok s" and "stop_flag s" and "worker_at s i = Some w" and "w \<noteq> Done"
  shows "\<exists>e s'. internal e \<and> pool_step fl s e s'"
proof (cases w)
  case Idle
  have "queue_ok (queue_of (type_of_thread (of_nat i)) (queues s))"
    using assms(2) by (simp add: queues_ok_def)
  then obtain r q where "dequeue (queue_of (type_of_thread (of_nat i)) (queues s)) = Inr (r, q)"
    using rq.deq_total by blast
  then have n: "next_request (new_EvenThreadCount (of_nat i)) (queues s)
      = Inr ((type_of_thread (of_nat i), r), set_queue (type_of_thread (of_nat i)) q (queues s))"
    by (simp add: next_request_eq)
  show ?thesis
  proof (cases r)
    case None
    with find_empty [OF assms(1), of i] n Idle assms(4) show ?thesis by (metis internal.simps(4))
  next
    case (Some x)
    with take [OF assms(1), of i] n Idle assms(4) show ?thesis by (metis internal.simps(3))
  qed
next
  case (Working ty r)
  show ?thesis
  proof (cases "process fl ty r (networks s)")
    case (Inl e)
    with terminate [OF assms(1), of i ty r] Working assms(4) show ?thesis by (metis internal.simps(6))
  next
    case (Inr nets)
    with finish [OF assms(1), of i ty r] Working assms(4) show ?thesis by (metis internal.simps(5))
  qed
next
  case Asleep
  with exit [OF assms(1), of i] assms(3,4) show ?thesis by (metis internal.simps(8))
next
  case Done
  with assms(5) show ?thesis by simp
qed

lemma stopper_progress:
  assumes "crashed s = None" and "queues_ok s" and "shutdown_ok s" and "stopper s = Joining k"
  shows "\<exists>e s'. internal e \<and> pool_step fl s e s'"
proof (cases "worker_at s k")
  case None
  with return [OF assms(1,4)] show ?thesis by (metis internal.simps(11))
next
  case (Some w)
  show ?thesis
  proof (cases "w = Done")
    case True
    show ?thesis
    proof (cases "joined s ! k")
      case True
      with join_error [OF assms(1,4)] Some show ?thesis by (metis internal.simps(10) option.distinct(1))
    next
      case False
      with join [OF assms(1,4)] Some \<open>w = Done\<close> show ?thesis by (metis internal.simps(9))
    qed
  next
    case False
    have "stop_flag s" using assms(3,4) by (simp add: shutdown_ok_def)
    with worker_progress [OF assms(1,2) _ Some False] show ?thesis by blast
  qed
qed

text \<open>A shutdown can always be run to its end.\<close>

lemma shutdown_completes:
  assumes "queues_ok s" and "shutdown_ok s" and "stopper s \<noteq> Serving"
  shows "\<exists>es s'. list_all internal es \<and> run fl s es s' \<and> (stopper s' = Stopped \<or> crashed s' \<noteq> None)"
  using assms
proof (induction "stop_cost s" arbitrary: s rule: less_induct)
  case less
  show ?case
  proof (cases "stopper s = Stopped \<or> crashed s \<noteq> None")
    case True
    then show ?thesis using run.start [of fl s] by (metis list.pred_inject(1))
  next
    case False
    with less.prems(3) obtain k where "stopper s = Joining k" by (cases "stopper s") auto
    with False obtain e s1 where e: "internal e" "pool_step fl s e s1"
      using stopper_progress less.prems by blast
    have flag: "stop_flag s" using less.prems by (simp add: shutdown_ok_def)
    have "stopper s1 \<noteq> Serving" using e(2) less.prems(3) by cases auto
    with internal_step_cost [OF e(2,1) less.prems(1) flag less.prems(2)] shutdown_step [OF e(2) less.prems(2)]
    obtain es s' where "list_all internal es" "run fl s1 es s'" "stopper s' = Stopped \<or> crashed s' \<noteq> None"
      using less.hyps [of s1] by blast
    moreover from run_append [OF this(2) run.more [OF run.start e(2)]]
    have "run fl s (e # es) s'" by simp
    ultimately show ?thesis using e(1) by (metis list.pred_inject(2))
  qed
qed

section \<open>After the shutdown\<close>

definition retired :: "worker_pool \<Rightarrow> bool" where
  "retired s \<longleftrightarrow> workers s = replicate WORKER_THREADS_COUNT Done"

lemma retired_worker: "retired s \<Longrightarrow> worker_at s i = Some w \<Longrightarrow> w = Done"
  by (simp add: retired_def worker_at_def split: if_splits)

lemma retired_step:
  assumes "pool_step fl s e s'" and "retired s"
  shows "retired s' \<and> takes_of ty e = [] \<and> finishes_of ty e = [] \<and> networks s' = networks s"
  using assms(1)
proof cases
qed (use assms(2) retired_worker [OF assms(2)] in \<open>fastforce simp: retired_def\<close>)+

text \<open>A pool of returned workers, called to stop again, can only fail.\<close>

lemma retired_stopper:
  assumes "pool_step fl s e s'" and "internal e" and "retired s" and "stopper s = Joining 0" and "joined s ! 0"
  shows "e = Join_Error 0"
proof -
  have idle: "worker_at s i = (if i < WORKER_THREADS_COUNT then Some Done else None)" for i
    using assms(3) by (simp add: worker_at_def retired_def)
  from assms(1) show ?thesis
  proof cases
    case (join i)
    with assms(4,5) show ?thesis by simp
  next
    case (return i)
    with assms(4) idle show ?thesis by (simp add: WORKER_THREADS_COUNT_def)
  qed (use assms(2,4) idle in \<open>simp_all split: if_splits\<close>)
qed

lemma retired_run:
  "run fl s es s' \<Longrightarrow> retired s \<Longrightarrow>
    retired s' \<and> taken ty es = [] \<and> finished ty es = [] \<and> networks s' = networks s"
  by (induction rule: run.induct) (auto dest: retired_step)

section \<open>A computed shutdown\<close>

text \<open>
  Every worker finds its queue empty and goes to sleep; a request arrives while they sleep; then
  \<open>graceful_stop\<close> is called, the workers see the flag when they wake, and all threads are joined.
\<close>

definition sleep_events :: "event list" where
  "sleep_events = map Find_Empty [0..<10] @ [Arrive CORRELATION no_network]"

definition stop_events :: "event list" where
  "stop_events = Stop # map Exit [0..<10] @ map Join [0..<10] @ [Return]"

lemma shutdown_example:
  "\<exists>s. run id (new_WorkerThreads small_queues Map.empty) (sleep_events @ stop_events) s
    \<and> stopper s = Stopped"
proof -
  have "case exec id (new_WorkerThreads small_queues Map.empty) (sleep_events @ stop_events) of
      None \<Rightarrow> False | Some s \<Rightarrow> stopper s = Stopped"
    by code_simp
  then show ?thesis by (rule exec_reaches)
qed

lemma stopping_example:
  "\<exists>s. run id (new_WorkerThreads small_queues Map.empty) [Arrive CORRELATION no_network, Stop] s
    \<and> stopper s = Joining 0 \<and> pending s = 1"
proof -
  have "case exec id (new_WorkerThreads small_queues Map.empty) [Arrive CORRELATION no_network, Stop] of
      None \<Rightarrow> False | Some s \<Rightarrow> stopper s = Joining 0 \<and> pending s = 1"
    by code_simp
  then show ?thesis by (rule exec_reaches)
qed

section \<open>Properties\<close>

text \<open>
  C10. When \<open>graceful_stop\<close> returns, every worker has returned and no request is half-way: each request
  that ever arrived has been processed to its end, or is still in its queue.
\<close>

theorem graceful_stop_completes_work:
  assumes "run fl (new_WorkerThreads qs nets) es s" and "stopper s = Stopped"
    and "queue_ok (queue_of ty qs)" and "queue_contents (queue_of ty qs) = []"
    and "length (arrived ty es) \<le> 2 ^ 31"
  shows "workers s = replicate WORKER_THREADS_COUNT Done
    \<and> mset (map Some (arrived ty es))
      = mset (map Some (finished ty es)) + mset (queue_contents (queue_of ty (queues s)))"
proof -
  have ok: "shutdown_ok s" by (rule shutdown_run [OF assms(1) shutdown_ok_new])
  have "mset (taken ty es) = mset (finished ty es)"
    using accounting_run [OF assms(1), of ty] stopped_idle [OF ok assms(2)] by simp
  then have "mset (map Some (taken ty es)) = mset (map Some (finished ty es))" by simp
  moreover have "mset (map Some (arrived ty es))
      = mset (map Some (taken ty es) @ queue_contents (queue_of ty (queues s)))"
    using fifo_run [OF assms(1)] assms(3-5) by simp
  ultimately show ?thesis using stopped_workers [OF ok assms(2)] by (simp del: mset_map)
qed

theorem graceful_stop_completes_work_witness:
  "\<exists>s. run id (new_WorkerThreads small_queues Map.empty) (sleep_events @ stop_events) s
    \<and> stopper s = Stopped \<and> queue_contents (queue_of CORRELATION (queues s)) = [Some no_network]"
proof -
  obtain s where s: "run id (new_WorkerThreads small_queues Map.empty) (sleep_events @ stop_events) s"
    "stopper s = Stopped"
    using shutdown_example by blast
  have "arrived CORRELATION (sleep_events @ stop_events) = [no_network]"
    "finished CORRELATION (sleep_events @ stop_events) = []"
    by code_simp+
  with graceful_stop_completes_work [OF s, of CORRELATION] s show ?thesis by auto
qed




text \<open>
  Once \<open>graceful_stop\<close> has returned, nothing that arrives later is taken or processed, and no
  network changes.
\<close>

theorem requests_after_stop_ignored:
  assumes "run fl (new_WorkerThreads qs nets) es s" and "stopper s = Stopped" and "run fl s es' s'"
  shows "taken ty es' = [] \<and> finished ty es' = [] \<and> networks s' = networks s"
proof -
  have ok: "shutdown_ok s" by (rule shutdown_run [OF assms(1) shutdown_ok_new])
  have "retired s" using stopped_workers [OF ok assms(2)] by (simp add: retired_def)
  from retired_run [OF assms(3) this] show ?thesis by blast
qed

theorem requests_after_stop_ignored_witness:
  "\<exists>s s'. run id (new_WorkerThreads small_queues Map.empty) (sleep_events @ stop_events) s
    \<and> run id s [Arrive CORRELATION no_network] s' \<and> pending s' = 2 \<and> networks s' = networks s"
proof -
  have "case exec id (new_WorkerThreads small_queues Map.empty) (sleep_events @ stop_events) of None \<Rightarrow> False
    | Some s \<Rightarrow> stopper s = Stopped \<and> (case exec id s [Arrive CORRELATION no_network] of
        None \<Rightarrow> False | Some s' \<Rightarrow> pending s' = 2)"
    by code_simp
  from exec_reaches [OF this] exec_reaches obtain s s' where
    "run id (new_WorkerThreads small_queues Map.empty) (sleep_events @ stop_events) s" "stopper s = Stopped"
    "run id s [Arrive CORRELATION no_network] s'" "pending s' = 2"
    by blast
  with requests_after_stop_ignored [OF this(1-3)] show ?thesis by blast
qed

text \<open>
  A second call of \<open>graceful_stop\<close> (the signal handler of \<open>main\<close> calls it, and so does the destructor
  of the server) joins a thread that was joined before: \<open>std::thread::join\<close> throws. No other step
  of the pool can come first.
\<close>

theorem second_stop_fails:
  assumes "run fl (new_WorkerThreads qs nets) es s" and "stopper s = Stopped" and "crashed s = None"
  shows "\<exists>s' s''. pool_step fl s Stop s' \<and> pool_step fl s' (Join_Error 0) s'' \<and> crashed s'' = Some Not_Joinable
    \<and> (\<forall>e t. pool_step fl s' e t \<and> internal e \<longrightarrow> e = Join_Error 0)"
proof -
  have ok: "shutdown_ok s" by (rule shutdown_run [OF assms(1) shutdown_ok_new])
  have r: "retired s" using stopped_workers [OF ok assms(2)] by (simp add: retired_def)
  let ?s = "s\<lparr>stop_flag := True, stopper := Joining 0\<rparr>"
  have j: "joined ?s ! 0" "worker_at ?s 0 \<noteq> None"
    using ok r assms(2) by (auto simp: shutdown_ok_def all_joined_def worker_at_def retired_def WORKER_THREADS_COUNT_def)
  have "retired ?s" using r by (simp add: retired_def)
  then have only: "e = Join_Error 0" if "pool_step fl ?s e t" "internal e" for e t
    using retired_stopper [OF that \<open>retired ?s\<close>] j(1) by simp
  have "pool_step fl s Stop ?s" using assms(2,3) by (intro stop) simp_all
  moreover have "pool_step fl ?s (Join_Error 0) (?s\<lparr>crashed := Some Not_Joinable\<rparr>)"
    using assms(3) j by (intro join_error) simp_all
  moreover have "crashed (?s\<lparr>crashed := Some Not_Joinable\<rparr>) = Some Not_Joinable" by simp
  ultimately show ?thesis using only by blast
qed

theorem second_stop_fails_witness:
  "\<exists>s s' s''. run id (new_WorkerThreads small_queues Map.empty) (sleep_events @ stop_events) s
    \<and> pool_step id s Stop s' \<and> pool_step id s' (Join_Error 0) s'' \<and> crashed s'' = Some Not_Joinable"
proof -
  have "case exec id (new_WorkerThreads small_queues Map.empty) (sleep_events @ stop_events) of
      None \<Rightarrow> False | Some s \<Rightarrow> stopper s = Stopped \<and> crashed s = None"
    by code_simp
  from exec_reaches [OF this] second_stop_fails show ?thesis by blast
qed

end
