(* ===== verification/Worker_Pool_Safety.thy ===== *)
theory Worker_Pool_Safety
  imports Worker_Pool_Shutdown
begin

text \<open>
  What a pool does to the networks when all requests are valid: no worker fails, the networks stay
  well-formed, and their counters are the sums over the requests processed.
\<close>

section \<open>Requests reach workers of their type\<close>

definition typed_workers :: "worker_pool \<Rightarrow> bool" where
  "typed_workers s \<longleftrightarrow> (\<forall>i ty r. worker_at s i = Some (Working ty r) \<longrightarrow> ty = type_of_thread (of_nat i))"

lemma next_request_type: "next_request (new_EvenThreadCount i) qs = Inr ((ty, r), qs') \<Longrightarrow> ty = type_of_thread i"
  by (auto simp: next_request_eq and_then_Inr_iff)

lemma typed_step: "pool_step fl s e s' \<Longrightarrow> typed_workers s \<Longrightarrow> typed_workers s'"
  by (induction rule: pool_step.induct) (auto simp: typed_workers_def dest: next_request_type split: if_splits)

lemma typed_run: "run fl s0 es s \<Longrightarrow> typed_workers s0 \<Longrightarrow> typed_workers s"
  by (induction rule: run.induct) (auto dest: typed_step)

lemma typed_new: "typed_workers (new_WorkerThreads qs nets)"
  by (simp add: typed_workers_def worker_at_def new_WorkerThreads_def)

lemma working_in_work: "worker_at s i = Some (Working ty r) \<Longrightarrow> r \<in># in_work ty s"
  by (auto simp: worker_at_def in_work_def in_set_conv_nth simp flip: sum_mset_sum_list split: if_splits
      intro!: bexI [of _ "workers s ! i"])

text \<open>A request in work has arrived, as a request of the type that the worker takes it for.\<close>

lemma working_arrived:
  assumes "run fl (new_WorkerThreads qs nets) es s"
    and "queue_ok (queue_of ty qs)" and "queue_contents (queue_of ty qs) = []"
    and "length (arrived ty es) \<le> 2 ^ 31" and "worker_at s i = Some (Working ty r)"
  shows "r \<in> set (arrived ty es)"
proof -
  have "r \<in># mset (taken ty es)"
    using accounting_run [OF assms(1), of ty] working_in_work [OF assms(5)] by simp
  moreover have "set (map Some (taken ty es)) \<subseteq> set (map Some (arrived ty es))"
    using fifo_run [OF assms(1)] assms(2-4) by (metis Un_upper1 new_WorkerThreads_fields(1) set_append)
  ultimately show ?thesis by auto
qed

section \<open>Processing a valid request\<close>

fun request_valid :: "string set \<Rightarrow> request_type \<Rightarrow> request \<Rightarrow> bool" where
  "request_valid cs STIMULUS (Handle_Count c t) = (request_ok c \<and> set_option t \<subseteq> cs)"
| "request_valid cs CORRELATION (Handle_List hs t) = ((\<forall>h\<in>set hs. valid_handle h) \<and> set_option t \<subseteq> cs)"
| "request_valid cs ty r = False"

fun well_typed :: "request_type \<Rightarrow> request \<Rightarrow> bool" where
  "well_typed STIMULUS (Handle_Count c t) = True"
| "well_typed CORRELATION (Handle_List hs t) = True"
| "well_typed ty r = False"

text \<open>What a processed request adds to a counter of the network of a context.\<close>

fun adds :: "string \<Rightarrow> counter_id \<Rightarrow> request \<Rightarrow> u32" where
  "adds c i (Handle_List hs t) = (if t = Some c then request_weight hs i else 0)"
| "adds c i (Handle_Count m t) = 0"

definition networks_ok :: "networks \<Rightarrow> bool" where
  "networks_ok nets \<longleftrightarrow> (\<forall>c net. nets c = Some net \<longrightarrow> network_ok net)"

definition context_counter :: "networks \<Rightarrow> string \<Rightarrow> counter_id \<Rightarrow> u32" where
  "context_counter nets c i = (case nets c of None \<Rightarrow> 0 | Some net \<Rightarrow> counter net i)"

lemma spread_counter:
  assumes "network_ok net" and "request_ok c"
  shows "\<exists>net'. spread_stimuli fl c (Some net) = Inr (Some net') \<and> network_ok net' \<and> (\<forall>i. counter net' i = counter net i)"
proof -
  obtain net' where s: "spread_stimuli fl c (Some net) = Inr (Some net')" "frame net net'"
    using spread_stimuli_steps [OF assms, of fl] by blast
  have "counter net' i = counter net i" for i by (cases i) (simp_all add: frame_counts [OF s(2)])
  with s show ?thesis by (auto simp: frame_def)
qed

lemma process_ok:
  assumes "networks_ok nets" and "request_valid (dom nets) ty r"
  shows "\<exists>nets'. process fl ty r nets = Inr nets' \<and> networks_ok nets' \<and> dom nets' = dom nets
    \<and> (\<forall>c\<in>dom nets. \<forall>i. context_counter nets' c i = context_counter nets c i + adds c i r)"
proof (cases r)
  case (Handle_Count m t)
  with assms(2) have ty: "ty = STIMULUS" and m: "request_ok m" and t: "set_option t \<subseteq> dom nets"
    by (cases ty; simp)+
  show ?thesis
  proof (cases t)
    case None
    then show ?thesis using assms(1) by (simp add: Handle_Count ty on_network_def spread_stimuli_def)
  next
    case (Some x)
    with t obtain net where net: "nets x = Some net" by auto
    with assms(1) have "network_ok net" by (simp add: networks_ok_def)
    from spread_counter [OF this m, of fl] net assms(1) Some show ?thesis
      by (auto simp: Handle_Count ty on_network_def networks_ok_def context_counter_def)
  qed
next
  case (Handle_List hs t)
  with assms(2) have ty: "ty = CORRELATION" and hs: "\<forall>h\<in>set hs. valid_handle h" and t: "set_option t \<subseteq> dom nets"
    by (cases ty; simp)+
  show ?thesis
  proof (cases t)
    case None
    then show ?thesis using assms(1) by (simp add: Handle_List ty on_network_def correlation_def)
  next
    case (Some x)
    with t obtain net where net: "nets x = Some net" by auto
    with assms(1) have "network_ok net" by (simp add: networks_ok_def)
    from correlation_counts [OF this hs, of fl] net assms(1) Some show ?thesis
      by (auto simp: Handle_List ty on_network_def networks_ok_def context_counter_def)
  qed
qed

section \<open>Runs on valid requests\<close>

definition valid_arrivals :: "string set \<Rightarrow> event list \<Rightarrow> bool" where
  "valid_arrivals cs es \<longleftrightarrow> (\<forall>ty. length (arrived ty es) \<le> 2 ^ 31 \<and> (\<forall>r\<in>set (arrived ty es). request_valid cs ty r))"

definition empty_queues :: "queues \<Rightarrow> bool" where
  "empty_queues qs \<longleftrightarrow> (\<forall>ty. queue_ok (queue_of ty qs) \<and> queue_contents (queue_of ty qs) = [])"

definition settled_pool :: "networks \<Rightarrow> event list \<Rightarrow> worker_pool \<Rightarrow> bool" where
  "settled_pool nets es s \<longleftrightarrow> (crashed s = None \<or> crashed s = Some Not_Joinable) \<and> networks_ok (networks s)
     \<and> dom (networks s) = dom nets
     \<and> (\<forall>c\<in>dom nets. \<forall>i. context_counter (networks s) c i
           = context_counter nets c i + (\<Sum>r\<leftarrow>finished CORRELATION es. adds c i r))"

lemma valid_arrivals_append:
  assumes "valid_arrivals cs (es @ es')" shows "valid_arrivals cs es"
proof -
  have "arrived ty (es @ es') = arrived ty es @ arrived ty es'" for ty by (simp add: arrived_def)
  then show ?thesis using assms by (auto simp: valid_arrivals_def intro: le_trans [OF le_add1])
qed

lemma request_valid_stimulus: "request_valid cs STIMULUS r \<Longrightarrow> adds c i r = 0"
  by (cases r) simp_all

lemma settled_step:
  assumes "pool_step fl s e s'" and "settled_pool nets es s"
    and "\<And>i ty r. worker_at s i = Some (Working ty r) \<Longrightarrow> request_valid (dom nets) ty r"
  shows "settled_pool nets (es @ [e]) s'"
  using assms(1)
proof cases
  case (finish i ty r nets')
  have ok: "networks_ok (networks s)" "dom (networks s) = dom nets"
    using assms(2) by (simp_all add: settled_pool_def)
  have valid: "request_valid (dom nets) ty r" using assms(3) finish(4) .
  then have "networks_ok nets' \<and> dom nets' = dom nets
    \<and> (\<forall>c\<in>dom nets. \<forall>j. context_counter nets' c j = context_counter (networks s) c j + adds c j r)"
    using process_ok [OF ok(1), of ty r fl] ok(2) finish(5) by auto
  with assms(2) request_valid_stimulus [of "dom nets" r] valid show ?thesis
    by (cases ty) (simp_all add: finish settled_pool_def add.assoc)
next
  case (terminate i ty r e')
  have ok: "networks_ok (networks s)" "dom (networks s) = dom nets"
    using assms(2) by (simp_all add: settled_pool_def)
  from process_ok [OF ok(1), of ty r fl] ok(2) assms(3) [OF terminate(4)] terminate(5) show ?thesis by auto
qed (use assms(2) in \<open>simp_all add: settled_pool_def\<close>)

lemma settled_run:
  assumes "run fl (new_WorkerThreads qs nets) es s"
    and "empty_queues qs" and "networks_ok nets" and "valid_arrivals (dom nets) es"
  shows "settled_pool nets es s"
  using assms(1,4)
proof (induction rule: run.induct)
  case start
  then show ?case using assms(3) by (simp add: settled_pool_def)
next
  case (more es s e s')
  have v: "valid_arrivals (dom nets) es" by (rule valid_arrivals_append [OF more.prems])
  show ?case
  proof (rule settled_step [OF more.hyps(2) more.IH [OF v]])
    fix i ty r assume w: "worker_at s i = Some (Working ty r)"
    from working_arrived [OF more.hyps(1) _ _ _ w] v assms(2)
    show "request_valid (dom nets) ty r" by (auto simp: valid_arrivals_def empty_queues_def)
  qed
qed

text \<open>
  The counters do not depend on the interleaving: when \<open>graceful_stop\<close> has returned and the queue of
  the correlation requests is empty, the counts of every context are the initial ones plus what each
  request that ever arrived for this context adds, modulo \<open>2 ^ 32\<close>.
\<close>

lemma counts_after_shutdown:
  assumes "run fl (new_WorkerThreads qs nets) es s"
    and "empty_queues qs" and "networks_ok nets" and "valid_arrivals (dom nets) es"
    and "stopper s = Stopped" and "queue_contents (queue_of CORRELATION (queues s)) = []" and "c \<in> dom nets"
  shows "context_counter (networks s) c i
    = context_counter nets c i + (\<Sum>r\<leftarrow>arrived CORRELATION es. adds c i r)"
proof -
  have ok: "shutdown_ok s" by (rule shutdown_run [OF assms(1) shutdown_ok_new])
  have "map Some (arrived CORRELATION es) = map Some (taken CORRELATION es)"
    using fifo_run [OF assms(1), of CORRELATION] assms(2,4,6)
    by (simp add: empty_queues_def valid_arrivals_def)
  then have "arrived CORRELATION es = taken CORRELATION es" by simp
  then have "mset (arrived CORRELATION es) = mset (finished CORRELATION es)"
    using accounting_run [OF assms(1), of CORRELATION] stopped_idle [OF ok assms(5)] by simp
  then have "(\<Sum>r\<leftarrow>arrived CORRELATION es. adds c i r) = (\<Sum>r\<leftarrow>finished CORRELATION es. adds c i r)"
    by (metis mset_map sum_mset_sum_list)
  with settled_run [OF assms(1-4)] assms(7) show ?thesis by (simp add: settled_pool_def)
qed

text \<open>With one call of \<open>graceful_stop\<close>, only threads that were not joined before are joined.\<close>

definition stops :: "event list \<Rightarrow> nat" where
  "stops es = length (filter (\<lambda>e. e = Stop) es)"

definition joins_once :: "event list \<Rightarrow> worker_pool \<Rightarrow> bool" where
  "joins_once es s \<longleftrightarrow> (stops es = 0 \<longrightarrow> stopper s = Serving) \<and> (stops es \<le> 1 \<longrightarrow>
     (\<forall>i<WORKER_THREADS_COUNT. joined s ! i \<longrightarrow> (case stopper s of Serving \<Rightarrow> False | Joining k \<Rightarrow> i < k | Stopped \<Rightarrow> True)))"

lemma stops_simps [simp]: "stops [] = 0" "stops (es @ [e]) = stops es + (if e = Stop then 1 else 0)"
  by (simp_all add: stops_def)

lemma joins_once_step:
  assumes "pool_step fl s e s'" and "joins_once es s" and "shutdown_ok s"
  shows "joins_once (es @ [e]) s'"
  using assms(1)
proof cases
  case stop
  then show ?thesis using assms(2) by (auto simp: joins_once_def split: stopper.splits)
next
  case (join i)
  then show ?thesis using assms(2,3) by (auto simp: joins_once_def nth_list_update shutdown_ok_def less_Suc_eq)
qed (use assms(2) in \<open>simp_all add: joins_once_def\<close>)

lemma joins_once_run: "run fl (new_WorkerThreads qs nets) es s \<Longrightarrow> joins_once es s"
proof (induction rule: run.induct)
  case start
  then show ?case by (simp add: joins_once_def new_WorkerThreads_def)
next
  case (more es s e s')
  with joins_once_step shutdown_run [OF more.hyps(1) shutdown_ok_new] show ?case by blast
qed

lemma no_crash_run:
  assumes "run fl (new_WorkerThreads qs nets) es s"
    and "empty_queues qs" and "networks_ok nets" and "valid_arrivals (dom nets) es" and "stops es \<le> 1"
  shows "crashed s = None"
  using assms(1,4,5)
proof (induction rule: run.induct)
  case (more es s e s')
  have v: "valid_arrivals (dom nets) es" and one: "stops es \<le> 1"
    using valid_arrivals_append [OF more.prems(1)] more.prems(2) by simp_all
  from more.hyps(2) show ?case
  proof cases
    case (terminate i ty r e')
    have "request_valid (dom nets) ty r"
      using working_arrived [OF more.hyps(1) _ _ _ terminate(4)] v assms(2)
      by (auto simp: valid_arrivals_def empty_queues_def)
    with process_ok [of "networks s" ty r fl] settled_run [OF more.hyps(1) assms(2,3) v] terminate(5)
    show ?thesis by (auto simp: settled_pool_def)
  next
    case (join_error i)
    then have "i < WORKER_THREADS_COUNT"
      using shutdown_run [OF more.hyps(1) shutdown_ok_new]
      by (auto simp: worker_at_def shutdown_ok_def split: if_splits)
    moreover have "\<forall>j<WORKER_THREADS_COUNT. joined s ! j \<longrightarrow> j < i"
      using joins_once_run [OF more.hyps(1)] one join_error(4) by (simp add: joins_once_def)
    ultimately have "i < i" using join_error(6) by blast
    then show ?thesis by simp
  qed (use more.IH [OF v one] in simp_all)
qed simp

section \<open>Properties\<close>

text \<open>
  C29. The cast of the \<open>void *\<close> in a worker thread is right: if the requests that arrive are of the type
  of their queue, a worker of an even number only works on stimulus requests, one of an odd number
  only on correlation requests, and the request is of that type.
\<close>

theorem workers_keep_their_type:
  assumes "run fl (new_WorkerThreads qs nets) es s" and "empty_queues qs"
    and "\<forall>ty. length (arrived ty es) \<le> 2 ^ 31 \<and> (\<forall>r\<in>set (arrived ty es). well_typed ty r)"
    and "worker_at s i = Some (Working ty r)"
  shows "ty = (if even i then STIMULUS else CORRELATION) \<and> well_typed ty r
    \<and> process fl ty r nets' = (case r of
        Handle_Count c network \<Rightarrow> on_network (spread_stimuli fl c) network nets'
      | Handle_List hs network \<Rightarrow> on_network (correlation fl hs) network nets')"
proof -
  have "r \<in> set (arrived ty es)"
    using working_arrived [OF assms(1) _ _ _ assms(4)] assms(2,3) by (auto simp: empty_queues_def)
  with assms(3) have typed: "well_typed ty r" by blast
  have "i < 10"
    using worker_at_Some [OF assms(4) shutdown_run [OF assms(1) shutdown_ok_new]] by (simp add: WORKER_THREADS_COUNT_def)
  then have "i \<in> {0, 1, 2, 3, 4, 5, 6, 7, 8, 9}" by auto
  moreover have "ty = type_of_thread (of_nat i)"
    using typed_run [OF assms(1) typed_new] assms(4) by (simp add: typed_workers_def)
  ultimately have "ty = (if even i then STIMULUS else CORRELATION)"
    by (auto simp: type_of_thread_def)
  with typed show ?thesis by (cases ty; cases r) simp_all
qed

theorem workers_keep_their_type_witness:
  "\<exists>s. run id (new_WorkerThreads small_queues Map.empty) first_events s
    \<and> process id CORRELATION no_network Map.empty = on_network (correlation id []) None Map.empty"
proof -
  have "case exec id (new_WorkerThreads small_queues Map.empty) first_events of None \<Rightarrow> False
    | Some s \<Rightarrow> worker_at s 1 = Some (Working CORRELATION no_network)"
    by code_simp
  from exec_reaches [OF this] obtain s where s: "run id (new_WorkerThreads small_queues Map.empty) first_events s"
    "worker_at s 1 = Some (Working CORRELATION no_network)"
    by blast
  have "length (arrived ty first_events) \<le> 2 ^ 31 \<and> (\<forall>r\<in>set (arrived ty first_events). well_typed ty r)" for ty
    by (cases ty) (simp_all add: first_events_def arrived_def no_network_def)
  with workers_keep_their_type [OF s(1) _ _ s(2)] s(1) show ?thesis
    by (auto simp: empty_queues_def no_network_def)
qed

end
