(* ===== verification/Broker_Server.thy ===== *)
theory Broker_Server
  imports Worker_Pool_Safety
begin

text \<open>
  \<open>attention_broker_server/AttentionBrokerServer\<close>: the RPC interface in front of the worker pool. The
  map \<open>hebbian_network\<close> of the server is the field \<open>networks\<close> of the pool, where the pointers of the
  requests lead; the two queues are the ones of the pool. A handler runs as one step: what it does to
  the shared state is the lookup of a context and one enqueue.
\<close>

section \<open>State\<close>

datatype status = OK | CANCELLED

record server =
  rpc_api_enabled :: bool
  worker_threads :: worker_pool

definition GLOBAL_CONTEXT :: string where
  "GLOBAL_CONTEXT = ''global''"

definition new_AttentionBrokerServer :: "server result" where
  "new_AttentionBrokerServer =
     and_then new_HebbianNetwork (\<lambda>net.
       Inr \<lparr>rpc_api_enabled = True,
            worker_threads = new_WorkerThreads
              \<lparr>stimulus = default_RequestQueue, correlation_queue = default_RequestQueue\<rparr>
              [GLOBAL_CONTEXT \<mapsto> net]\<rparr>)"

section \<open>Handlers\<close>

definition ack :: "string \<Rightarrow> server \<Rightarrow> status \<times> string" where
  "ack msg s = (if rpc_api_enabled s then OK else CANCELLED, msg)"

definition ping :: "server \<Rightarrow> status \<times> string" where
  "ping s = ack ''PING'' s"

text \<open>
  The network of a context, by its name, and the map with that network in it. \<open>operator[]\<close> answers
  NULL for a global context that is not in the map; the constructor puts it there.
\<close>

definition select_hebbian_network :: "string \<Rightarrow> networks \<Rightarrow> (string option \<times> networks) result" where
  "select_hebbian_network c nets =
     (if c = '''' then Inr (if nets GLOBAL_CONTEXT = None then None else Some GLOBAL_CONTEXT, nets)
      else case nets c of
          Some net \<Rightarrow> Inr (Some c, nets)
        | None \<Rightarrow> and_then new_HebbianNetwork (\<lambda>net. Inr (Some c, nets(c \<mapsto> net))))"

definition enqueue_request :: "request_type \<Rightarrow> request \<Rightarrow> networks \<Rightarrow> server \<Rightarrow> server result" where
  "enqueue_request ty r nets s =
     and_then (enqueue (queue_of ty (queues (worker_threads s))) (Some r)) (\<lambda>q.
       Inr (s\<lparr>worker_threads := (worker_threads s)
                \<lparr>queues := set_queue ty q (queues (worker_threads s)), networks := nets\<rparr>\<rparr>))"

definition stimulate :: "string \<Rightarrow> handle_count \<Rightarrow> server \<Rightarrow> ((status \<times> string) \<times> server) result" where
  "stimulate c handle_count s =
     and_then
       (if 0 < length handle_count
        then and_then (select_hebbian_network c (networks (worker_threads s))) (\<lambda>(network, nets).
               enqueue_request STIMULUS (Handle_Count handle_count network) nets s)
        else Inr s)
       (\<lambda>s. Inr (ack ''STIMULATE'' s, s))"

definition correlate :: "string \<Rightarrow> string list \<Rightarrow> server \<Rightarrow> ((status \<times> string) \<times> server) result" where
  "correlate c handle_list s =
     and_then
       (if 0 < length handle_list
        then and_then (select_hebbian_network c (networks (worker_threads s))) (\<lambda>(network, nets).
               enqueue_request CORRELATION (Handle_List handle_list network) nets s)
        else Inr s)
       (\<lambda>s. Inr (ack ''CORRELATE'' s, s))"

section \<open>Steps of the server\<close>

text \<open>
  \<open>graceful_shutdown\<close> closes the interface and calls \<open>graceful_stop\<close>; it returns with the step
  \<open>Return\<close> of the pool. The destructor calls it too, before it frees what the server owns. The other
  steps of the pool go on beside the handlers. The replies of the handlers are part of the events.
\<close>

datatype server_event =
    Ping "status \<times> string"
  | Stimulate string handle_count "status \<times> string"
  | Correlate string "string list" "status \<times> string"
  | Graceful_Shutdown
  | Thread event

inductive server_step :: "(rat \<Rightarrow> rat) \<Rightarrow> server \<Rightarrow> server_event \<Rightarrow> server \<Rightarrow> bool" for fl where
  ping: "crashed (worker_threads s) = None \<Longrightarrow> server_step fl s (Ping (ping s)) s"
| stimulate: "crashed (worker_threads s) = None \<Longrightarrow> stimulate c h s = Inr (a, s') \<Longrightarrow>
    server_step fl s (Stimulate c h a) s'"
| correlate: "crashed (worker_threads s) = None \<Longrightarrow> correlate c h s = Inr (a, s') \<Longrightarrow>
    server_step fl s (Correlate c h a) s'"
| graceful_shutdown: "pool_step fl (worker_threads s) Stop p \<Longrightarrow>
    server_step fl s Graceful_Shutdown (s\<lparr>rpc_api_enabled := False, worker_threads := p\<rparr>)"
| thread: "pool_step fl (worker_threads s) e p \<Longrightarrow> internal e \<Longrightarrow>
    server_step fl s (Thread e) (s\<lparr>worker_threads := p\<rparr>)"

inductive server_run :: "(rat \<Rightarrow> rat) \<Rightarrow> server \<Rightarrow> server_event list \<Rightarrow> server \<Rightarrow> bool" for fl s where
  server_start: "server_run fl s [] s"
| server_more: "server_run fl s es s' \<Longrightarrow> server_step fl s' e s'' \<Longrightarrow> server_run fl s (es @ [e]) s''"

text \<open>The same as a function, to compute runs.\<close>

fun serve :: "(rat \<Rightarrow> rat) \<Rightarrow> server_event \<Rightarrow> server \<Rightarrow> server option" where
  "serve fl (Ping a) s = (if a = ping s then Some s else None)"
| "serve fl (Stimulate c h a) s =
     (case stimulate c h s of Inl e \<Rightarrow> None | Inr (a', s') \<Rightarrow> if a' = a then Some s' else None)"
| "serve fl (Correlate c h a) s =
     (case correlate c h s of Inl e \<Rightarrow> None | Inr (a', s') \<Rightarrow> if a' = a then Some s' else None)"
| "serve fl Graceful_Shutdown s =
     map_option (\<lambda>p. s\<lparr>rpc_api_enabled := False, worker_threads := p\<rparr>) (pool_event fl Stop (worker_threads s))"
| "serve fl (Thread e) s =
     (if internal e then map_option (\<lambda>p. s\<lparr>worker_threads := p\<rparr>) (pool_event fl e (worker_threads s)) else None)"

fun serve_all :: "(rat \<Rightarrow> rat) \<Rightarrow> server \<Rightarrow> server_event list \<Rightarrow> server option" where
  "serve_all fl s [] = Some s"
| "serve_all fl s (e # es) =
     (if crashed (worker_threads s) = None
      then case serve fl e s of None \<Rightarrow> None | Some s' \<Rightarrow> serve_all fl s' es else None)"

lemma serve_step: "crashed (worker_threads s) = None \<Longrightarrow> serve fl e s = Some s' \<Longrightarrow> server_step fl s e s'"
  by (cases e) (auto intro: server_step.intros simp: pool_step_event split: if_splits sum.splits prod.splits)

lemma server_run_append:
  "server_run fl s' es' s'' \<Longrightarrow> server_run fl s es s' \<Longrightarrow> server_run fl s (es @ es') s''"
  by (induction rule: server_run.induct)
    (auto simp: append_assoc [symmetric] simp del: append_assoc intro: server_run.intros)

lemma serve_all_run: "serve_all fl s es = Some s' \<Longrightarrow> server_run fl s es s'"
proof (induction es arbitrary: s)
  case Nil
  then show ?case by (simp add: server_run.server_start)
next
  case (Cons e es)
  then obtain s1 where "server_step fl s e s1" "serve_all fl s1 es = Some s'"
    by (auto dest: serve_step split: if_splits option.splits)
  with Cons.IH server_run_append [of fl s1 es s' s "[e]"]
    server_run.server_more [OF server_run.server_start, of fl s e s1]
  show ?case by simp
qed

lemma serve_reaches:
  "(case serve_all fl s es of None \<Rightarrow> False | Some s' \<Rightarrow> P s') \<Longrightarrow> \<exists>s'. server_run fl s es s' \<and> P s'"
  by (cases "serve_all fl s es") (auto dest: serve_all_run)

end
