(* ===== verification/Broker_Server_Correct.thy ===== *)
theory Broker_Server_Correct
  imports Broker_Server
begin

text \<open>
  The handlers of the server, and the server as a whole: its runs are runs of the worker pool, so what
  holds of the pool holds of the server.
\<close>

section \<open>The handlers\<close>

text \<open>The name under which the network of a context is kept.\<close>

definition context_name :: "string \<Rightarrow> string" where
  "context_name c = (if c = '''' then GLOBAL_CONTEXT else c)"

definition empty_network :: hebbian_network where
  "empty_network = (case new_HebbianNetwork of Inr net \<Rightarrow> net)"

lemma empty_network:
  "new_HebbianNetwork = Inr empty_network" "network_ok empty_network" "counter empty_network i = 0"
proof -
  obtain net where net: "new_HebbianNetwork = Inr net" "network_ok net" "node_map net = (\<lambda>_. None)"
    using new_HebbianNetwork_ok by blast
  then have e: "empty_network = net" by (simp add: empty_network_def net(1))
  with net show "new_HebbianNetwork = Inr empty_network" "network_ok empty_network" by simp_all
  show "counter empty_network i = 0" by (cases i) (simp_all add: e node_count_def link_count_def net(3))
qed

definition network_of :: "networks \<Rightarrow> string \<Rightarrow> hebbian_network" where
  "network_of nets c = (case nets c of None \<Rightarrow> empty_network | Some net \<Rightarrow> net)"

definition open_context :: "string \<Rightarrow> networks \<Rightarrow> networks" where
  "open_context c nets = nets(c \<mapsto> network_of nets c)"

lemma select_opens:
  assumes "GLOBAL_CONTEXT \<in> dom nets"
  shows "select_hebbian_network c nets = Inr (Some (context_name c), open_context (context_name c) nets)"
  using assms
  by (auto simp: select_hebbian_network_def context_name_def open_context_def network_of_def empty_network(1)
      fun_upd_idem split: option.split)

fun request_of :: "server_event \<Rightarrow> (request_type \<times> request) option" where
  "request_of (Stimulate c h a) =
     (if h = [] then None else Some (STIMULUS, Handle_Count h (Some (context_name c))))"
| "request_of (Correlate c h a) =
     (if h = [] then None else Some (CORRELATION, Handle_List h (Some (context_name c))))"
| "request_of e = None"

text \<open>What a handler does to the server, when it does not fail.\<close>

definition accepts :: "server_event \<Rightarrow> server \<Rightarrow> server \<Rightarrow> bool" where
  "accepts e s s' \<longleftrightarrow>
     (case request_of e of None \<Rightarrow> s' = s
      | Some (ty, r) \<Rightarrow> \<exists>q. enqueue (queue_of ty (queues (worker_threads s))) (Some r) = Inr q
          \<and> s' = s\<lparr>worker_threads := (worker_threads s)\<lparr>queues := set_queue ty q (queues (worker_threads s)),
                     networks := open_context (the (target r)) (networks (worker_threads s))\<rparr>\<rparr>)"

lemma enqueue_request_iff:
  "enqueue_request ty r nets s = Inr s' \<longleftrightarrow>
    (\<exists>q. enqueue (queue_of ty (queues (worker_threads s))) (Some r) = Inr q
       \<and> s' = s\<lparr>worker_threads := (worker_threads s)
             \<lparr>queues := set_queue ty q (queues (worker_threads s)), networks := nets\<rparr>\<rparr>)"
  by (auto simp: enqueue_request_def and_then_Inr_iff)

lemma handlers_accept:
  assumes "GLOBAL_CONTEXT \<in> dom (networks (worker_threads s))"
  shows "stimulate c h s = Inr (a, s') \<longleftrightarrow> a = ack ''STIMULATE'' s \<and> accepts (Stimulate c h a) s s'"
    and "correlate c hs s = Inr (a, s') \<longleftrightarrow> a = ack ''CORRELATE'' s \<and> accepts (Correlate c hs a) s s'"
  by (auto simp: stimulate_def correlate_def accepts_def and_then_Inr_iff select_opens [OF assms]
      enqueue_request_iff ack_def)

section \<open>The server is the pool with all contexts open\<close>

definition completed :: "networks \<Rightarrow> networks" where
  "completed nets = (\<lambda>c. Some (network_of nets c))"

definition everywhere :: "worker_pool \<Rightarrow> worker_pool" where
  "everywhere p = p\<lparr>networks := completed (networks p)\<rparr>"

fun pool_events :: "server_event \<Rightarrow> event list" where
  "pool_events Graceful_Shutdown = [Stop]"
| "pool_events (Thread e) = [e]"
| "pool_events e = (case request_of e of None \<Rightarrow> [] | Some (ty, r) \<Rightarrow> [Arrive ty r])"

definition pool_trace :: "server_event list \<Rightarrow> event list" where
  "pool_trace es = concat (map pool_events es)"

lemma pool_trace_simps [simp]:
  "pool_trace [] = []" "pool_trace (es @ [e]) = pool_trace es @ pool_events e"
  by (simp_all add: pool_trace_def)

lemma everywhere_fields [simp]:
  "queues (everywhere p) = queues p" "stop_flag (everywhere p) = stop_flag p"
  "workers (everywhere p) = workers p" "joined (everywhere p) = joined p" "stopper (everywhere p) = stopper p"
  "crashed (everywhere p) = crashed p" "networks (everywhere p) = completed (networks p)"
  "worker_at (everywhere p) = worker_at p"
  by (simp_all add: everywhere_def)

lemma completed_open [simp]: "completed (open_context c nets) = completed nets"
  by (auto simp: completed_def network_of_def open_context_def fun_eq_iff)

lemma completed_update: "completed (nets(c \<mapsto> net)) = (completed nets)(c \<mapsto> net)"
  by (auto simp: completed_def network_of_def fun_eq_iff)

lemma completed_Some: "nets c = Some net \<Longrightarrow> completed nets c = Some net"
  by (simp add: completed_def network_of_def)

lemma everywhere_updates [simp]:
  "everywhere (p\<lparr>queues := qs\<rparr>) = (everywhere p)\<lparr>queues := qs\<rparr>"
  "everywhere (p\<lparr>stop_flag := b\<rparr>) = (everywhere p)\<lparr>stop_flag := b\<rparr>"
  "everywhere (p\<lparr>stopper := st\<rparr>) = (everywhere p)\<lparr>stopper := st\<rparr>"
  "everywhere (p\<lparr>joined := js\<rparr>) = (everywhere p)\<lparr>joined := js\<rparr>"
  "everywhere (p\<lparr>crashed := x\<rparr>) = (everywhere p)\<lparr>crashed := x\<rparr>"
  "everywhere (set_worker i w p) = set_worker i w (everywhere p)"
  "everywhere (p\<lparr>networks := nets\<rparr>) = p\<lparr>networks := completed nets\<rparr>"
  "(everywhere p)\<lparr>networks := nets\<rparr> = p\<lparr>networks := nets\<rparr>"
  by (simp_all add: everywhere_def set_worker_def)

text \<open>A worker whose request leads to an open context does not see the other ones.\<close>

lemma on_network_completed:
  assumes "set_option t \<subseteq> dom nets" and "\<And>net v. f (Some net) = Inr v \<Longrightarrow> v \<noteq> None"
  shows "on_network f t (completed nets) = map_sum id completed (on_network f t nets)"
proof (cases t)
  case None
  then show ?thesis by (cases "f None") (simp_all add: on_network_def)
next
  case (Some c)
  with assms(1) obtain net where net: "nets c = Some net" by auto
  show ?thesis
  proof (cases "f (Some net)")
    case (Inr v)
    with assms(2) obtain net' where "v = Some net'" by blast
    with Inr show ?thesis
      by (simp add: on_network_def Some net completed_Some completed_update)
  qed (simp add: on_network_def Some net completed_Some)
qed

lemma on_network_dom:
  assumes "on_network f t nets = Inr nets'" and "\<And>net v. f (Some net) = Inr v \<Longrightarrow> v \<noteq> None"
  shows "dom nets' = dom nets"
proof (cases t)
  case None
  with assms(1) show ?thesis by (cases "f None") (simp_all add: on_network_def)
next
  case (Some c)
  show ?thesis
  proof (cases "nets c")
    case None
    with assms(1) Some show ?thesis by (simp add: on_network_def)
  next
    case net: (Some net)
    with assms(1) Some obtain v where v: "f (Some net) = Inr v" "nets' = nets(c := v)"
      by (auto simp: on_network_def and_then_Inr_iff)
    with assms(2) [OF v(1)] net show ?thesis by auto
  qed
qed

lemma spread_stimuli_Some: "spread_stimuli fl c (Some net) = Inr v \<Longrightarrow> v \<noteq> None"
  by (auto simp: spread_stimuli_def alienate_tokens_def Let_def and_then_Inr_iff split: prod.splits)

lemma correlation_Some: "correlation fl hs (Some net) = Inr v \<Longrightarrow> v \<noteq> None"
  by (auto simp: correlation_def and_then_Inr_iff)

lemma process_completed:
  assumes "set_option (target r) \<subseteq> dom nets"
  shows "process fl ty r (completed nets) = map_sum id completed (process fl ty r nets)"
proof (cases r)
  case (Handle_Count c t)
  have "on_network (spread_stimuli fl c) t (completed nets)
      = map_sum id completed (on_network (spread_stimuli fl c) t nets)"
    by (rule on_network_completed [OF _ spread_stimuli_Some]) (use assms Handle_Count in auto)
  with Handle_Count show ?thesis by (cases ty) simp_all
next
  case (Handle_List hs t)
  have "on_network (correlation fl hs) t (completed nets)
      = map_sum id completed (on_network (correlation fl hs) t nets)"
    by (rule on_network_completed [OF _ correlation_Some]) (use assms Handle_List in auto)
  with Handle_List show ?thesis by (cases ty) simp_all
qed

lemma process_dom:
  assumes "process fl ty r nets = Inr nets'" shows "dom nets' = dom nets"
proof (cases r)
  case (Handle_Count c t)
  with assms on_network_dom [OF _ spread_stimuli_Some] show ?thesis by (cases ty) simp_all
next
  case (Handle_List hs t)
  with assms on_network_dom [OF _ correlation_Some] show ?thesis by (cases ty) simp_all
qed

section \<open>Steps\<close>

definition opened :: "server_event list \<Rightarrow> server \<Rightarrow> bool" where
  "opened es s \<longleftrightarrow> GLOBAL_CONTEXT \<in> dom (networks (worker_threads s))
     \<and> (\<forall>ty. \<forall>r\<in>set (arrived ty (pool_trace es)). set_option (target r) \<subseteq> dom (networks (worker_threads s)))"

lemma thread_step_everywhere:
  assumes "pool_step fl p e p'" and "internal e \<or> e = Stop"
    and "\<And>i ty r. worker_at p i = Some (Working ty r) \<Longrightarrow> set_option (target r) \<subseteq> dom (networks p)"
  shows "pool_step fl (everywhere p) e (everywhere p')"
  using assms(1)
proof cases
  case (take i ty r qs)
  then show ?thesis by (auto intro: pool_step.take)
next
  case (find_empty i ty qs)
  then show ?thesis by (auto intro: pool_step.find_empty)
next
  case (finish i ty r nets)
  then have "process fl ty r (completed (networks p)) = Inr (completed nets)"
    using process_completed [OF assms(3)] by simp
  with finish pool_step.finish [of "everywhere p" i ty r fl "completed nets"] show ?thesis by simp
next
  case (terminate i ty r e')
  then have "process fl ty r (completed (networks p)) = Inl e'"
    using process_completed [OF assms(3)] by simp
  with terminate pool_step.terminate [of "everywhere p" i ty r fl e'] show ?thesis by simp
next
  case (join i)
  with pool_step.join [of "everywhere p" i fl] show ?thesis by simp
qed (use assms(2) in \<open>auto intro: pool_step.intros\<close>)

lemma server_step_sim:
  assumes "server_step fl s e s'" and g: "GLOBAL_CONTEXT \<in> dom (networks (worker_threads s))"
    and "\<And>i ty r. worker_at (worker_threads s) i = Some (Working ty r)
      \<Longrightarrow> set_option (target r) \<subseteq> dom (networks (worker_threads s))"
  shows "run fl (everywhere (worker_threads s)) (pool_events e) (everywhere (worker_threads s'))"
proof -
  have accept: "run fl (everywhere (worker_threads s)) (case request_of e of None \<Rightarrow> [] | Some (ty, r) \<Rightarrow> [Arrive ty r])
      (everywhere (worker_threads s'))" if "accepts e s s'" "crashed (worker_threads s) = None"
  proof (cases "request_of e")
    case None
    with that(1) show ?thesis by (simp add: accepts_def)
  next
    case (Some tr)
    then obtain ty r where tr: "request_of e = Some (ty, r)" by (cases tr) simp
    with that(1) obtain q where q: "enqueue (queue_of ty (queues (worker_threads s))) (Some r) = Inr q"
      "s' = s\<lparr>worker_threads := (worker_threads s)\<lparr>queues := set_queue ty q (queues (worker_threads s)),
                     networks := open_context (the (target r)) (networks (worker_threads s))\<rparr>\<rparr>"
      by (auto simp: accepts_def)
    from arrive [of "everywhere (worker_threads s)" ty r q fl] that(2) q(1)
    have "pool_step fl (everywhere (worker_threads s)) (Arrive ty r)
        ((everywhere (worker_threads s))\<lparr>queues := set_queue ty q (queues (worker_threads s))\<rparr>)" by simp
    moreover have "everywhere (worker_threads s')
        = (everywhere (worker_threads s))\<lparr>queues := set_queue ty q (queues (worker_threads s))\<rparr>"
      unfolding q(2) by (simp add: everywhere_def)
    ultimately show ?thesis using run.more [OF run.start] tr by fastforce
  qed
  note thread_step = thread_step_everywhere [OF _ _ assms(3)]
  from assms(1) show ?thesis
  proof cases
    case (stimulate c h a)
    then have "accepts e s s'" using handlers_accept(1) [OF g] by auto
    from accept [OF this] stimulate show ?thesis by (simp del: request_of.simps)
  next
    case (correlate c h a)
    then have "accepts e s s'" using handlers_accept(2) [OF g] by auto
    from accept [OF this] correlate show ?thesis by (simp del: request_of.simps)
  next
    case (graceful_shutdown p)
    from run.more [OF run.start thread_step [OF graceful_shutdown(3)]] graceful_shutdown show ?thesis by simp
  next
    case (thread ev p)
    from run.more [OF run.start thread_step [OF thread(3)]] thread show ?thesis by simp
  qed (simp add: run.start)
qed

lemma opened_mono:
  assumes "opened es s" and "dom (networks (worker_threads s)) \<subseteq> dom (networks (worker_threads s'))"
    and "\<And>ty r. r \<in> set (arrived ty (pool_events e)) \<Longrightarrow> set_option (target r) \<subseteq> dom (networks (worker_threads s'))"
  shows "opened (es @ [e]) s'"
  unfolding opened_def
proof (intro conjI allI ballI)
  show "GLOBAL_CONTEXT \<in> dom (networks (worker_threads s'))" using assms(1,2) by (auto simp: opened_def)
  fix ty r assume "r \<in> set (arrived ty (pool_trace (es @ [e])))"
  then have "r \<in> set (arrived ty (pool_trace es)) \<or> r \<in> set (arrived ty (pool_events e))"
    by (simp add: arrived_def)
  then show "set_option (target r) \<subseteq> dom (networks (worker_threads s'))"
    using assms(1,2) assms(3) [of r ty] unfolding opened_def by blast
qed

lemma pool_step_dom:
  assumes "pool_step fl p e p'" shows "dom (networks p') = dom (networks p)"
  using assms
proof cases
  case (finish i ty r nets)
  with process_dom [OF finish(5)] show ?thesis by simp
qed simp_all

lemma server_step_opened:
  assumes "server_step fl s e s'" and "opened es s"
  shows "opened (es @ [e]) s'"
proof -
  have g: "GLOBAL_CONTEXT \<in> dom (networks (worker_threads s))" using assms(2) by (simp add: opened_def)
  have accept: "opened (es @ [e]) s'" if "accepts e s s'" "pool_events e = (case request_of e of None \<Rightarrow> [] | Some (ty, r) \<Rightarrow> [Arrive ty r])"
  proof (cases "request_of e")
    case None
    with that assms(2) show ?thesis by (simp add: opened_def accepts_def)
  next
    case (Some tr)
    then obtain ty r where tr: "request_of e = Some (ty, r)" by (cases tr) simp
    then have target: "target r = Some (the (target r))"
      by (cases e) (auto split: if_splits)
    have s': "networks (worker_threads s') = open_context (the (target r)) (networks (worker_threads s))"
      using that(1) tr by (auto simp: accepts_def)
    show ?thesis
    proof (rule opened_mono [OF assms(2)])
      show "dom (networks (worker_threads s)) \<subseteq> dom (networks (worker_threads s'))"
        unfolding s' by (auto simp: open_context_def)
      fix ty' r' assume "r' \<in> set (arrived ty' (pool_events e))"
      then have "r' = r" using that(2) tr by (auto simp: arrived_def split: if_splits)
      then show "set_option (target r') \<subseteq> dom (networks (worker_threads s'))"
        unfolding s' using target by (cases "target r") (auto simp: open_context_def)
    qed
  qed
  from assms(1) show ?thesis
  proof cases
    case ping
    with accept show ?thesis by (simp add: accepts_def)
  next
    case (stimulate c h a)
    then have "accepts e s s'" using handlers_accept(1) [OF g] by auto
    from accept [OF this] stimulate show ?thesis by simp
  next
    case (correlate c h a)
    then have "accepts e s s'" using handlers_accept(2) [OF g] by auto
    from accept [OF this] correlate show ?thesis by simp
  next
    case (graceful_shutdown p)
    with opened_mono [OF assms(2), of s' e] pool_step_dom [OF graceful_shutdown(3)] show ?thesis
      by (simp add: arrived_def)
  next
    case (thread ev p)
    from thread(4) have "arrived ty [ev] = []" for ty by (cases ev) (simp_all add: arrived_def)
    with opened_mono [OF assms(2), of s' e] pool_step_dom [OF thread(3)] thread show ?thesis by simp
  qed
qed

section \<open>Runs\<close>

definition default_queues :: queues where
  "default_queues = \<lparr>stimulus = default_RequestQueue, correlation_queue = default_RequestQueue\<rparr>"

lemma default_queues_ok: "empty_queues default_queues"
proof -
  have "queue_of ty default_queues = new_RequestQueue 1000" for ty
    by (cases ty) (simp_all add: default_queues_def queue_of_def default_RequestQueue_def)
  then show ?thesis by (simp add: empty_queues_def queue_ok_new)
qed

definition all_empty :: networks where
  "all_empty = (\<lambda>c. Some empty_network)"

definition new_server :: server where
  "new_server = \<lparr>rpc_api_enabled = True,
     worker_threads = new_WorkerThreads default_queues [GLOBAL_CONTEXT \<mapsto> empty_network]\<rparr>"

lemma new_AttentionBrokerServer: "new_AttentionBrokerServer = Inr new_server"
  by (simp add: new_AttentionBrokerServer_def empty_network(1) new_server_def default_queues_def)

lemma new_server_everywhere: "everywhere (worker_threads new_server) = new_WorkerThreads default_queues all_empty"
  by (auto simp: everywhere_def new_server_def new_WorkerThreads_def completed_def network_of_def all_empty_def fun_eq_iff)

lemma short_arrivals:
  assumes "\<forall>ty. length (arrived ty (pool_trace (es @ es'))) \<le> 2 ^ 31"
  shows "\<forall>ty. length (arrived ty (pool_trace es)) \<le> 2 ^ 31"
proof -
  have "arrived ty (pool_trace (es @ es')) = arrived ty (pool_trace es) @ arrived ty (pool_trace es')" for ty
    by (simp add: arrived_def pool_trace_def)
  with assms show ?thesis by (auto intro: le_trans [OF le_add1])
qed

lemma server_run_pool:
  assumes "server_run fl new_server es s" and "\<forall>ty. length (arrived ty (pool_trace es)) \<le> 2 ^ 31"
  shows "run fl (new_WorkerThreads default_queues all_empty) (pool_trace es) (everywhere (worker_threads s))
    \<and> opened es s"
  using assms
proof (induction rule: server_run.induct)
  case server_start
  then show ?case
    by (simp add: new_server_everywhere) (simp add: opened_def new_server_def arrived_def)
next
  case (server_more es s e s')
  note short = short_arrivals [OF server_more.prems]
  have IH: "run fl (new_WorkerThreads default_queues all_empty) (pool_trace es) (everywhere (worker_threads s))"
    "opened es s"
    using server_more.IH [OF short] by simp_all
  have "set_option (target r) \<subseteq> dom (networks (worker_threads s))"
    if "worker_at (worker_threads s) i = Some (Working ty r)" for i ty r
    using working_arrived [OF IH(1), of ty i r] that short default_queues_ok IH(2)
    by (auto simp: empty_queues_def opened_def)
  then have "run fl (everywhere (worker_threads s)) (pool_events e) (everywhere (worker_threads s'))"
    using server_step_sim [OF server_more.hyps(2)] IH(2) by (simp add: opened_def)
  from run_append [OF this IH(1)] server_step_opened [OF server_more.hyps(2) IH(2)] show ?case by simp
qed

section \<open>Properties\<close>

text \<open>
  C3. A run of the server is a run of the worker pool: in the view in which every context has been
  open, with an empty network, from the start, each accepted request is an arrival, a call of
  \<open>graceful_shutdown\<close> is a stop, the steps of the threads are the same, and the handlers open no
  context any more.
\<close>

theorem server_refines_pool:
  assumes "new_AttentionBrokerServer = Inr s0" and "server_run fl s0 es s"
    and "\<forall>ty. length (arrived ty (pool_trace es)) \<le> 2 ^ 31"
  shows "run fl (new_WorkerThreads default_queues (\<lambda>c. Some empty_network)) (pool_trace es)
    ((worker_threads s)\<lparr>networks := (\<lambda>c. Some (network_of (networks (worker_threads s)) c))\<rparr>)"
proof -
  have "s0 = new_server" using assms(1) by (simp add: new_AttentionBrokerServer)
  with server_run_pool [of fl es s] assms(2,3) show ?thesis
    by (simp add: everywhere_def completed_def all_empty_def)
qed

text \<open>
  C30. \<open>correlate\<close> appends the request to its queue, with the network of its context, opens that context
  with an empty network if it is new, changes no other network, and replies OK exactly when the
  interface is enabled; in particular the request is queued although the reply is CANCELLED. A
  request without handles is answered only.
\<close>

theorem correlate_enqueues:
  assumes "GLOBAL_CONTEXT \<in> dom (networks (worker_threads s))"
    and "queue_ok (queue_of CORRELATION (queues (worker_threads s)))"
    and "length (queue_contents (queue_of CORRELATION (queues (worker_threads s)))) < 2 ^ 31"
    and "hs \<noteq> []"
  shows "\<exists>s'. correlate c hs s = Inr ((if rpc_api_enabled s then OK else CANCELLED, ''CORRELATE''), s')
    \<and> queue_contents (queue_of CORRELATION (queues (worker_threads s')))
      = queue_contents (queue_of CORRELATION (queues (worker_threads s)))
        @ [Some (Handle_List hs (Some (if c = '''' then GLOBAL_CONTEXT else c)))]
    \<and> queue_of STIMULUS (queues (worker_threads s')) = queue_of STIMULUS (queues (worker_threads s))
    \<and> (\<forall>d. networks (worker_threads s') d =
        (if d = (if c = '''' then GLOBAL_CONTEXT else c)
         then Some (network_of (networks (worker_threads s)) d) else networks (worker_threads s) d))
    \<and> correlate c [] s = Inr ((if rpc_api_enabled s then OK else CANCELLED, ''CORRELATE''), s)"
proof -
  let ?q = "queue_of CORRELATION (queues (worker_threads s))"
  let ?r = "Handle_List hs (Some (context_name c))"
  obtain q where q: "enqueue ?q (Some ?r) = Inr q" "queue_contents q = queue_contents ?q @ [Some ?r]"
    using rq.enq_law [OF assms(2,3)] by blast
  let ?s = "s\<lparr>worker_threads := (worker_threads s)\<lparr>queues := set_queue CORRELATION q (queues (worker_threads s)),
      networks := open_context (context_name c) (networks (worker_threads s))\<rparr>\<rparr>"
  have "accepts (Correlate c hs (ack ''CORRELATE'' s)) s ?s" using q(1) assms(4) by (simp add: accepts_def)
  then have "correlate c hs s = Inr (ack ''CORRELATE'' s, ?s)"
    using handlers_accept(2) [OF assms(1)] by blast
  moreover have "correlate c [] s = Inr (ack ''CORRELATE'' s, s)" by (simp add: correlate_def)
  ultimately show ?thesis
    using q(2) by (intro exI [of _ ?s]) (auto simp: ack_def context_name_def open_context_def)
qed

text \<open>The handles of the witnesses.\<close>

abbreviation handles_ab :: "string list" where
  "handles_ab \<equiv> [handle_of CHR ''a'', handle_of CHR ''b'']"

text \<open>
  Two requests for the global context, one of them by its name, one worker that processes both, and
  a shutdown.
\<close>

definition work_events :: "server_event list" where
  "work_events =
     [Correlate '''' handles_ab (OK, ''CORRELATE''), Correlate ''global'' handles_ab (OK, ''CORRELATE''),
      Thread (Take 1 CORRELATION (Handle_List handles_ab (Some ''global''))),
      Thread (Finish 1 CORRELATION (Handle_List handles_ab (Some ''global''))),
      Thread (Take 3 CORRELATION (Handle_List handles_ab (Some ''global''))),
      Thread (Finish 3 CORRELATION (Handle_List handles_ab (Some ''global'')))]"

definition shutdown_events :: "server_event list" where
  "shutdown_events = map (\<lambda>i. Thread (Find_Empty i)) [0..<10] @ Graceful_Shutdown
     # map (\<lambda>i. Thread (Exit i)) [0..<10] @ map (\<lambda>i. Thread (Join i)) [0..<10] @ [Thread Return]"

lemma work_reaches:
  "\<exists>s. server_run id new_server (work_events @ shutdown_events) s
    \<and> stopper (worker_threads s) = Stopped \<and> queue_contents (queue_of CORRELATION (queues (worker_threads s))) = []"
proof -
  have "case new_AttentionBrokerServer of Inl e \<Rightarrow> False
    | Inr s0 \<Rightarrow> (case serve_all id s0 (work_events @ shutdown_events) of None \<Rightarrow> False
        | Some s \<Rightarrow> stopper (worker_threads s) = Stopped
            \<and> queue_contents (queue_of CORRELATION (queues (worker_threads s))) = [])"
    by code_simp
  then show ?thesis by (intro serve_reaches) (simp add: new_AttentionBrokerServer)
qed

lemma work_arrived:
  "arrived CORRELATION (pool_trace (work_events @ shutdown_events))
     = [Handle_List handles_ab (Some ''global''), Handle_List handles_ab (Some ''global'')]"
  "arrived STIMULUS (pool_trace (work_events @ shutdown_events)) = []"
  by code_simp+

lemma work_short: "\<forall>ty. length (arrived ty (pool_trace (work_events @ shutdown_events))) \<le> 2 ^ 31"
  by (intro allI, rename_tac ty, case_tac ty) (simp_all add: work_arrived)

theorem server_refines_pool_witness:
  "\<exists>s. server_run id new_server (work_events @ shutdown_events) s
    \<and> run id (new_WorkerThreads default_queues (\<lambda>c. Some empty_network)) (pool_trace (work_events @ shutdown_events))
        ((worker_threads s)\<lparr>networks := (\<lambda>c. Some (network_of (networks (worker_threads s)) c))\<rparr>)"
  using work_reaches server_refines_pool [OF new_AttentionBrokerServer _ work_short] by blast

theorem correlate_enqueues_witness:
  "\<exists>s'. correlate ''x'' handles_ab (new_server\<lparr>rpc_api_enabled := False\<rparr>) = Inr ((CANCELLED, ''CORRELATE''), s')
    \<and> queue_contents (queue_of CORRELATION (queues (worker_threads s'))) = [Some (Handle_List handles_ab (Some ''x''))]"
proof -
  have q: "queue_ok (queue_of CORRELATION default_queues)" "queue_contents (queue_of CORRELATION default_queues) = []"
    using default_queues_ok by (simp_all add: empty_queues_def)
  have w: "worker_threads (new_server\<lparr>rpc_api_enabled := False\<rparr>)
      = new_WorkerThreads default_queues [GLOBAL_CONTEXT \<mapsto> empty_network]"
    by (simp add: new_server_def)
  from correlate_enqueues [of "new_server\<lparr>rpc_api_enabled := False\<rparr>" handles_ab "''x''"]
  show ?thesis unfolding w by (auto simp: q)
qed

fun valid_rpc :: "server_event \<Rightarrow> bool" where
  "valid_rpc (Stimulate c h a) = (h = [] \<or> request_ok h)"
| "valid_rpc (Correlate c hs a) = (\<forall>h\<in>set hs. valid_handle h)"
| "valid_rpc e = True"

lemma valid_rpc_arrivals:
  assumes "\<forall>e\<in>set es. valid_rpc e" and "\<forall>ty. length (arrived ty (pool_trace es)) \<le> 2 ^ 31"
    and "\<forall>e\<in>set es. \<forall>ev. e = Thread ev \<longrightarrow> internal ev"
  shows "valid_arrivals UNIV (pool_trace es)"
proof -
  have "request_valid UNIV ty r" if "e \<in> set es" "r \<in> set (arrived ty (pool_events e))" for e ty r
  proof -
    have v: "valid_rpc e" using assms(1) that(1) by blast
    have "arrivals_of ty ev = []" if "e = Thread ev" for ev
      using assms(3) that \<open>e \<in> set es\<close> by (cases ev) auto
    with v that(2) show ?thesis
      by (cases e; cases ty) (simp_all add: arrived_def split: if_splits)
  qed
  moreover have "\<exists>e\<in>set es. r \<in> set (arrived ty (pool_events e))" if "r \<in> set (arrived ty (pool_trace es))" for r ty
    using that by (auto simp: arrived_def pool_trace_def)
  ultimately show ?thesis unfolding valid_arrivals_def using assms(2) by metis
qed

lemma trace_adds:
  assumes "\<forall>e\<in>set es. \<forall>ev. e = Thread ev \<longrightarrow> internal ev"
  shows "(\<Sum>r\<leftarrow>arrived CORRELATION (pool_trace es). adds c i r)
    = (\<Sum>e\<leftarrow>es. case e of Correlate d hs a \<Rightarrow> if context_name d = c then request_weight hs i else 0 | _ \<Rightarrow> 0)"
  using assms
proof (induction es)
  case (Cons e es)
  have split: "arrived CORRELATION (pool_trace (e # es))
      = arrived CORRELATION (pool_events e) @ arrived CORRELATION (pool_trace es)"
    by (simp add: arrived_def pool_trace_def)
  have "request_weight [] i = 0" by (cases i) simp_all
  moreover have "arrivals_of ty ev = []" if "e = Thread ev" for ty ev
    using Cons.prems that by (cases ev) auto
  ultimately have "(\<Sum>r\<leftarrow>arrived CORRELATION (pool_events e). adds c i r)
      = (case e of Correlate d hs a \<Rightarrow> if context_name d = c then request_weight hs i else 0 | _ \<Rightarrow> 0)"
    by (cases e) (auto simp: arrived_def)
  with Cons show ?case by (simp add: split)
qed (simp add: arrived_def)

lemma server_run_threads: "server_run fl s0 es s \<Longrightarrow> \<forall>e\<in>set es. \<forall>ev. e = Thread ev \<longrightarrow> internal ev"
  by (induction rule: server_run.induct) (auto elim: server_step.cases)

lemma server_stops:
  "server_run fl s0 es s \<Longrightarrow> stops (pool_trace es) = length (filter (\<lambda>e. e = Graceful_Shutdown) es)"
proof (induction rule: server_run.induct)
  case (server_more es s e s')
  have "stops (pool_events e) = (if e = Graceful_Shutdown then 1 else 0)"
    using server_more.hyps(2) by cases (auto simp: stops_def split: option.splits)
  with server_more.IH show ?case by (simp add: stops_def)
qed simp

lemma server_no_crash:
  assumes "new_AttentionBrokerServer = Inr s0" and "server_run fl s0 es s"
    and "\<forall>ty. length (arrived ty (pool_trace es)) \<le> 2 ^ 31"
    and "\<forall>e\<in>set es. valid_rpc e" and "length (filter (\<lambda>e. e = Graceful_Shutdown) es) \<le> 1"
  shows "crashed (worker_threads s) = None \<and> networks_ok (networks (worker_threads s))"
proof -
  have "s0 = new_server" using assms(1) by (simp add: new_AttentionBrokerServer)
  then have r: "run fl (new_WorkerThreads default_queues all_empty) (pool_trace es) (everywhere (worker_threads s))"
    using server_run_pool assms(2,3) by blast
  have v: "valid_arrivals (dom all_empty) (pool_trace es)"
    using valid_rpc_arrivals [OF assms(4,3) server_run_threads [OF assms(2)]] by (simp add: all_empty_def dom_def)
  have n: "networks_ok all_empty" by (simp add: networks_ok_def all_empty_def empty_network(2))
  have "stops (pool_trace es) \<le> 1"
    using assms(5) by (simp add: server_stops [OF assms(2)])
  from no_crash_run [OF r default_queues_ok n v this] settled_run [OF r default_queues_ok n v]
  show ?thesis using completed_Some by (auto simp: settled_pool_def networks_ok_def) blast
qed





end
