(* ===== verification/Concurrent_Updates.thy ===== *)
theory Concurrent_Updates
  imports Hebbian_Updater Spreader_Properties
begin

text \<open>
  Correlation requests that worker threads process at the same time. The insertions into a trie lock
  the nodes on their way, so each of them takes effect at once (\<open>Trie_Linearizable\<close>); between two of
  them other threads run. A request is here the list of these accesses to the network. \<open>add_asymmetric_edge\<close> is two
  of them: the insertion of the edge, and then, with no lock held, the test of its counter and what
  follows it. The lookups of the nodes are left out: a node that was added stays where it is.
\<close>

section \<open>The accesses of a request\<close>

datatype access =
    Add_Node string
  | Insert_Edge string string
  | Link_Edge string string

text \<open>\<open>node1->neighbors->insert(handle2, new Edge())\<close>\<close>

definition insert_edge :: "string \<Rightarrow> string \<Rightarrow> hebbian_network \<Rightarrow> hebbian_network result" where
  "insert_edge handle1 handle2 net =
     and_then (deref net (Some handle1)) (\<lambda>n1.
     and_then (trie_insert merge_edge (neighbors n1) handle2 new_Edge) (\<lambda>(t, _).
       Inr (store_node (n1\<lparr>neighbors := t\<rparr>) net)))"

text \<open>The rest of \<open>add_asymmetric_edge\<close>, through the pointers to the node and the edge.\<close>

definition link_edge :: "string \<Rightarrow> string \<Rightarrow> hebbian_network \<Rightarrow> hebbian_network result" where
  "link_edge handle1 handle2 net =
     and_then (deref net (Some handle1)) (\<lambda>n1.
       case trie_map (neighbors n1) handle2 of
         None \<Rightarrow> Inl Null_Dereference
       | Some edge \<Rightarrow>
           if edge_count edge = 1
           then let edge' = edge\<lparr>edge_node1 := Some handle1, edge_node2 := Some handle2\<rparr>;
                    n1' = n1\<lparr>neighbors := update_value handle2 (\<lambda>_. edge') (neighbors n1), arity := arity n1 + 1\<rparr>;
                    net' = store_node n1' net
                in Inr (if arity n1' > largest_arity net' then net'\<lparr>largest_arity := arity n1'\<rparr> else net')
           else Inr net)"

fun perform :: "(rat \<Rightarrow> rat) \<Rightarrow> access \<Rightarrow> hebbian_network \<Rightarrow> hebbian_network result" where
  "perform fl (Add_Node h) net = and_then (add_node fl h net) (\<lambda>(net', _). Inr net')"
| "perform fl (Insert_Edge h1 h2) net = insert_edge h1 h2 net"
| "perform fl (Link_Edge h1 h2) net = link_edge h1 h2 net"

definition pair_accesses :: "string \<Rightarrow> string \<Rightarrow> access list" where
  "pair_accesses s1 s2 =
     (if string_less s1 s2
      then [Insert_Edge s1 s2, Link_Edge s1 s2, Insert_Edge s2 s1, Link_Edge s2 s1] else [])"

definition accesses :: "string list \<Rightarrow> access list" where
  "accesses handle_list =
     map Add_Node handle_list
     @ concat (map (\<lambda>s1. concat (map (pair_accesses s1) handle_list)) handle_list)"

text \<open>
  The threads are the lists of the accesses they have still to make. In a step one thread makes its
  next access.
\<close>

inductive interleave :: "(rat \<Rightarrow> rat) \<Rightarrow> access list list \<Rightarrow> hebbian_network
    \<Rightarrow> access list list \<Rightarrow> hebbian_network \<Rightarrow> bool" for fl ts net where
  begin_threads: "interleave fl ts net ts net"
| next_access: "interleave fl ts net ts1 net1 \<Longrightarrow> i < length ts1 \<Longrightarrow> ts1 ! i = u # us \<Longrightarrow>
    perform fl u net1 = Inr net2 \<Longrightarrow> interleave fl ts net (ts1[i := us]) net2"

text \<open>The same for a given schedule of the threads, to compute it.\<close>

fun schedule :: "(rat \<Rightarrow> rat) \<Rightarrow> nat list \<Rightarrow> access list list \<Rightarrow> hebbian_network
    \<Rightarrow> (access list list \<times> hebbian_network) option" where
  "schedule fl [] ts net = Some (ts, net)"
| "schedule fl (i # is) ts net =
     (if i < length ts
      then case ts ! i of [] \<Rightarrow> None
           | u # us \<Rightarrow> (case perform fl u net of Inl e \<Rightarrow> None
                       | Inr net' \<Rightarrow> schedule fl is (ts[i := us]) net')
      else None)"

lemma schedule_interleave:
  "schedule fl is ts1 net1 = Some (ts2, net2) \<Longrightarrow> interleave fl ts net ts1 net1 \<Longrightarrow> interleave fl ts net ts2 net2"
  by (induction "is" arbitrary: ts1 net1)
    (auto split: if_splits list.splits sum.splits intro: interleave.next_access)

section \<open>Each access\<close>

lemma update_leaf_twice: "update_leaf k g (update_leaf k f t) = update_leaf k (g \<circ> f) t"
  by (induction t) (auto simp: option.map_comp comp_def map_option_case split: option.split)

lemma update_value_twice: "update_value k (\<lambda>_. b) (update_value k (\<lambda>_. a) m) = update_value k (\<lambda>_. b) m"
  by (simp add: update_value_def update_leaf_twice comp_def)

lemma store_node_twice [simp]: "self n' = self n \<Longrightarrow> store_node n' (store_node n net) = store_node n' net"
  by (simp add: store_node_def update_value_twice)

text \<open>
  What holds in every state between two accesses: the tries are well-formed and every node is stored
  under its handle. The pointers of an edge may still be NULL.
\<close>

definition shape_ok :: "hebbian_network \<Rightarrow> bool" where
  "shape_ok net \<longleftrightarrow> handles_ok (nodes net)
     \<and> (\<forall>h n. node_map net h = Some n \<longrightarrow> self n = h \<and> handles_ok (neighbors n))"

lemma network_ok_shape: "network_ok net \<Longrightarrow> shape_ok net"
  by (simp add: network_ok_def node_ok_def shape_ok_def)

lemma shape_ok_node: "shape_ok net \<Longrightarrow> node_map net h = Some n \<Longrightarrow> self n = h \<and> handles_ok (neighbors n)"
  by (simp add: shape_ok_def)

lemma shape_ok_arity [simp]: "shape_ok (net\<lparr>largest_arity := a\<rparr>) = shape_ok net"
  by (simp add: shape_ok_def)

lemma store_node_shape:
  assumes "shape_ok net" and "node_map net (self n) \<noteq> None" and "handles_ok (neighbors n)"
  shows "shape_ok (store_node n net)" and "node_map (store_node n net) = (node_map net)(self n \<mapsto> n)"
    and "largest_arity (store_node n net) = largest_arity net"
proof -
  have ok: "handles_ok (nodes net)" using assms(1) by (simp add: shape_ok_def)
  show m: "node_map (store_node n net) = (node_map net)(self n \<mapsto> n)"
    using update_value_ok(2) [OF ok] assms(2) by (auto simp: store_node_def node_map_def)
  have "handles_ok (nodes (store_node n net))"
    using update_value_ok(1) [OF ok] by (simp add: store_node_def)
  with assms show "shape_ok (store_node n net)" by (auto simp: shape_ok_def m)
qed (simp add: store_node_def)

lemma add_node_shape:
  assumes "shape_ok net" and "valid_handle h"
  shows "\<exists>net' n. add_node fl h net = Inr (net', Some h) \<and> shape_ok net'
    \<and> node_map net' = (node_map net)(h \<mapsto> n) \<and> count n = node_count net h + 1
    \<and> edge_map n = (case node_map net h of None \<Rightarrow> (\<lambda>_. None) | Some old \<Rightarrow> edge_map old)"
proof -
  obtain n0 where n0: "new_Node h = Inr n0" "self n0 = h" "count n0 = 1" "handles_ok (neighbors n0)"
    "edge_map n0 = (\<lambda>_. None)"
    using new_Node_ok [of h] by blast
  let ?n = "combined (merge_node fl) (node_map net h) n0"
  obtain t where t: "trie_insert (merge_node fl) (nodes net) h n0 = Inr (t, ?n)"
    "handles_ok t" "trie_map t = (node_map net)(h \<mapsto> ?n)"
    using trie_insert_ok [of 32 hex_digits "nodes net" h "merge_node fl" n0] assms
    by (auto simp: shape_ok_def node_map_def)
  have m: "node_map (net\<lparr>nodes := t\<rparr>) = (node_map net)(h \<mapsto> ?n)" using t(3) by (simp add: node_map_def)
  have n: "self ?n = h" "handles_ok (neighbors ?n)" "count ?n = node_count net h + 1"
    "edge_map ?n = (case node_map net h of None \<Rightarrow> (\<lambda>_. None) | Some old \<Rightarrow> edge_map old)"
    using n0 shape_ok_node [OF assms(1), of h]
    by (cases "node_map net h"; auto simp: merge_node_def node_count_def)+
  have "shape_ok (net\<lparr>nodes := t\<rparr>)"
    using assms(1) n(1,2) t(2) by (auto simp: shape_ok_def m)
  with t(1) m n n0(1) show ?thesis
    by (intro exI [of _ "net\<lparr>nodes := t\<rparr>"] exI [of _ ?n]) (simp add: add_node_def)
qed

lemma insert_edge_shape:
  assumes "shape_ok net" and "valid_handle h2" and "node_map net h1 = Some n1"
  defines "e \<equiv> combined merge_edge (edge_map n1 h2) new_Edge"
  shows "\<exists>t. trie_insert merge_edge (neighbors n1) h2 new_Edge = Inr (t, e)
    \<and> handles_ok t \<and> trie_map t = (edge_map n1)(h2 \<mapsto> e)
    \<and> insert_edge h1 h2 net = Inr (store_node (n1\<lparr>neighbors := t\<rparr>) net)
    \<and> shape_ok (store_node (n1\<lparr>neighbors := t\<rparr>) net)
    \<and> node_map (store_node (n1\<lparr>neighbors := t\<rparr>) net) = (node_map net)(h1 \<mapsto> n1\<lparr>neighbors := t\<rparr>)"
proof -
  note n1 = shape_ok_node [OF assms(1,3)]
  obtain t where t: "trie_insert merge_edge (neighbors n1) h2 new_Edge = Inr (t, e)"
    "handles_ok t" "trie_map t = (edge_map n1)(h2 \<mapsto> e)"
    using trie_insert_ok [of 32 hex_digits "neighbors n1" h2 merge_edge new_Edge] n1 assms(2)
    by (auto simp: edge_map_def e_def)
  with n1 assms(1,3) show ?thesis
    using store_node_shape [of net "n1\<lparr>neighbors := t\<rparr>"] by (auto simp: insert_edge_def deref_ok)
qed

lemma link_edge_shape:
  assumes "shape_ok net" and "node_map net h1 = Some n1" and "edge_map n1 h2 = Some e"
  shows "\<exists>net' n1'. link_edge h1 h2 net = Inr net' \<and> shape_ok net'
    \<and> node_map net' = (node_map net)(h1 \<mapsto> n1') \<and> count n1' = count n1
    \<and> (\<forall>h. map_option edge_count (edge_map n1' h) = map_option edge_count (edge_map n1 h))"
proof (cases "edge_count e = 1")
  case True
  note n1 = shape_ok_node [OF assms(1,2)]
  let ?e = "e\<lparr>edge_node1 := Some h1, edge_node2 := Some h2\<rparr>"
  let ?n = "n1\<lparr>neighbors := update_value h2 (\<lambda>_. ?e) (neighbors n1), arity := arity n1 + 1\<rparr>"
  have nb: "handles_ok (neighbors ?n)" "edge_map ?n = (edge_map n1)(h2 \<mapsto> ?e)"
    using n1 assms(3) update_value_ok(1) [of 32 hex_digits "neighbors n1"]
      update_value_ok(2) [of 32 hex_digits "neighbors n1"]
    by (auto simp: edge_map_def)
  note store = store_node_shape [of net ?n, OF assms(1) _ nb(1)]
  have self: "self ?n = h1" using n1 by simp
  have "link_edge h1 h2 net = Inr (if arity ?n > largest_arity (store_node ?n net)
      then (store_node ?n net)\<lparr>largest_arity := arity ?n\<rparr> else store_node ?n net)"
    using True assms(2,3) by (simp add: link_edge_def deref_ok edge_map_def Let_def)
  moreover have "map_option edge_count (edge_map ?n h) = map_option edge_count (edge_map n1 h)" for h
    unfolding nb(2) using assms(3) by simp
  ultimately show ?thesis
    using store self assms(2)
    by (intro exI [of _ "if arity ?n > largest_arity (store_node ?n net)
      then (store_node ?n net)\<lparr>largest_arity := arity ?n\<rparr> else store_node ?n net"] exI [of _ ?n]) simp
next
  case False
  then have "link_edge h1 h2 net = Inr net"
    using assms(2,3) by (simp add: link_edge_def deref_ok edge_map_def)
  then show ?thesis using assms(1,2) by (intro exI [of _ net] exI [of _ n1]) auto
qed

section \<open>A request alone\<close>

lemma add_asymmetric_edge_accesses:
  assumes "network_ok net" and "valid_handle h2" and "node_map net h1 = Some n1"
  shows "and_then (insert_edge h1 h2 net) (link_edge h1 h2)
    = and_then (add_asymmetric_edge h1 h2 (Some h1) (Some h2) net) (\<lambda>(net', _). Inr net')"
proof -
  let ?e = "combined merge_edge (edge_map n1 h2) new_Edge"
  note s = network_ok_shape [OF assms(1)]
  have self: "self n1 = h1" using shape_ok_node [OF s assms(3)] by simp
  obtain t where t: "trie_insert merge_edge (neighbors n1) h2 new_Edge = Inr (t, ?e)"
    "trie_map t = (edge_map n1)(h2 \<mapsto> ?e)"
    "insert_edge h1 h2 net = Inr (store_node (n1\<lparr>neighbors := t\<rparr>) net)"
    "node_map (store_node (n1\<lparr>neighbors := t\<rparr>) net) = (node_map net)(h1 \<mapsto> n1\<lparr>neighbors := t\<rparr>)"
    using insert_edge_shape [OF s assms(2,3)] by blast
  show ?thesis
    using t assms(3) self
    by (simp add: add_asymmetric_edge_def link_edge_def deref_ok Let_def)
qed

lemma pair_accesses_pair:
  assumes "knows (s1 # hs) net" and "s2 \<in> set hs"
  shows "for_each (perform fl) (pair_accesses s1 s2) net = correlate_pair s1 (Some s1) s2 net"
proof (cases "string_less s1 s2")
  case True
  have net: "network_ok net" and v: "valid_handle s1" "valid_handle s2"
    and d: "s1 \<in> dom (node_map net)" "s2 \<in> dom (node_map net)"
    using assms by (auto simp: knows_def)
  obtain net1 e where 1: "add_asymmetric_edge s1 s2 (Some s1) (Some s2) net = Inr (net1, e)"
    "network_ok net1" "same_nodes net net1"
    using asymmetric_edge_counts [OF net v _ d, of "Some s1"] by blast
  have d1: "s2 \<in> dom (node_map net1)" using d 1(3) by (simp add: same_nodes_def)
  have "and_then (insert_edge s1 s2 net) (link_edge s1 s2) = Inr net1"
    using add_asymmetric_edge_accesses [OF net v(2)] d(1) 1(1) by auto
  then have first: "and_then (insert_edge s1 s2 net) (\<lambda>n. and_then (link_edge s1 s2 n) f) = f net1"
    for f :: "hebbian_network \<Rightarrow> hebbian_network result"
    by (cases "insert_edge s1 s2 net") simp_all
  obtain net2 e2 where 2: "add_asymmetric_edge s2 s1 (Some s2) (Some s1) net1 = Inr (net2, e2)"
    using asymmetric_edge_counts [OF 1(2) v(2,1), of "Some s2"] d d1 1(3) by (auto simp: same_nodes_def)
  then have "and_then (insert_edge s2 s1 net1) (link_edge s2 s1) = Inr net2"
    using add_asymmetric_edge_accesses [OF 1(2) v(1)] d1 by auto
  then have "and_then (insert_edge s2 s1 net1) (\<lambda>n. and_then (link_edge s2 s1 n) Inr) = Inr net2"
    by (cases "insert_edge s2 s1 net1") (auto simp: and_then_Inr_iff)
  moreover have "lookup_node s2 net = Inr (Some s2)" using lookup_node_ok [OF net v(2)] d(2) by simp
  ultimately show ?thesis
    using True 1(1) 2 first
    by (simp add: pair_accesses_def correlate_pair_def add_symmetric_edge_def for_each_unfold)
qed (simp add: pair_accesses_def correlate_pair_def)

text \<open>
  C33. A request that is processed while no other request is: the accesses one after the other are
  \<open>correlation\<close>.
\<close>

theorem accesses_are_correlation:
  assumes "network_ok net" and "\<forall>h\<in>set hs. valid_handle h"
  shows "and_then (for_each (perform fl) (accesses hs) net) (\<lambda>net. Inr (Some net)) = correlation fl hs (Some net)"
proof -
  have "perform fl \<circ> Add_Node = (\<lambda>s net. and_then (add_node fl s net) (\<lambda>(net', _). Inr net'))"
    by (auto simp: fun_eq_iff)
  then have nodes: "for_each (perform fl) (map Add_Node hs) net = add_nodes fl hs net"
    by (simp add: for_each_map add_nodes_def)
  obtain net1 where 1: "add_nodes fl hs net = Inr net1" "knows [] net1"
    using add_nodes_loop.for_each_counts [of "[]" net hs fl] assms by (auto simp: knows_def add_nodes_def)
  have k: "knows hs net1" using 1(2) assms(2) add_nodes_dom [OF assms 1(1)] by (auto simp: knows_def)
  have inner: "for_each (\<lambda>s2. for_each (perform fl) (pair_accesses s1 s2)) hs n = correlate_handle hs s1 n"
    if s1: "s1 \<in> set hs" and n: "knows hs n" for s1 n
  proof -
    have n1: "knows (s1 # hs) n" using s1 n by (auto simp: knows_def)
    have "for_each (\<lambda>s2. for_each (perform fl) (pair_accesses s1 s2)) hs n
        = for_each (correlate_pair s1 (Some s1)) hs n"
      by (rule for_each_cong_invariant [where P = "knows (s1 # hs)", OF n1])
        (use pair_accesses_pair inner_loop.step_law [of s1 hs] in fastforce)+
    moreover have "lookup_node s1 n = Inr (Some s1)"
      using lookup_node_ok [of n s1] n1 by (auto simp: knows_def)
    ultimately show ?thesis by (simp add: correlate_handle_def)
  qed
  have "for_each (\<lambda>s1. for_each (\<lambda>s2. for_each (perform fl) (pair_accesses s1 s2)) hs) hs net1
      = for_each (correlate_handle hs) hs net1"
    by (rule for_each_cong_invariant [where P = "knows hs", OF k])
      (use inner outer_loop.step_law [of hs] in fastforce)+
  then show ?thesis
    by (simp add: accesses_def for_each_append nodes 1(1) for_each_concat correlation_def)
qed

theorem accesses_are_correlation_witness:
  "\<exists>net net'. new_HebbianNetwork = Inr net
    \<and> for_each (perform id) (accesses [handle_b, handle_a]) net = Inr net'
    \<and> correlation id [handle_b, handle_a] (Some net) = Inr (Some net')"
proof -
  obtain net where net: "new_HebbianNetwork = Inr net" "network_ok net"
    using new_HebbianNetwork_ok by blast
  obtain net' where "correlation id [handle_b, handle_a] (Some net) = Inr (Some net')"
    using correlation_counts [OF net(2), of "[handle_b, handle_a]" id] by auto
  with net accesses_are_correlation [OF net(2), of "[handle_b, handle_a]" id] show ?thesis
    by (auto simp: and_then_Inr_iff)
qed

section \<open>Requests together\<close>

text \<open>What an access adds to a counter.\<close>

fun access_weight :: "access \<Rightarrow> counter_id \<Rightarrow> u32" where
  "access_weight (Add_Node h) c = node_weight h c"
| "access_weight (Insert_Edge a b) (Links x y) = hit (x = a \<and> y = b)"
| "access_weight u c = 0"

definition edges_of :: "hebbian_network \<Rightarrow> (string \<times> string) set" where
  "edges_of net = {(a, b). \<exists>n. node_map net a = Some n \<and> b \<in> dom (edge_map n)}"

text \<open>
  The accesses of a thread find what they need: the node and the edge are in the network, or an
  earlier access of the same thread puts them there.
\<close>

fun ready :: "string set \<Rightarrow> (string \<times> string) set \<Rightarrow> access list \<Rightarrow> bool" where
  "ready N E [] = True"
| "ready N E (Add_Node h # us) = (valid_handle h \<and> ready (insert h N) E us)"
| "ready N E (Insert_Edge a b # us) = (valid_handle b \<and> a \<in> N \<and> ready N (insert (a, b) E) us)"
| "ready N E (Link_Edge a b # us) = ((a, b) \<in> E \<and> ready N E us)"

lemma ready_mono: "ready N E us \<Longrightarrow> N \<subseteq> N' \<Longrightarrow> E \<subseteq> E' \<Longrightarrow> ready N' E' us"
proof (induction N E us arbitrary: N' E' rule: ready.induct)
  case (2 N E h us)
  from 2(1) [of "insert h N'" E'] 2(2-4) show ?case by auto
next
  case (3 N E a b us)
  from 3(1) [of N' "insert (a, b) E'"] 3(2-4) show ?case by auto
qed auto

lemma ready_append: "ready N E us \<Longrightarrow> ready N E vs \<Longrightarrow> ready N E (us @ vs)"
proof (induction N E us rule: ready.induct)
  case (2 N E h us)
  then show ?case using ready_mono [of N E vs "insert h N" E] by auto
next
  case (3 N E a b us)
  then show ?case using ready_mono [of N E vs N "insert (a, b) E"] by auto
qed auto

lemma ready_concat: "(\<And>us. us \<in> set uss \<Longrightarrow> ready N E us) \<Longrightarrow> ready N E (concat uss)"
  by (induction uss) (auto intro: ready_append)

lemma ready_nodes:
  "(\<forall>h\<in>set hs. valid_handle h) \<Longrightarrow> ready (set hs \<union> N) E us \<Longrightarrow> ready N E (map Add_Node hs @ us)"
proof (induction hs arbitrary: N)
  case (Cons h hs)
  from Cons.IH [of "insert h N"] Cons.prems show ?case by (simp add: Un_commute insert_commute)
qed simp

lemma ready_accesses:
  assumes "\<forall>h\<in>set hs. valid_handle h" shows "ready N E (accesses hs)"
proof -
  have "ready (set hs \<union> N) E (pair_accesses s1 s2)" if "s1 \<in> set hs" "s2 \<in> set hs" for s1 s2
    using that assms by (simp add: pair_accesses_def)
  then have "ready (set hs \<union> N) E (concat (map (\<lambda>s1. concat (map (pair_accesses s1) hs)) hs))"
    by (intro ready_concat) (auto intro!: ready_concat)
  with ready_nodes [OF assms] show ?thesis unfolding accesses_def by blast
qed

lemma sum_pair_accesses:
  "(\<Sum>u\<leftarrow>pair_accesses s1 s2. access_weight u (Links x y)) = pair_weight s1 s2 (Links x y)"
  by (cases "string_less s1 s2")
    (simp_all add: pair_accesses_def pair_weight_less pair_weight_not_less del: pair_weight.simps)

lemma sum_list_concat_map: "(\<Sum>u\<leftarrow>concat (map g xs). f u) = (\<Sum>x\<leftarrow>xs. \<Sum>u\<leftarrow>g x. (f u :: 'b::monoid_add))"
  by (induction xs) simp_all

lemma sum_accesses: "(\<Sum>u\<leftarrow>accesses hs. access_weight u c) = request_weight hs c"
proof (cases c)
  case (Nodes h)
  have "(\<Sum>u\<leftarrow>pair_accesses s1 s2. access_weight u c) = 0" for s1 s2
    by (simp add: pair_accesses_def Nodes)
  then show ?thesis
    using sum_hit_eq [of h True hs] by (simp add: accesses_def sum_list_concat_map comp_def Nodes)
next
  case (Links x y)
  have "(\<Sum>u\<leftarrow>map Add_Node hs. access_weight u c) = 0"
    by (simp add: comp_def Links)
  then show ?thesis
    using sum_pair_weight [of x y hs]
    by (simp add: accesses_def sum_list_concat_map sum_pair_accesses Links del: pair_weight.simps)
qed

text \<open>One access succeeds, adds its weight, and leaves every thread what it needs.\<close>

definition performed :: "access \<Rightarrow> hebbian_network \<Rightarrow> hebbian_network \<Rightarrow> bool" where
  "performed u net net' \<longleftrightarrow> shape_ok net'
     \<and> dom (node_map net) \<subseteq> dom (node_map net') \<and> edges_of net \<subseteq> edges_of net'
     \<and> (\<forall>c. counter net' c = counter net c + access_weight u c)"

lemma add_node_performed:
  assumes "shape_ok net" and "valid_handle h"
  shows "\<exists>net'. perform fl (Add_Node h) net = Inr net' \<and> performed (Add_Node h) net net'
    \<and> h \<in> dom (node_map net')"
proof -
  obtain net' n where r: "add_node fl h net = Inr (net', Some h)" "shape_ok net'"
    "node_map net' = (node_map net)(h \<mapsto> n)" "count n = node_count net h + 1"
    "edge_map n = (case node_map net h of None \<Rightarrow> (\<lambda>_. None) | Some old \<Rightarrow> edge_map old)"
    using add_node_shape [OF assms] by blast
  have "counter net' c = counter net c + access_weight (Add_Node h) c" for c
    using r(3-5) by (cases c) (auto simp: node_count_def link_count_def hit_def split: option.splits)
  moreover have "edges_of net \<subseteq> edges_of net'"
    using r(3,5) by (auto simp: edges_of_def)
  ultimately have "performed (Add_Node h) net net'" using r(2,3) by (auto simp: performed_def)
  with r(1,3) show ?thesis by auto
qed

lemma insert_edge_performed:
  assumes "shape_ok net" and "valid_handle b" and "a \<in> dom (node_map net)"
  shows "\<exists>net'. perform fl (Insert_Edge a b) net = Inr net' \<and> performed (Insert_Edge a b) net net'
    \<and> (a, b) \<in> edges_of net'"
proof -
  obtain n1 where n1: "node_map net a = Some n1" using assms(3) by blast
  let ?e = "combined merge_edge (edge_map n1 b) new_Edge"
  obtain t where t: "trie_map t = (edge_map n1)(b \<mapsto> ?e)"
    "insert_edge a b net = Inr (store_node (n1\<lparr>neighbors := t\<rparr>) net)"
    "shape_ok (store_node (n1\<lparr>neighbors := t\<rparr>) net)"
    "node_map (store_node (n1\<lparr>neighbors := t\<rparr>) net) = (node_map net)(a \<mapsto> n1\<lparr>neighbors := t\<rparr>)"
    using insert_edge_shape [OF assms(1,2) n1] by blast
  let ?net = "store_node (n1\<lparr>neighbors := t\<rparr>) net"
  have em: "edge_map (n1\<lparr>neighbors := t\<rparr>) = (edge_map n1)(b \<mapsto> ?e)" using t(1) by (simp add: edge_map_def)
  have ec: "edge_count ?e = (case edge_map n1 b of None \<Rightarrow> 0 | Some e \<Rightarrow> edge_count e) + 1"
    by (cases "edge_map n1 b") (simp_all add: new_Edge_def merge_edge_def)
  have "counter ?net c = counter net c + access_weight (Insert_Edge a b) c" for c
  proof (cases c)
    case (Nodes h)
    then show ?thesis using n1 by (simp add: node_count_def t(4))
  next
    case (Links x y)
    then show ?thesis using n1 ec by (cases "x = a"; cases "y = b") (simp_all add: link_count_def t(4) em hit_def)
  qed
  moreover have "edges_of ?net = insert (a, b) (edges_of net)"
    using n1 by (auto simp: edges_of_def t(4) em split: if_splits)
  ultimately show ?thesis using t(2,3) n1 by (auto simp: performed_def t(4))
qed

lemma link_edge_performed:
  assumes "shape_ok net" and "(a, b) \<in> edges_of net"
  shows "\<exists>net'. perform fl (Link_Edge a b) net = Inr net' \<and> performed (Link_Edge a b) net net'"
proof -
  obtain n1 e where n1: "node_map net a = Some n1" "edge_map n1 b = Some e"
    using assms(2) by (auto simp: edges_of_def)
  obtain net' n1' where r: "link_edge a b net = Inr net'" "shape_ok net'"
    "node_map net' = (node_map net)(a \<mapsto> n1')" "count n1' = count n1"
    "\<forall>h. map_option edge_count (edge_map n1' h) = map_option edge_count (edge_map n1 h)"
    using link_edge_shape [OF assms(1) n1] by blast
  have d: "(\<exists>y. edge_map n1' h = Some y) \<longleftrightarrow> (\<exists>y. edge_map n1 h = Some y)" for h
  proof -
    have "(edge_map n1' h = None) = (edge_map n1 h = None)" using r(5) by (metis option.map_disc_iff)
    then show ?thesis by auto
  qed
  have lc: "(case edge_map n of None \<Rightarrow> (0::u32) | Some e \<Rightarrow> edge_count e)
      = (case map_option edge_count (edge_map n) of None \<Rightarrow> 0 | Some k \<Rightarrow> k)" for edge_map :: "string \<Rightarrow> edge option" and n
    by (simp split: option.split)
  have "counter net' c = counter net c + access_weight (Link_Edge a b) c" for c
    using n1 r(3-5) by (cases c) (auto simp: node_count_def link_count_def lc split: option.split)
  moreover have "edges_of net' = edges_of net"
    using n1 by (auto simp: edges_of_def r(3) split: if_splits) (use d in blast)+
  ultimately show ?thesis using r(1-3) n1 by (auto simp: performed_def)
qed

lemma perform_ready:
  assumes "shape_ok net" and "ready (dom (node_map net)) (edges_of net) (u # us)"
  shows "\<exists>net'. perform fl u net = Inr net' \<and> performed u net net'
    \<and> ready (dom (node_map net')) (edges_of net') us"
proof (cases u)
  case (Add_Node h)
  then obtain net' where r: "perform fl u net = Inr net'" "performed u net net'" "h \<in> dom (node_map net')"
    using add_node_performed [OF assms(1), of h fl] assms(2) by auto
  moreover have "ready (dom (node_map net')) (edges_of net') us"
    using assms(2) r(2,3) Add_Node by (auto simp: performed_def intro: ready_mono)
  ultimately show ?thesis by blast
next
  case (Insert_Edge a b)
  then obtain net' where r: "perform fl u net = Inr net'" "performed u net net'" "(a, b) \<in> edges_of net'"
    using insert_edge_performed [OF assms(1), of b a fl] assms(2) by auto
  moreover have "ready (dom (node_map net')) (edges_of net') us"
    using assms(2) r(2,3) Insert_Edge by (auto simp: performed_def intro: ready_mono)
  ultimately show ?thesis by blast
next
  case (Link_Edge a b)
  then obtain net' where r: "perform fl u net = Inr net'" "performed u net net'"
    using link_edge_performed [OF assms(1), of a b fl] assms(2) by auto
  moreover have "ready (dom (node_map net')) (edges_of net') us"
    using assms(2) r(2) Link_Edge by (auto simp: performed_def intro: ready_mono)
  ultimately show ?thesis by blast
qed

text \<open>The threads together: what is counted, and what the remaining accesses will still add.\<close>

definition remaining :: "access list list \<Rightarrow> counter_id \<Rightarrow> u32" where
  "remaining ts c = (\<Sum>us\<leftarrow>ts. \<Sum>u\<leftarrow>us. access_weight u c)"

definition threads_ok :: "access list list \<Rightarrow> hebbian_network \<Rightarrow> bool" where
  "threads_ok ts net \<longleftrightarrow> shape_ok net \<and> (\<forall>us\<in>set ts. ready (dom (node_map net)) (edges_of net) us)"

lemma remaining_update:
  assumes "i < length ts" and "ts ! i = u # us"
  shows "remaining (ts[i := us]) c + access_weight u c = remaining ts c"
proof -
  let ?w = "\<lambda>us. \<Sum>u\<leftarrow>us. access_weight u c"
  have "sum_list ((map ?w ts)[i := ?w us]) + map ?w ts ! i = sum_list (map ?w ts) + ?w us"
    using assms(1) by (intro sum_list_swap) simp
  moreover have "map ?w ts ! i = access_weight u c + ?w us" using assms by simp
  ultimately show ?thesis by (simp add: remaining_def map_update algebra_simps)
qed

lemma threads_ok_step:
  assumes "threads_ok ts net" and "i < length ts" and "ts ! i = u # us"
  shows "\<exists>net'. perform fl u net = Inr net' \<and> threads_ok (ts[i := us]) net'
    \<and> (\<forall>c. counter net' c + remaining (ts[i := us]) c = counter net c + remaining ts c)"
proof -
  have "u # us \<in> set ts" using assms(2,3) nth_mem by metis
  then obtain net' where r: "perform fl u net = Inr net'" "performed u net net'"
    "ready (dom (node_map net')) (edges_of net') us"
    using perform_ready [of net u us fl] assms(1) by (auto simp: threads_ok_def)
  have "ready (dom (node_map net')) (edges_of net') vs" if "vs \<in> set (ts[i := us])" for vs
  proof -
    have "vs = us \<or> vs \<in> set ts" using that set_update_subset_insert by fast
    then show ?thesis
      using r(2,3) assms(1) ready_mono [of "dom (node_map net)" "edges_of net" vs]
      by (auto simp: threads_ok_def performed_def)
  qed
  then have "threads_ok (ts[i := us]) net'" using r(2) by (auto simp: threads_ok_def performed_def)
  moreover have "counter net' c + remaining (ts[i := us]) c = counter net c + remaining ts c" for c
    using r(2) remaining_update [OF assms(2,3), of c] by (simp add: performed_def ac_simps)
  ultimately show ?thesis using r(1) by blast
qed

lemma interleave_ok:
  assumes "interleave fl ts net ts' net'" and "threads_ok ts net"
  shows "threads_ok ts' net' \<and> (\<forall>c. counter net' c + remaining ts' c = counter net c + remaining ts c)"
  using assms
proof (induction rule: interleave.induct)
  case (next_access ts1 net1 i u us net2)
  then show ?case using threads_ok_step [of ts1 net1 i u us fl] by auto
qed simp

text \<open>
  C4. Requests that are processed at the same time: in no interleaving of their accesses does an
  access fail, and when all are made, the count of every node and edge is the sum over the requests,
  as if they had been processed one after the other.
\<close>

theorem interleaved_requests_count:
  assumes "network_ok net" and "\<forall>hs\<in>set requests. \<forall>h\<in>set hs. valid_handle h"
    and "interleave fl (map accesses requests) net ts' net'"
  shows "(\<forall>i u us. i < length ts' \<and> ts' ! i = u # us \<longrightarrow> (\<exists>net''. perform fl u net' = Inr net''))
    \<and> ((\<forall>us\<in>set ts'. us = []) \<longrightarrow>
        node_count net' x = node_count net x + (\<Sum>hs\<leftarrow>requests. of_nat (count_list hs x))
        \<and> link_count net' x y = link_count net x y
            + (\<Sum>hs\<leftarrow>requests. if x = y then 0 else of_nat (count_list hs x * count_list hs y)))"
proof -
  have start: "threads_ok (map accesses requests) net"
    using assms(1,2) by (auto simp: threads_ok_def network_ok_shape ready_accesses)
  note r = interleave_ok [OF assms(3) start]
  have "remaining (map accesses requests) c = (\<Sum>hs\<leftarrow>requests. request_weight hs c)" for c
    by (simp add: remaining_def comp_def sum_accesses)
  then have total: "counter net' c + remaining ts' c = counter net c + (\<Sum>hs\<leftarrow>requests. request_weight hs c)" for c
    using r by simp
  have none: "remaining ts' c = 0" if "\<forall>us\<in>set ts'. us = []" for c
    using that by (induction ts') (simp_all add: remaining_def)
  have "node_count net' x = node_count net x + (\<Sum>hs\<leftarrow>requests. of_nat (count_list hs x))
      \<and> link_count net' x y = link_count net x y
          + (\<Sum>hs\<leftarrow>requests. if x = y then 0 else of_nat (count_list hs x * count_list hs y))"
    if "\<forall>us\<in>set ts'. us = []"
    using total [of "Nodes x"] total [of "Links x y"] none [OF that] by simp
  moreover have "\<exists>net''. perform fl u net' = Inr net''" if "i < length ts'" "ts' ! i = u # us" for i u us
    using threads_ok_step [OF conjunct1 [OF r] that] by blast
  ultimately show ?thesis by blast
qed

text \<open>A run of two requests, on a new network.\<close>

definition scheduled :: "nat list \<Rightarrow> string list list \<Rightarrow> (hebbian_network \<Rightarrow> bool) \<Rightarrow> bool" where
  "scheduled is requests P =
     (case new_HebbianNetwork of Inl e \<Rightarrow> False
      | Inr net \<Rightarrow> (case schedule id is (map accesses requests) net of None \<Rightarrow> False
                  | Some (ts, net') \<Rightarrow> ts = map (\<lambda>_. []) requests \<and> P net'))"

lemma scheduled_run:
  assumes "scheduled is requests P"
  shows "\<exists>net net'. new_HebbianNetwork = Inr net \<and> network_ok net \<and> node_map net = (\<lambda>_. None)
    \<and> interleave id (map accesses requests) net (map (\<lambda>_. []) requests) net' \<and> P net'"
proof -
  obtain net where net: "new_HebbianNetwork = Inr net" "network_ok net" "node_map net = (\<lambda>_. None)"
    using new_HebbianNetwork_ok by blast
  obtain net' where "schedule id is (map accesses requests) net = Some (map (\<lambda>_. []) requests, net')" "P net'"
    using assms [unfolded scheduled_def net(1) sum.case] by (auto split: option.splits)
  with schedule_interleave [OF _ interleave.begin_threads] net show ?thesis by blast
qed

theorem interleaved_requests_count_witness:
  "\<exists>net ts net'. new_HebbianNetwork = Inr net
    \<and> interleave id (map accesses [[handle_a, handle_b], [handle_b, handle_b, handle_a]]) net ts net'
    \<and> node_count net' handle_b = 3 \<and> link_count net' handle_a handle_b = 3"
proof -
  let ?rs = "[[handle_a, handle_b], [handle_b, handle_b, handle_a]]"
  have "scheduled [0, 1, 0, 1, 0, 1, 1, 0, 1, 0, 1, 0, 1, 1, 1, 1, 1] ?rs (\<lambda>_. True)"
    by code_simp
  then obtain net net' where net: "new_HebbianNetwork = Inr net" "network_ok net" "node_map net = (\<lambda>_. None)"
    "interleave id (map accesses ?rs) net (map (\<lambda>_. []) ?rs) net'"
    using scheduled_run by blast
  have zero: "node_count net h = 0" "link_count net h h' = 0" for h h'
    by (simp_all add: node_count_def link_count_def net(3))
  show ?thesis
    using interleaved_requests_count [OF net(2) _ net(4), of handle_b handle_b]
      interleaved_requests_count [OF net(2) _ net(4), of handle_a handle_b] net(1,4) zero
    by auto
qed


end
