(* ===== verification/Expression_Hasher.thy ===== *)
theory Expression_Hasher
  imports Hebbian_Network_Correct
begin

text \<open>
  \<open>hasher/expression_hasher\<close>: the handles. MD5 is a library that is not part of the repository: the
  digest of a string is the parameter \<open>md5\<close>, a list of 16 bytes. A \<open>char *\<close> that the functions are
  given is a string without null characters; the static buffer \<open>HASHABLE_STRING\<close> keeps its
  content from call to call.
\<close>

section \<open>Constants\<close>

definition JOINING_CHAR :: char where
  "JOINING_CHAR = CHR '' ''"

definition MAX_LITERAL_OR_SYMBOL_SIZE :: nat where
  "MAX_LITERAL_OR_SYMBOL_SIZE = 10000"

definition MAX_HASHABLE_STRING_SIZE :: nat where
  "MAX_HASHABLE_STRING_SIZE = 100000"

section \<open>The hash\<close>

type_synonym digest = "string \<Rightarrow> u8 list"

text \<open>\<open>sprintf\<close> with \<open>%02x\<close>: two lower-case hexadecimal digits.\<close>

definition hex_digit :: "nat \<Rightarrow> char" where
  "hex_digit d = (if d < 10 then char_of (48 + d) else char_of (87 + d))"

definition hex_byte :: "u8 \<Rightarrow> string" where
  "hex_byte b = [hex_digit (unat b div 16), hex_digit (unat b mod 16)]"

definition compute_hash :: "digest \<Rightarrow> string \<Rightarrow> string" where
  "compute_hash md5 input = concat (map (\<lambda>i. hex_byte (md5 input ! i)) [0..<16])"

definition named_type_hash :: "digest \<Rightarrow> string \<Rightarrow> string" where
  "named_type_hash md5 name = compute_hash md5 name"

section \<open>The buffer\<close>

text \<open>
  \<open>HASHABLE_STRING\<close> is a static array, so it is zero at first: a list stands for the array that
  begins with it and is zero from its end on. A write of a C string at an index writes its
  terminating null character too, and is out of bounds when that is outside the array.
\<close>

definition write_at :: "nat \<Rightarrow> string \<Rightarrow> string \<Rightarrow> string result" where
  "write_at cursor s buffer =
     (if cursor + length s < MAX_HASHABLE_STRING_SIZE
      then Inr (take cursor (buffer @ replicate cursor CHR 0x00) @ s @ [CHR 0x00]
                @ drop (cursor + length s + 1) buffer)
      else Inl Out_Of_Bounds)"

text \<open>The C string that begins at the first character of the buffer.\<close>

definition c_string :: "string \<Rightarrow> string" where
  "c_string buffer = takeWhile (\<lambda>c. c \<noteq> CHR 0x00) buffer"

section \<open>Terminals and expressions\<close>

text \<open>The result is the hash and the buffer after the call.\<close>

definition terminal_hash :: "digest \<Rightarrow> string \<Rightarrow> string \<Rightarrow> string \<Rightarrow> (string \<times> string) result" where
  "terminal_hash md5 type name buffer =
     (if length type + length name \<ge> MAX_HASHABLE_STRING_SIZE
      then Inl (Exit_Failure ''Invalid (too large) terminal name'')
      else and_then (write_at 0 (type @ [JOINING_CHAR] @ name) buffer) (\<lambda>buffer.
             Inr (compute_hash md5 (c_string buffer), buffer)))"

text \<open>The first loop: the sizes of the elements and their sum, both \<open>unsigned int\<close>.\<close>

definition measure_element :: "string \<Rightarrow> u32 \<times> u32 list \<Rightarrow> (u32 \<times> u32 list) result" where
  "measure_element e = (\<lambda>(total_size, element_size).
     let sz = of_nat (length e) :: u32
     in if unat sz > MAX_LITERAL_OR_SYMBOL_SIZE
        then Inl (Exit_Failure ''Invalid (too large) composite elements'')
        else Inr (total_size + sz, element_size @ [sz]))"

text \<open>The second loop, from element \<open>i\<close> on. The cursor is an \<open>unsigned long\<close>.\<close>

fun copy_elements :: "string list \<Rightarrow> u32 list \<Rightarrow> nat \<Rightarrow> string \<Rightarrow> string result" where
  "copy_elements (e # es) (sz # szs) cursor buffer =
     (if es = []
      then write_at cursor e buffer
      else and_then (write_at cursor (e @ [JOINING_CHAR]) buffer)
             (copy_elements es szs (cursor + 1 + unat sz)))"
| "copy_elements es szs cursor buffer = Inr buffer"

definition composite_hash :: "digest \<Rightarrow> string list \<Rightarrow> string \<Rightarrow> (string \<times> string) result" where
  "composite_hash md5 elements buffer =
     and_then (for_each measure_element elements (0, [])) (\<lambda>(total_size, element_size).
       if unat total_size \<ge> MAX_HASHABLE_STRING_SIZE
       then Inl (Exit_Failure ''Invalid (too large) composite elements'')
       else and_then (copy_elements elements element_size 0 buffer) (\<lambda>buffer.
              Inr (compute_hash md5 (c_string buffer), buffer)))"

definition expression_hash :: "digest \<Rightarrow> string \<Rightarrow> string list \<Rightarrow> string \<Rightarrow> (string \<times> string) result" where
  "expression_hash md5 type_hash elements buffer = composite_hash md5 (type_hash # elements) buffer"

section \<open>The hash is a handle\<close>

definition hex_value :: "char \<Rightarrow> nat" where
  "hex_value c = (if of_char c < (58::nat) then of_char c - 48 else of_char c - 87)"

fun unhex :: "string \<Rightarrow> u8 list" where
  "unhex (c # d # s) = of_nat (hex_value c * 16 + hex_value d) # unhex s"
| "unhex s = []"

lemma hex_digit_value:
  assumes "d < 16" shows "hex_value (hex_digit d) = d" "hex_digit d \<in> hex_digits"
proof -
  show "hex_value (hex_digit d) = d" using assms by (simp add: hex_value_def hex_digit_def)
  have "d \<in> set [0..<16]" using assms by simp
  moreover have "\<forall>d\<in>set [0..<16]. hex_digit d \<in> hex_digits" by code_simp
  ultimately show "hex_digit d \<in> hex_digits" by blast
qed

lemma unhex_byte [simp]: "unhex (hex_byte b @ s) = b # unhex s"
proof -
  have "hex_value (hex_digit (unat b div 16)) = unat b div 16" "hex_value (hex_digit (unat b mod 16)) = unat b mod 16"
    using unat_u8_less [of b] by (simp_all add: hex_digit_value)
  moreover have "unat b div 16 * 16 + unat b mod 16 = unat b" by simp
  moreover have "(of_nat (unat b) :: u8) = b" by simp
  ultimately show ?thesis by (simp only: hex_byte_def append.simps unhex.simps)
qed

lemma unhex_bytes: "unhex (concat (map hex_byte bs)) = bs"
  by (induction bs) simp_all

lemma hex_byte_digits: "set (hex_byte b) \<subseteq> hex_digits" "length (hex_byte b) = 2"
proof -
  have "unat b div 16 < 16" "unat b mod 16 < 16" using unat_u8_less [of b] by simp_all
  then show "set (hex_byte b) \<subseteq> hex_digits" "length (hex_byte b) = 2"
    by (simp_all add: hex_byte_def hex_digit_value)
qed

lemma compute_hash_bytes: "length (md5 s) = 16 \<Longrightarrow> compute_hash md5 s = concat (map hex_byte (md5 s))"
proof -
  assume "length (md5 s) = 16"
  then have "map hex_byte (md5 s) = map (\<lambda>i. hex_byte (md5 s ! i)) [0..<16]"
    by (intro nth_equalityI) simp_all
  then show ?thesis by (simp only: compute_hash_def)
qed

lemma compute_hash_valid:
  assumes "length (md5 s) = 16" shows "valid_handle (compute_hash md5 s)"
proof -
  have "length (concat (map hex_byte bs)) = 2 * length bs" for bs
    by (induction bs) (simp_all add: hex_byte_digits)
  then show ?thesis
    using assms hex_byte_digits(1) by (auto simp: compute_hash_bytes valid_key_def)
qed

section \<open>The buffer holds the joined elements\<close>

fun join_elements :: "string list \<Rightarrow> string" where
  "join_elements [] = ''''"
| "join_elements [e] = e"
| "join_elements (e # es) = e @ JOINING_CHAR # join_elements es"

lemma write_at_inside:
  "cursor \<le> length buffer \<Longrightarrow> cursor + length s < MAX_HASHABLE_STRING_SIZE \<Longrightarrow>
    write_at cursor s buffer = Inr (take cursor buffer @ s @ CHR 0x00 # drop (cursor + length s + 1) buffer)"
  by (simp add: write_at_def)

lemma write_at_outside: "MAX_HASHABLE_STRING_SIZE \<le> cursor + length s \<Longrightarrow> write_at cursor s buffer = Inl Out_Of_Bounds"
  by (simp add: write_at_def)

definition short_element :: "string \<Rightarrow> bool" where
  "short_element e \<longleftrightarrow> length e \<le> MAX_LITERAL_OR_SYMBOL_SIZE \<and> CHR 0x00 \<notin> set e"

lemma unat_short: "short_element e \<Longrightarrow> unat (of_nat (length e) :: u32) = length e"
  by (simp add: short_element_def MAX_LITERAL_OR_SYMBOL_SIZE_def unat_of_nat take_bit_eq_mod)

lemma copy_elements_joins:
  assumes "es \<noteq> []" and "\<forall>e\<in>set es. short_element e" and "cursor \<le> length buffer"
  shows "if cursor + length (join_elements es) < MAX_HASHABLE_STRING_SIZE
    then \<exists>rest. copy_elements es (map (\<lambda>e. of_nat (length e)) es) cursor buffer
      = Inr (take cursor buffer @ join_elements es @ CHR 0x00 # rest)
    else copy_elements es (map (\<lambda>e. of_nat (length e)) es) cursor buffer = Inl Out_Of_Bounds"
  using assms
proof (induction es arbitrary: cursor buffer)
  case (Cons e es)
  show ?case
  proof (cases "es = []")
    case True
    then show ?thesis using Cons.prems(3) by (simp add: write_at_inside write_at_outside)
  next
    case False
    then have join: "join_elements (e # es) = e @ JOINING_CHAR # join_elements es" by (cases es) simp_all
    show ?thesis
    proof (cases "cursor + length e + 1 < MAX_HASHABLE_STRING_SIZE")
      case True
      define b where "b = take cursor buffer @ (e @ [JOINING_CHAR]) @ CHR 0x00 # drop (cursor + length e + 2) buffer"
      have "copy_elements (e # es) (map (\<lambda>e. of_nat (length e)) (e # es)) cursor buffer
          = copy_elements es (map (\<lambda>e. of_nat (length e)) es) (cursor + length e + 1) b"
        using False Cons.prems True by (simp add: write_at_inside unat_short b_def add.commute add.left_commute)
      moreover have "take (cursor + length e + 1) b = take cursor buffer @ e @ [JOINING_CHAR]"
        "cursor + length e + 1 \<le> length b"
        using Cons.prems(3) by (simp_all add: b_def min_absorb2)
      ultimately show ?thesis
        using Cons.IH [OF False, of "cursor + length e + 1" b] Cons.prems(2) join
        by (simp add: add.assoc split: if_splits)
    next
      case False': False
      with False show ?thesis by (simp add: join write_at_outside)
    qed
  qed
qed simp

lemma measure_elements:
  assumes "\<forall>e\<in>set es. short_element e"
  shows "for_each measure_element es (t, szs)
    = Inr (t + of_nat (\<Sum>e\<leftarrow>es. length e), szs @ map (\<lambda>e. of_nat (length e)) es)"
  using assms
proof (induction es arbitrary: t szs)
  case (Cons e es)
  then have "measure_element e (t, szs) = Inr (t + of_nat (length e), szs @ [of_nat (length e)])"
    using unat_short [of e] by (simp add: measure_element_def short_element_def Let_def)
  with Cons show ?case by (simp add: add.assoc)
qed simp

lemma length_join: "es \<noteq> [] \<Longrightarrow> Suc (length (join_elements es)) = (\<Sum>e\<leftarrow>es. length e) + length es"
  by (induction es rule: join_elements.induct) auto

lemma set_join: "\<forall>e\<in>set es. CHR 0x00 \<notin> set e \<Longrightarrow> CHR 0x00 \<notin> set (join_elements es)"
  by (induction es rule: join_elements.induct) (auto simp: JOINING_CHAR_def)

lemma c_string_of: "CHR 0x00 \<notin> set s \<Longrightarrow> c_string (s @ CHR 0x00 # rest) = s"
  by (induction s) (auto simp: c_string_def)

lemma composite_hash_cases:
  assumes "es \<noteq> []" and "\<forall>e\<in>set es. short_element e" and "(\<Sum>e\<leftarrow>es. length e) < MAX_HASHABLE_STRING_SIZE"
  shows "if length (join_elements es) < MAX_HASHABLE_STRING_SIZE
    then \<exists>buffer'. composite_hash md5 es buffer = Inr (compute_hash md5 (join_elements es), buffer')
    else composite_hash md5 es buffer = Inl Out_Of_Bounds"
proof -
  let ?n = "\<Sum>e\<leftarrow>es. length e"
  have "unat (of_nat ?n :: u32) = ?n"
    using assms(3) by (simp add: MAX_HASHABLE_STRING_SIZE_def unat_of_nat take_bit_eq_mod)
  then have c: "composite_hash md5 es buffer
      = and_then (copy_elements es (map (\<lambda>e. of_nat (length e)) es) 0 buffer)
          (\<lambda>buffer. Inr (compute_hash md5 (c_string buffer), buffer))"
    using assms(3) measure_elements [OF assms(2), of 0 "[]"] by (simp add: composite_hash_def)
  have "c_string (join_elements es @ CHR 0x00 # rest) = join_elements es" for rest
    using assms(2) by (intro c_string_of set_join) (simp add: short_element_def)
  with copy_elements_joins [OF assms(1,2), of 0 buffer] show ?thesis
    unfolding c by (auto split: if_splits)
qed

section \<open>Properties\<close>

text \<open>
  C32. What the hasher computes is a handle of the tries and networks, and it can be read back: the
  hash is made of 32 lower-case hexadecimal digits, and they give the digest. The digest of MD5 has
  16 bytes.
\<close>

theorem hash_is_handle:
  assumes "\<forall>s. length (md5 s) = 16"
  shows "valid_handle (compute_hash md5 s) \<and> unhex (compute_hash md5 s) = md5 s
    \<and> (compute_hash md5 s = compute_hash md5 t \<longleftrightarrow> md5 s = md5 t)"
  using compute_hash_valid [of md5 s] assms by (metis compute_hash_bytes unhex_bytes)

theorem hash_is_handle_witness:
  "valid_handle (compute_hash (\<lambda>s. replicate 15 0 @ [of_nat (length s)]) ''Concept'')
    \<and> unhex (compute_hash (\<lambda>s. replicate 15 0 @ [of_nat (length s)]) ''Concept'') = replicate 15 0 @ [7]"
  using hash_is_handle [of "\<lambda>s. replicate 15 0 @ [of_nat (length s)]" "''Concept''"] by simp

text \<open>
  C34. The hash of a composite is the hash of its elements joined by spaces, so a terminal is hashed
  as the composite of its type and its name, and an expression as the composite of its type and its
  elements; what was in the buffer before does not matter. The elements have at most 10000 characters
  each, and the joined string must fit the buffer.
\<close>

theorem composite_hash_joins:
  assumes "es \<noteq> []" and "\<forall>e\<in>set es. short_element e"
    and "length (join_elements es) < MAX_HASHABLE_STRING_SIZE"
  shows "map_sum id fst (composite_hash md5 es buffer) = Inr (compute_hash md5 (join_elements es))
    \<and> map_sum id fst (expression_hash md5 (hd es) (tl es) buffer) = Inr (compute_hash md5 (join_elements es))
    \<and> (\<forall>t n. es = [t, n] \<longrightarrow>
        map_sum id fst (terminal_hash md5 t n buffer') = map_sum id fst (composite_hash md5 es buffer))"
proof -
  have "(\<Sum>e\<leftarrow>es. length e) < MAX_HASHABLE_STRING_SIZE"
    using length_join [OF assms(1)] assms(1,3) by (cases es) auto
  with composite_hash_cases [OF assms(1,2), of md5] assms(3)
  have "\<exists>b'. composite_hash md5 es b = Inr (compute_hash md5 (join_elements es), b')" for b by simp
  then have c: "map_sum id fst (composite_hash md5 es b) = Inr (compute_hash md5 (join_elements es))" for b
    by (metis fst_conv map_sum.simps(2))
  moreover have "map_sum id fst (terminal_hash md5 t n buffer') = Inr (compute_hash md5 (join_elements es))"
    if "es = [t, n]" for t n
  proof -
    have "CHR 0x00 \<notin> set (t @ JOINING_CHAR # n)"
      using assms(2) that by (auto simp: short_element_def JOINING_CHAR_def)
    with c_string_of [of "t @ JOINING_CHAR # n"] assms(3) that show ?thesis
      by (simp add: terminal_hash_def write_at_inside)
  qed
  moreover have "expression_hash md5 (hd es) (tl es) buffer = composite_hash md5 es buffer"
    using assms(1) by (simp add: expression_hash_def)
  ultimately show ?thesis by metis
qed

theorem composite_hash_joins_witness:
  "map_sum id fst (expression_hash (\<lambda>s. replicate 15 0 @ [of_nat (length s)]) ''a'' [''bc'', ''d''] '''')
    = Inr (compute_hash (\<lambda>s. replicate 15 0 @ [of_nat (length s)]) ''a bc d'')"
  using composite_hash_joins [of "[''a'', ''bc'', ''d'']" "\<lambda>s. replicate 15 0 @ [of_nat (length s)]" "''''"]
  by (simp add: short_element_def MAX_LITERAL_OR_SYMBOL_SIZE_def MAX_HASHABLE_STRING_SIZE_def JOINING_CHAR_def)

text \<open>
  The checks of the sizes do not count the separators: a terminal whose type and name have
  together 99999 characters, and elements whose sizes add up to less than 100000 but to 100000 or
  more with the spaces between them, are written beyond the buffer.
\<close>

theorem hasher_overflow:
  assumes "length t + length n = 99999"
    and "\<forall>e\<in>set es. short_element e" and "es \<noteq> []" and "(\<Sum>e\<leftarrow>es. length e) < 100000"
    and "100000 < (\<Sum>e\<leftarrow>es. length e) + length es"
  shows "terminal_hash md5 t n buffer = Inl Out_Of_Bounds \<and> composite_hash md5 es buffer = Inl Out_Of_Bounds"
proof -
  have "terminal_hash md5 t n buffer = Inl Out_Of_Bounds"
    using assms(1) by (simp add: terminal_hash_def write_at_outside MAX_HASHABLE_STRING_SIZE_def)
  moreover have "composite_hash md5 es buffer = Inl Out_Of_Bounds"
    using composite_hash_cases [OF assms(3,2)] assms(4,5) length_join [OF assms(3)]
    by (simp add: MAX_HASHABLE_STRING_SIZE_def)
  ultimately show ?thesis by blast
qed

theorem hasher_overflow_witness:
  "terminal_hash (\<lambda>s. []) (replicate 50000 CHR ''x'') (replicate 49999 CHR ''y'') '''' = Inl Out_Of_Bounds"
  using hasher_overflow [of "replicate 50000 CHR ''x''" "replicate 49999 CHR ''y''"
      "replicate 12 (replicate 8333 CHR ''x'')" "\<lambda>s. []" "''''"]
  by (simp add: short_element_def MAX_LITERAL_OR_SYMBOL_SIZE_def sum_list_replicate)

end
