(* ===== verification/Message_Broker.thy ===== *)
theory Message_Broker
  imports Request_Queue
begin

text \<open>
  \<open>atom_space_node/MessageBroker\<close>: the exchange of messages between nodes. A gRPC stub is a channel of
  a library that is not part of the repository: the model keeps the peers that have one, and an
  operation returns the calls of \<open>execute_message\<close> that it makes, in their order; what the called
  nodes do is in \<open>Cache_Network\<close>. An \<open>unordered_set\<close> is iterated over in an order that the library
  chooses: an operation that iterates over the peers has it as a parameter.
\<close>

section \<open>State\<close>

record message_data =
  command :: string
  args :: "string list"
  sender :: string
  is_broadcast :: bool
  visited_recipients :: "string list"

text \<open>
  \<open>peers_mutex_held\<close>: the mutex is held by a thread that will never release it. Every operation locks
  and unlocks it within one step of the model otherwise.
\<close>

record message_broker =
  broker_id :: string
  peers :: "string set"
  peers_mutex_held :: bool
  grpc_stub :: "string set"
  incoming_messages :: "message_data request_queue"
  outgoing_messages :: "message_data request_queue"
  grpc_thread :: bool
  inbox_threads :: nat
  outbox_threads :: nat

type_synonym sends = "(string \<times> message_data) list"

definition GRPC :: int where
  "GRPC = 0"

definition MESSAGE_THREAD_COUNT :: nat where
  "MESSAGE_THREAD_COUNT = 10"

definition new_SynchronousGRPC :: "string \<Rightarrow> message_broker" where
  "new_SynchronousGRPC node_id =
     \<lparr>broker_id = node_id, peers = {}, peers_mutex_held = False, grpc_stub = {},
      incoming_messages = default_RequestQueue, outgoing_messages = default_RequestQueue,
      grpc_thread = False, inbox_threads = 0, outbox_threads = 0\<rparr>"

definition message_broker_factory :: "int \<Rightarrow> string \<Rightarrow> message_broker result" where
  "message_broker_factory instance_type node_id =
     (if instance_type = GRPC then Inr (new_SynchronousGRPC node_id)
      else Inl (Runtime_Error (''Invalid MessageBrokerType: '' @ dec_int instance_type)))"

section \<open>Operations\<close>

definition base_add_peer :: "string \<Rightarrow> message_broker \<Rightarrow> message_broker result" where
  "base_add_peer peer_id b =
     (if peers_mutex_held b then Inl Blocked_Forever
      else Inr (b\<lparr>peers := insert peer_id (peers b)\<rparr>))"

definition broker_add_peer :: "string \<Rightarrow> message_broker \<Rightarrow> message_broker result" where
  "broker_add_peer peer_id b =
     and_then (base_add_peer peer_id b) (\<lambda>b. Inr (b\<lparr>grpc_stub := insert peer_id (grpc_stub b)\<rparr>))"

definition start_threads :: "message_broker \<Rightarrow> message_broker" where
  "start_threads b =
     b\<lparr>grpc_thread := True, inbox_threads := inbox_threads b + MESSAGE_THREAD_COUNT,
       outbox_threads := outbox_threads b + MESSAGE_THREAD_COUNT\<rparr>"

text \<open>A call through \<open>grpc_stub[target]\<close>: \<open>operator[]\<close> yields a null pointer for a missing key.\<close>

definition call_stub :: "message_broker \<Rightarrow> message_data \<Rightarrow> string \<Rightarrow> sends \<Rightarrow> sends result" where
  "call_stub b m target out =
     (if target \<in> grpc_stub b then Inr (out @ [(target, m)]) else Inl Null_Dereference)"

definition broker_broadcast :: "string list \<Rightarrow> string \<Rightarrow> string list \<Rightarrow> message_broker \<Rightarrow> sends result" where
  "broker_broadcast order cmd as b =
     (if card (peers b) = 0 then Inr []
      else if peers_mutex_held b then Inl Blocked_Forever
      else for_each (call_stub b \<lparr>command = cmd, args = as, sender = broker_id b, is_broadcast = True,
             visited_recipients = [broker_id b]\<rparr>) order [])"

text \<open>The result of \<open>send\<close> and the broker after it: an exception leaves the mutex locked.\<close>

definition broker_send :: "string \<Rightarrow> string list \<Rightarrow> string \<Rightarrow> message_broker \<Rightarrow> sends result \<times> message_broker" where
  "broker_send cmd as recipient b =
     (if peers_mutex_held b then (Inl Blocked_Forever, b)
      else if recipient \<notin> peers b
           then (Inl (Runtime_Error (''Unknown peer: '' @ recipient)), b\<lparr>peers_mutex_held := True\<rparr>)
           else (call_stub b \<lparr>command = cmd, args = as, sender = broker_id b, is_broadcast = False,
                   visited_recipients = []\<rparr> recipient [], b))"

definition broker_ping :: "message_broker \<Rightarrow> string" where
  "broker_ping b = ''PING''"

definition execute_message :: "message_data \<Rightarrow> message_broker \<Rightarrow> message_broker result" where
  "execute_message m b =
     and_then (enqueue (incoming_messages b) (Some m)) (\<lambda>q. Inr (b\<lparr>incoming_messages := q\<rparr>))"

text \<open>
  What an inbox thread does with a broadcast before it executes it: nothing more with one that has
  visited this node (\<open>None\<close>), otherwise the calls of the peers that it has not visited, and the message
  with this node added.
\<close>

definition forward :: "string list \<Rightarrow> message_data \<Rightarrow> message_broker \<Rightarrow> (sends \<times> message_data) option result" where
  "forward order m b =
     (if broker_id b \<in> set (visited_recipients m) then Inr None
      else let m' = m\<lparr>visited_recipients := visited_recipients m @ [broker_id b]\<rparr>
           in if peers_mutex_held b then Inl Blocked_Forever
              else and_then
                     (for_each (\<lambda>target out. if target \<notin> set (visited_recipients m)
                                            then call_stub b m' target out else Inr out) order [])
                     (\<lambda>out. Inr (Some (out, m'))))"

section \<open>Lemmas\<close>

text \<open>The order in which the library iterates over a set.\<close>

definition iterates :: "string list \<Rightarrow> string set \<Rightarrow> bool" where
  "iterates order S \<longleftrightarrow> distinct order \<and> set order = S"

definition stubs_ok :: "message_broker \<Rightarrow> bool" where
  "stubs_ok b \<longleftrightarrow> \<not> peers_mutex_held b \<and> peers b \<subseteq> grpc_stub b"

lemma call_stub_filter:
  assumes "set ts \<subseteq> grpc_stub b"
  shows "for_each (\<lambda>t out. if P t then call_stub b m t out else Inr out) ts out
    = Inr (out @ map (\<lambda>t. (t, m)) (filter P ts))"
  using assms by (induction ts arbitrary: out) (auto simp: call_stub_def)

lemma broadcast_ok:
  assumes "stubs_ok b" and "iterates order (peers b)"
  shows "broker_broadcast order cmd as b = Inr (map (\<lambda>t. (t, \<lparr>command = cmd, args = as, sender = broker_id b,
      is_broadcast = True, visited_recipients = [broker_id b]\<rparr>)) order)"
proof (cases "card (peers b) = 0")
  case True
  with assms(2) distinct_card [of order] have "order = []" by (simp add: iterates_def)
  with True show ?thesis by (simp add: broker_broadcast_def)
next
  case False
  have "set order \<subseteq> grpc_stub b" using assms by (simp add: stubs_ok_def iterates_def)
  from call_stub_filter [OF this, of "\<lambda>_. True"] False assms(1) show ?thesis
    by (simp add: broker_broadcast_def stubs_ok_def)
qed

lemma forward_ok:
  assumes "stubs_ok b" and "iterates order (peers b)" and "broker_id b \<notin> set (visited_recipients m)"
  defines "m' \<equiv> m\<lparr>visited_recipients := visited_recipients m @ [broker_id b]\<rparr>"
  shows "forward order m b
    = Inr (Some (map (\<lambda>t. (t, m')) (filter (\<lambda>t. t \<notin> set (visited_recipients m)) order), m'))"
proof -
  have "set order \<subseteq> grpc_stub b" using assms(1,2) by (simp add: stubs_ok_def iterates_def)
  note f = call_stub_filter [OF this, of "\<lambda>t. t \<notin> set (visited_recipients m)" m' "[]"]
  show ?thesis
    using assms(1,3) by (simp add: forward_def stubs_ok_def Let_def f [unfolded m'_def] m'_def)
qed

lemma add_peer_ok:
  "stubs_ok b \<Longrightarrow> broker_add_peer p b = Inr (b\<lparr>peers := insert p (peers b), grpc_stub := insert p (grpc_stub b)\<rparr>)"
  by (simp add: broker_add_peer_def base_add_peer_def stubs_ok_def)

lemma execute_message_ok:
  assumes "queue_ok (incoming_messages b)" and "length (queue_contents (incoming_messages b)) < 2 ^ 31"
  shows "\<exists>q. execute_message m b = Inr (b\<lparr>incoming_messages := q\<rparr>) \<and> queue_ok q
    \<and> queue_contents q = queue_contents (incoming_messages b) @ [Some m]"
  using rq.enq_law [OF assms, of "Some m"] by (auto simp: execute_message_def)

lemma queue_default [simp]: "queue_ok default_RequestQueue" "queue_contents default_RequestQueue = []"
  by (simp_all add: default_RequestQueue_def queue_ok_new)

section \<open>Properties\<close>

text \<open>
  C39. A \<open>send\<close> to a node that is not a peer throws with the mutex of the peers locked: from then on
  every \<open>add_peer\<close>, every \<open>send\<close>, every \<open>broadcast\<close> of a broker that has peers, and every broadcast
  that arrives for the first time blocks for ever.
\<close>

theorem send_unknown_peer_blocks:
  assumes "\<not> peers_mutex_held b" and "recipient \<notin> peers b"
  shows "\<exists>b'. broker_send cmd as recipient b = (Inl (Runtime_Error (''Unknown peer: '' @ recipient)), b')
    \<and> (\<forall>p. broker_add_peer p b' = Inl Blocked_Forever)
    \<and> (\<forall>cmd' as' r. fst (broker_send cmd' as' r b') = Inl Blocked_Forever)
    \<and> (card (peers b) \<noteq> 0 \<longrightarrow> (\<forall>order cmd' as'. broker_broadcast order cmd' as' b' = Inl Blocked_Forever))
    \<and> (\<forall>order m. broker_id b \<notin> set (visited_recipients m) \<longrightarrow> forward order m b' = Inl Blocked_Forever)"
  using assms
  by (simp add: broker_send_def broker_add_peer_def base_add_peer_def broker_broadcast_def forward_def)

theorem send_unknown_peer_blocks_witness:
  "\<exists>b'. broker_send ''ping'' [] ''b'' (new_SynchronousGRPC ''a'') = (Inl (Runtime_Error ''Unknown peer: b''), b')
    \<and> broker_add_peer ''b'' b' = Inl Blocked_Forever"
  using send_unknown_peer_blocks [of "new_SynchronousGRPC ''a''" "''b''" "''ping''" "[]"]
  by (auto simp: new_SynchronousGRPC_def)

end
