(* ===== verification/Leadership_Broker.thy ===== *)
theory Leadership_Broker
  imports Prelude
begin

text \<open>
  \<open>atom_space_node/LeadershipBroker\<close>: the choice of the leader of a network of nodes, and the loop in
  which a joining node waits for a leader.
\<close>

section \<open>State and operations\<close>

record leadership_broker =
  has_message_broker :: bool
  network_leader_id :: string

definition SINGLE_MASTER_SERVER :: int where
  "SINGLE_MASTER_SERVER = 0"

text \<open>The pointer to the message broker is not initialised before \<open>set_message_broker\<close>.\<close>

definition new_SingleMasterServer :: leadership_broker where
  "new_SingleMasterServer = \<lparr>has_message_broker = False, network_leader_id = ''''\<rparr>"

definition leadership_broker_factory :: "int \<Rightarrow> leadership_broker result" where
  "leadership_broker_factory instance_type =
     (if instance_type = SINGLE_MASTER_SERVER then Inr new_SingleMasterServer
      else Inl (Runtime_Error (''Invalid LeadershipBrokerType: '' @ dec_int instance_type)))"

definition leader_id :: "leadership_broker \<Rightarrow> string" where
  "leader_id lb = network_leader_id lb"

definition set_leader_id :: "string \<Rightarrow> leadership_broker \<Rightarrow> leadership_broker" where
  "set_leader_id i lb = lb\<lparr>network_leader_id := i\<rparr>"

definition has_leader :: "leadership_broker \<Rightarrow> bool" where
  "has_leader lb \<longleftrightarrow> network_leader_id lb \<noteq> ''''"

definition set_message_broker :: "leadership_broker \<Rightarrow> leadership_broker" where
  "set_message_broker lb = lb\<lparr>has_message_broker := True\<rparr>"

definition start_leader_election :: "string \<Rightarrow> leadership_broker \<Rightarrow> leadership_broker" where
  "start_leader_election my_vote lb = set_leader_id my_vote lb"

section \<open>The contract of an election\<close>

text \<open>
  What a node relies on: an election yields a leader exactly if the vote names one, and the leader
  is the one it names. Nothing but an election changes the leader, so the loop
  \<open>while (! has_leader()) sleep();\<close> looks at the same broker in each round.
\<close>

partial_function (option) wait_for :: "('b \<Rightarrow> bool) \<Rightarrow> 'b \<Rightarrow> 'b option" where
  "wait_for ready b = (if ready b then Some b else wait_for ready b)"

lemma wait_for_stuck:
  assumes "\<not> ready b" shows "wait_for ready b = None"
proof (rule ccontr)
  assume "wait_for ready b \<noteq> None"
  then obtain c where "wait_for ready b = Some c" by blast
  then have "ready b"
    by (rule wait_for.raw_induct [where P = "\<lambda>ready b c. ready b", rotated]) (auto split: if_splits)
  with assms show False by simp
qed

text \<open>The loop, decided: it returns at once or never.\<close>

lemma wait_for_eq [code]: "wait_for ready b = (if ready b then Some b else None)"
proof (cases "ready b")
  case True
  then show ?thesis by (subst wait_for.simps) simp
qed (simp add: wait_for_stuck)

locale election =
  fixes elect :: "string \<Rightarrow> 'b \<Rightarrow> 'b"
    and ready :: "'b \<Rightarrow> bool"
    and leader :: "'b \<Rightarrow> string"
  assumes ready_law: "ready (elect vote b) \<longleftrightarrow> vote \<noteq> ''''"
    and leader_law: "leader (elect vote b) = vote"
begin

text \<open>The loop ends exactly if the vote names a node; then the leader is that node.\<close>

lemma wait_returns:
  "wait_for ready (elect vote b) = (if vote = '''' then None else Some (elect vote b))"
  by (simp add: wait_for_eq ready_law)

lemma wait_leader: "wait_for ready (elect vote b) = Some b' \<Longrightarrow> leader b' = vote \<and> vote \<noteq> ''''"
  using wait_returns [of vote b] leader_law by (auto split: if_splits)

end

interpretation smf: election start_leader_election has_leader leader_id
  by unfold_locales (simp_all add: start_leader_election_def set_leader_id_def has_leader_def leader_id_def)

end
