(* ===== verification/AtomSpace_Node.thy ===== *)
theory AtomSpace_Node
  imports Message_Broker Leadership_Broker
begin

text \<open>
  \<open>atom_space_node/AtomSpaceNode\<close>, \<open>atom_space_node/Message\<close> and \<open>cache_node/CacheNode\<close>: a node with
  its two brokers, the messages that nodes execute, and the two kinds of nodes of the cache. The
  record of a cache node extends the record of a node as the class extends the class.
\<close>

section \<open>State\<close>

record atom_space_node =
  my_node_id :: string
  leadership :: leadership_broker
  messaging :: message_broker

text \<open>\<open>server_id\<close> is a field of the clients only.\<close>

record cache_node = atom_space_node +
  is_server :: bool
  server_id :: "string option"

definition NODE_JOINED_NETWORK :: string where
  "NODE_JOINED_NETWORK = ''node_joined_network''"

section \<open>Nodes\<close>

definition new_AtomSpaceNode :: "string \<Rightarrow> int \<Rightarrow> int \<Rightarrow> (leadership_broker \<times> message_broker) result" where
  "new_AtomSpaceNode node_id leadership_algorithm messaging_backend =
     and_then (leadership_broker_factory leadership_algorithm) (\<lambda>lb.
     and_then (message_broker_factory messaging_backend node_id) (\<lambda>mb. Inr (lb, mb)))"

definition node_id :: "'a atom_space_node_scheme \<Rightarrow> string" where
  "node_id n = my_node_id n"

definition node_leader_id :: "'a atom_space_node_scheme \<Rightarrow> string" where
  "node_leader_id n = leader_id (leadership n)"

definition node_has_leader :: "'a atom_space_node_scheme \<Rightarrow> bool" where
  "node_has_leader n = has_leader (leadership n)"

definition is_leader :: "'a atom_space_node_scheme \<Rightarrow> bool" where
  "is_leader n \<longleftrightarrow> node_leader_id n = node_id n"

definition node_add_peer :: "string \<Rightarrow> 'a atom_space_node_scheme \<Rightarrow> 'a atom_space_node_scheme result" where
  "node_add_peer p n = and_then (broker_add_peer p (messaging n)) (\<lambda>b. Inr (n\<lparr>messaging := b\<rparr>))"

definition node_broadcast :: "string list \<Rightarrow> string \<Rightarrow> string list \<Rightarrow> 'a atom_space_node_scheme \<Rightarrow> sends result" where
  "node_broadcast order cmd as n = broker_broadcast order cmd as (messaging n)"

definition node_send :: "string \<Rightarrow> string list \<Rightarrow> string \<Rightarrow> 'a atom_space_node_scheme
    \<Rightarrow> sends result \<times> 'a atom_space_node_scheme" where
  "node_send cmd as recipient n =
     (let (r, b) = broker_send cmd as recipient (messaging n) in (r, n\<lparr>messaging := b\<rparr>))"

section \<open>Messages\<close>

datatype message = NodeJoinedNetwork (joining_node: string)

text \<open>\<open>None\<close> is NULL. \<open>args[0]\<close> of an empty vector is undefined behaviour.\<close>

definition message_factory :: "string \<Rightarrow> string list \<Rightarrow> message option result" where
  "message_factory cmd as =
     (if cmd = NODE_JOINED_NETWORK
      then (case as of [] \<Rightarrow> Inl Out_Of_Bounds | a # _ \<Rightarrow> Inr (Some (NodeJoinedNetwork a)))
      else Inr None)"

definition cache_message_factory :: "string \<Rightarrow> string list \<Rightarrow> message option result" where
  "cache_message_factory cmd as =
     and_then (message_factory cmd as) (\<lambda>message. if message \<noteq> None then Inr message else Inr None)"

section \<open>Cache nodes\<close>

definition new_CacheNode :: "string \<Rightarrow> bool \<Rightarrow> cache_node result" where
  "new_CacheNode i server =
     and_then (new_AtomSpaceNode i SINGLE_MASTER_SERVER GRPC) (\<lambda>(lb, mb).
       Inr \<lparr>my_node_id = i, leadership = lb, messaging = mb, is_server = server, server_id = None\<rparr>)"

definition new_CacheNodeServer :: "string \<Rightarrow> cache_node result" where
  "new_CacheNodeServer i = new_CacheNode i True"

definition new_CacheNodeClient :: "string \<Rightarrow> string \<Rightarrow> cache_node result" where
  "new_CacheNodeClient i s =
     and_then (new_CacheNode i False) (\<lambda>n. node_add_peer s (n\<lparr>server_id := Some s\<rparr>))"

definition node_joined_network :: "string \<Rightarrow> cache_node \<Rightarrow> cache_node result" where
  "node_joined_network i n = (if is_server n then node_add_peer i n else Inr n)"

definition cast_leadership_vote :: "cache_node \<Rightarrow> string" where
  "cast_leadership_vote n = (if is_server n then node_id n else the (server_id n))"

fun act :: "message \<Rightarrow> cache_node \<Rightarrow> cache_node result" where
  "act (NodeJoinedNetwork i) n = node_joined_network i n"

text \<open>
  \<open>join_network\<close>: the calls it makes and the node after it, \<open>None\<close> when it does not return.
\<close>

definition join_network :: "string list \<Rightarrow> cache_node \<Rightarrow> (sends \<times> cache_node) result option" where
  "join_network order n =
     (let n = n\<lparr>messaging := start_threads (messaging n)\<rparr>;
          n = n\<lparr>leadership := set_message_broker (leadership n)\<rparr>;
          my_leadership_vote = cast_leadership_vote n;
          n = n\<lparr>leadership := start_leader_election my_leadership_vote (leadership n)\<rparr>
      in case wait_for has_leader (leadership n) of
           None \<Rightarrow> None
         | Some lb \<Rightarrow> Some (and_then (node_broadcast order NODE_JOINED_NETWORK [node_id n] n)
                              (\<lambda>out. Inr (out, n))))"

text \<open>
  One round of \<open>inbox_thread_method\<close>: the calls it makes and the node after it. A broadcast is
  forwarded before the message is built and executed.
\<close>

definition execute_command :: "message_data \<Rightarrow> cache_node \<Rightarrow> cache_node result" where
  "execute_command m n =
     and_then (cache_message_factory (command m) (args m)) (\<lambda>message.
       case message of None \<Rightarrow> Inl (Runtime_Error ''Invalid NULL Message'') | Some x \<Rightarrow> act x n)"

definition inbox_round :: "string list \<Rightarrow> cache_node \<Rightarrow> (sends \<times> cache_node) result" where
  "inbox_round order n =
     and_then (dequeue (incoming_messages (messaging n))) (\<lambda>(request, q).
       let n = n\<lparr>messaging := (messaging n)\<lparr>incoming_messages := q\<rparr>\<rparr>
       in case request of None \<Rightarrow> Inr ([], n)
          | Some m \<Rightarrow>
              if is_broadcast m
              then and_then (forward order m (messaging n)) (\<lambda>f.
                     case f of None \<Rightarrow> Inr ([], n)
                     | Some (out, m') \<Rightarrow> and_then (execute_command m' n) (\<lambda>n. Inr (out, n)))
              else and_then (execute_command m n) (\<lambda>n. Inr ([], n)))"

end
