(* ===== verification/Cache_Network.thy ===== *)
theory Cache_Network
  imports AtomSpace_Node
begin

text \<open>
  A network of cache nodes: the processes that listen, by their id. A call of \<open>execute_message\<close> runs
  the handler of the called node; a call to a node that does not listen fails, which the callers
  ignore. A step is a node that joins, or one round of an inbox thread of a node: rounds of different
  threads are atomic with respect to each other, which is coarser than the code.
\<close>

section \<open>Steps\<close>

type_synonym network = "string \<rightharpoonup> cache_node"

definition deliver :: "string \<times> message_data \<Rightarrow> network \<Rightarrow> network result" where
  "deliver call net =
     (case net (fst call) of None \<Rightarrow> Inr net
      | Some n \<Rightarrow> and_then (execute_message (snd call) (messaging n)) (\<lambda>b.
                    Inr (net(fst call \<mapsto> n\<lparr>messaging := b\<rparr>))))"

definition deliver_all :: "sends \<Rightarrow> network \<Rightarrow> network result" where
  "deliver_all out net = for_each deliver out net"

text \<open>
  \<open>net_step s\<close> is a step of the network whose server has the id \<open>s\<close>. A node listens from the first
  statement of \<open>join_network\<close> on, so it is in the network when its calls are delivered.
\<close>

datatype net_event = Join_Server | Join_Client string | Round string

inductive net_step :: "string \<Rightarrow> network \<Rightarrow> net_event \<Rightarrow> network \<Rightarrow> bool" for s where
  join_server: "net s = None \<Longrightarrow> new_CacheNodeServer s = Inr n \<Longrightarrow> iterates order (peers (messaging n)) \<Longrightarrow>
    join_network order n = Some (Inr (out, n')) \<Longrightarrow> deliver_all out (net(s \<mapsto> n')) = Inr net' \<Longrightarrow>
    net_step s net Join_Server net'"
| join_client: "net i = None \<Longrightarrow> i \<noteq> s \<Longrightarrow> net s \<noteq> None \<Longrightarrow> new_CacheNodeClient i s = Inr n \<Longrightarrow>
    iterates order (peers (messaging n)) \<Longrightarrow>
    join_network order n = Some (Inr (out, n')) \<Longrightarrow> deliver_all out (net(i \<mapsto> n')) = Inr net' \<Longrightarrow>
    net_step s net (Join_Client i) net'"
| round: "net i = Some n \<Longrightarrow> queue_contents (incoming_messages (messaging n)) \<noteq> [] \<Longrightarrow>
    iterates order (peers (messaging n)) \<Longrightarrow>
    inbox_round order n = Inr (out, n') \<Longrightarrow> deliver_all out (net(i \<mapsto> n')) = Inr net' \<Longrightarrow>
    net_step s net (Round i) net'"

inductive net_run :: "string \<Rightarrow> network \<Rightarrow> net_event list \<Rightarrow> network \<Rightarrow> bool" for s net where
  net_start: "net_run s net [] net"
| net_more: "net_run s net es net' \<Longrightarrow> net_step s net' e net'' \<Longrightarrow> net_run s net (es @ [e]) net''"

section \<open>The star\<close>

text \<open>
  The announcement of a client \<open>c\<close> that has visited the nodes \<open>vs\<close>, the inbox of a node, and what the
  server and a client look like in a network of the clients \<open>C\<close>: the inbox of the server holds the
  announcements of the clients that it does not know yet, each once; the inbox of a client holds
  forwarded announcements of other clients, each once.
\<close>

definition announcement :: "string \<Rightarrow> string list \<Rightarrow> message_data" where
  "announcement c vs = \<lparr>command = NODE_JOINED_NETWORK, args = [c], sender = c, is_broadcast = True,
     visited_recipients = vs\<rparr>"

definition inbox :: "cache_node \<Rightarrow> message_data option list" where
  "inbox n = queue_contents (incoming_messages (messaging n))"

definition node_fit :: "string \<Rightarrow> string \<Rightarrow> cache_node \<Rightarrow> bool" where
  "node_fit s i n \<longleftrightarrow> my_node_id n = i \<and> broker_id (messaging n) = i \<and> stubs_ok (messaging n)
     \<and> node_leader_id n = s \<and> queue_ok (incoming_messages (messaging n))"

definition server_fit :: "string \<Rightarrow> string set \<Rightarrow> cache_node \<Rightarrow> bool" where
  "server_fit s C n \<longleftrightarrow> node_fit s s n \<and> is_server n
     \<and> (\<exists>cs. distinct cs \<and> inbox n = map (\<lambda>c. Some (announcement c [c])) cs
          \<and> peers (messaging n) \<union> set cs = C \<and> peers (messaging n) \<inter> set cs = {})"

definition client_fit :: "string \<Rightarrow> string set \<Rightarrow> string \<Rightarrow> cache_node \<Rightarrow> bool" where
  "client_fit s K i n \<longleftrightarrow> node_fit s i n \<and> \<not> is_server n \<and> peers (messaging n) = {s}
     \<and> (\<exists>cs. distinct cs \<and> inbox n = map (\<lambda>c. Some (announcement c [c, s])) cs \<and> set cs \<subseteq> K - {i})"

definition star :: "string \<Rightarrow> network \<Rightarrow> bool" where
  "star s net \<longleftrightarrow> s \<noteq> '''' \<and> finite (dom net)
     \<and> (case net s of None \<Rightarrow> dom net = {}
        | Some n \<Rightarrow> server_fit s (dom net - {s}) n
            \<and> (\<forall>i m. net i = Some m \<and> i \<noteq> s \<longrightarrow> client_fit s (peers (messaging n)) i m))"

section \<open>Deliveries\<close>

definition gets :: "message_data list \<Rightarrow> cache_node \<Rightarrow> cache_node \<Rightarrow> bool" where
  "gets ms n n' \<longleftrightarrow> (\<exists>q. n' = n\<lparr>messaging := (messaging n)\<lparr>incoming_messages := q\<rparr>\<rparr> \<and> queue_ok q
     \<and> queue_contents q = inbox n @ map Some ms)"

lemma deliver_gets:
  assumes "net t = Some n" and "queue_ok (incoming_messages (messaging n))" and "length (inbox n) < 2 ^ 31"
  shows "\<exists>n'. deliver (t, m) net = Inr (net(t \<mapsto> n')) \<and> gets [m] n n'"
proof -
  obtain q where "execute_message m (messaging n) = Inr ((messaging n)\<lparr>incoming_messages := q\<rparr>)" "queue_ok q"
    "queue_contents q = inbox n @ [Some m]"
    using execute_message_ok [OF assms(2)] assms(3) by (auto simp: inbox_def)
  with assms(1) show ?thesis
    by (intro exI [of _ "n\<lparr>messaging := (messaging n)\<lparr>incoming_messages := q\<rparr>\<rparr>"])
      (auto simp: deliver_def gets_def intro!: exI [of _ q])
qed

text \<open>One message delivered to each of some nodes.\<close>

lemma deliver_all_gets:
  assumes "distinct ts" and "\<forall>t\<in>set ts. \<exists>n. net t = Some n \<and> queue_ok (incoming_messages (messaging n)) \<and> length (inbox n) < 2 ^ 31"
  shows "\<exists>net'. deliver_all (map (\<lambda>t. (t, m)) ts) net = Inr net'
    \<and> (\<forall>i. if i \<in> set ts then \<exists>n'. net' i = Some n' \<and> gets [m] (the (net i)) n' else net' i = net i)"
  using assms
proof (induction ts arbitrary: net)
  case Nil
  then show ?case by (simp add: deliver_all_def)
next
  case (Cons t ts)
  then obtain n n' where t: "net t = Some n" "deliver (t, m) net = Inr (net(t \<mapsto> n'))" "gets [m] n n'"
    using deliver_gets [of net t _ m] by auto
  let ?net = "net(t \<mapsto> n')"
  have "\<forall>u\<in>set ts. \<exists>n. ?net u = Some n \<and> queue_ok (incoming_messages (messaging n)) \<and> length (inbox n) < 2 ^ 31"
    using Cons.prems by auto
  moreover have "distinct ts" using Cons.prems(1) by simp
  ultimately obtain net' where net': "deliver_all (map (\<lambda>t. (t, m)) ts) ?net = Inr net'"
    "\<forall>i. if i \<in> set ts then \<exists>n'. net' i = Some n' \<and> gets [m] (the (?net i)) n' else net' i = ?net i"
    using Cons.IH [of ?net] by blast
  have "deliver_all (map (\<lambda>t. (t, m)) (t # ts)) net = Inr net'"
    using t(2) net'(1) by (simp add: deliver_all_def)
  moreover have "if i \<in> set (t # ts) then \<exists>n'. net' i = Some n' \<and> gets [m] (the (net i)) n' else net' i = net i" for i
    using net'(2) [rule_format, of i] t Cons.prems(1) by (auto split: if_splits)
  ultimately show ?case by blast
qed

section \<open>Nodes that join\<close>

lemmas node_defs = new_CacheNodeServer_def new_CacheNodeClient_def new_CacheNode_def new_AtomSpaceNode_def
  leadership_broker_factory_def message_broker_factory_def SINGLE_MASTER_SERVER_def GRPC_def
  node_add_peer_def broker_add_peer_def base_add_peer_def new_SynchronousGRPC_def

lemma join_network_ok:
  assumes "cast_leadership_vote n = s" and "s \<noteq> ''''" and "stubs_ok (messaging n)"
    and "iterates order (peers (messaging n))" and "broker_id (messaging n) = my_node_id n"
  shows "\<exists>n'. join_network order n = Some (Inr (map (\<lambda>t. (t, announcement (my_node_id n) [my_node_id n])) order, n'))
    \<and> (node_fit s (my_node_id n) n' \<longleftrightarrow> queue_ok (incoming_messages (messaging n))) \<and> is_server n' = is_server n
    \<and> peers (messaging n') = peers (messaging n) \<and> inbox n' = inbox n"
proof -
  let ?n = "n\<lparr>messaging := start_threads (messaging n),
      leadership := start_leader_election s (set_message_broker (leadership n))\<rparr>"
  have ok: "stubs_ok (start_threads (messaging n))" "iterates order (peers (start_threads (messaging n)))"
    using assms(3,4) by (simp_all add: stubs_ok_def start_threads_def)
  have vote: "cast_leadership_vote (n\<lparr>messaging := b, leadership := l\<rparr>) = s" for b l
    using assms(1) by (auto simp: cast_leadership_vote_def node_id_def)
  have "wait_for has_leader (start_leader_election s (set_message_broker (leadership n)))
      = Some (start_leader_election s (set_message_broker (leadership n)))"
    using assms(2) by (simp add: smf.wait_returns)
  moreover have "node_broadcast order NODE_JOINED_NETWORK [node_id ?n] ?n
      = Inr (map (\<lambda>t. (t, announcement (my_node_id n) [my_node_id n])) order)"
    using broadcast_ok [OF ok] assms(5)
    by (simp add: node_broadcast_def node_id_def announcement_def start_threads_def)
  ultimately have "join_network order n
      = Some (Inr (map (\<lambda>t. (t, announcement (my_node_id n) [my_node_id n])) order, ?n))"
    using vote by (simp add: join_network_def Let_def)
  moreover have "node_fit s (my_node_id n) ?n \<longleftrightarrow> queue_ok (incoming_messages (messaging n))"
    using assms(5) ok(1) smf.leader_law
    by (simp add: node_fit_def node_leader_id_def start_threads_def)
  ultimately show ?thesis by (auto simp: inbox_def start_threads_def)
qed

lemma server_joins:
  assumes "new_CacheNodeServer s = Inr n" and "s \<noteq> ''''" and "iterates order (peers (messaging n))"
    and "join_network order n = Some (Inr (out, n'))"
  shows "out = [] \<and> server_fit s {} n'"
proof -
  have n: "my_node_id n = s" "broker_id (messaging n) = s" "peers (messaging n) = {}" "is_server n"
    "stubs_ok (messaging n)" "queue_ok (incoming_messages (messaging n))" "inbox n = []"
    using assms(1) by (auto simp: node_defs inbox_def stubs_ok_def)
  have "order = []" using assms(3) n(3) by (simp add: iterates_def)
  then show ?thesis
    using join_network_ok [of n s order] assms(2-4) n
    by (auto simp: cast_leadership_vote_def node_id_def server_fit_def)
qed

lemma iterates_single [simp]: "iterates order {s} \<longleftrightarrow> order = [s]"
proof
  assume "iterates order {s}"
  then have "length order = 1" "set order = {s}"
    using distinct_card [of order] by (simp_all add: iterates_def)
  then show "order = [s]" by (cases order) auto
qed (simp add: iterates_def)

lemma client_joins:
  assumes "new_CacheNodeClient i s = Inr n" and "s \<noteq> ''''" and "iterates order (peers (messaging n))"
    and "join_network order n = Some (Inr (out, n'))"
  shows "out = [(s, announcement i [i])] \<and> client_fit s K i n'"
proof -
  have n: "my_node_id n = i" "broker_id (messaging n) = i" "peers (messaging n) = {s}" "\<not> is_server n"
    "server_id n = Some s" "stubs_ok (messaging n)" "queue_ok (incoming_messages (messaging n))" "inbox n = []"
    using assms(1) by (auto simp: node_defs inbox_def stubs_ok_def)
  have "order = [s]" using iterates_single assms(3) n(3) by simp
  then show ?thesis
    using join_network_ok [of n s order] assms(2-4) n
    by (auto simp: cast_leadership_vote_def node_id_def client_fit_def)
qed

section \<open>Rounds\<close>

lemma execute_announcement:
  "execute_command (announcement c vs) n = node_joined_network c n"
  by (simp add: execute_command_def cache_message_factory_def message_factory_def announcement_def)

lemma announcement_fields [simp]:
  "is_broadcast (announcement c vs)" "visited_recipients (announcement c vs) = vs"
  "(announcement c vs)\<lparr>visited_recipients := ws\<rparr> = announcement c ws"
  by (simp_all add: announcement_def)

text \<open>A round on an announcement that has not visited the node.\<close>

lemma inbox_round_announcement:
  assumes "node_fit s i n" and "inbox n = Some (announcement c vs) # rest" and "i \<notin> set vs"
    and "iterates order (peers (messaging n))" and "inbox_round order n = Inr (out, n')"
  shows "\<exists>q. queue_ok q \<and> queue_contents q = rest
    \<and> out = map (\<lambda>t. (t, announcement c (vs @ [i]))) (filter (\<lambda>t. t \<notin> set vs) order)
    \<and> node_joined_network c (n\<lparr>messaging := (messaging n)\<lparr>incoming_messages := q\<rparr>\<rparr>) = Inr n'"
proof -
  have fit: "broker_id (messaging n) = i" "stubs_ok (messaging n)" "queue_ok (incoming_messages (messaging n))"
    using assms(1) by (simp_all add: node_fit_def)
  obtain q where q: "dequeue (incoming_messages (messaging n)) = Inr (Some (announcement c vs), q)" "queue_ok q"
    "queue_contents q = rest"
    using rq.deq_law [OF fit(3)] assms(2) unfolding inbox_def by blast
  let ?b = "(messaging n)\<lparr>incoming_messages := q\<rparr>"
  have "forward order (announcement c vs) ?b
      = Inr (Some (map (\<lambda>t. (t, announcement c (vs @ [i]))) (filter (\<lambda>t. t \<notin> set vs) order), announcement c (vs @ [i])))"
    using forward_ok [of ?b order "announcement c vs"] fit(1,2) assms(3,4) by (simp add: stubs_ok_def)
  then show ?thesis
    using assms(5) q by (auto simp: inbox_round_def Let_def and_then_Inr_iff execute_announcement)
qed

lemma server_round:
  assumes "server_fit s C n" and "s \<notin> C" and "inbox n \<noteq> []"
    and "iterates order (peers (messaging n))" and "inbox_round order n = Inr (out, n')"
  shows "\<exists>c. c \<in> C \<and> c \<notin> peers (messaging n) \<and> peers (messaging n') = insert c (peers (messaging n))
    \<and> server_fit s C n' \<and> out = map (\<lambda>t. (t, announcement c [c, s])) order
    \<and> length (inbox n) = Suc (length (inbox n'))"
proof -
  obtain cs where cs: "distinct cs" "inbox n = map (\<lambda>c. Some (announcement c [c])) cs"
    "peers (messaging n) \<union> set cs = C" "peers (messaging n) \<inter> set cs = {}"
    and fit: "node_fit s s n" "is_server n"
    using assms(1) by (auto simp: server_fit_def)
  with assms(3) obtain c ds where c: "cs = c # ds" by (cases cs) auto
  then have "c \<in> C" "c \<noteq> s" "c \<notin> peers (messaging n)" using cs(3,4) assms(2) by auto
  have "\<exists>q. queue_ok q \<and> queue_contents q = map (\<lambda>c. Some (announcement c [c])) ds
    \<and> out = map (\<lambda>t. (t, announcement c ([c] @ [s]))) (filter (\<lambda>t. t \<notin> set [c]) order)
    \<and> node_joined_network c (n\<lparr>messaging := (messaging n)\<lparr>incoming_messages := q\<rparr>\<rparr>) = Inr n'"
    by (rule inbox_round_announcement [OF fit(1) _ _ assms(4,5)]) (use cs(2) c \<open>c \<noteq> s\<close> in simp_all)
  then obtain q where q: "queue_ok q" "queue_contents q = map (\<lambda>c. Some (announcement c [c])) ds"
    "out = map (\<lambda>t. (t, announcement c [c, s])) (filter (\<lambda>t. t \<noteq> c) order)"
    "node_joined_network c (n\<lparr>messaging := (messaging n)\<lparr>incoming_messages := q\<rparr>\<rparr>) = Inr n'"
    by auto
  have "filter (\<lambda>t. t \<noteq> c) order = order"
    using assms(4) \<open>c \<notin> peers (messaging n)\<close> by (auto simp: iterates_def filter_id_conv)
  moreover have n': "n' = n\<lparr>messaging := (messaging n)\<lparr>incoming_messages := q,
      peers := insert c (peers (messaging n)), grpc_stub := insert c (grpc_stub (messaging n))\<rparr>\<rparr>"
    using q(4) fit by (simp add: node_joined_network_def node_add_peer_def node_fit_def stubs_ok_def
        broker_add_peer_def base_add_peer_def)
  moreover have "server_fit s C n'"
    unfolding server_fit_def
  proof (intro conjI exI [of _ ds])
    show "node_fit s s n'" "is_server n'"
      using fit q(1) by (auto simp: n' node_fit_def stubs_ok_def node_leader_id_def)
    show "distinct ds" "inbox n' = map (\<lambda>c. Some (announcement c [c])) ds"
      using cs(1) c q(2) by (simp_all add: n' inbox_def)
    show "peers (messaging n') \<union> set ds = C" "peers (messaging n') \<inter> set ds = {}"
      using cs c by (auto simp: n')
  qed
  moreover have "inbox n' = map (\<lambda>c. Some (announcement c [c])) ds" using q(2) by (simp add: n' inbox_def)
  ultimately show ?thesis
    using q(3) \<open>c \<in> C\<close> \<open>c \<notin> peers (messaging n)\<close> cs(2) c by (intro exI [of _ c]) simp
qed

lemma client_round:
  assumes "client_fit s K i n" and "s \<notin> K" and "i \<noteq> s" and "inbox n \<noteq> []"
    and "iterates order (peers (messaging n))" and "inbox_round order n = Inr (out, n')"
  shows "out = [] \<and> client_fit s K i n' \<and> length (inbox n) = Suc (length (inbox n'))"
proof -
  obtain cs where cs: "distinct cs" "inbox n = map (\<lambda>c. Some (announcement c [c, s])) cs" "set cs \<subseteq> K - {i}"
    and fit: "node_fit s i n" "\<not> is_server n" "peers (messaging n) = {s}"
    using assms(1) by (auto simp: client_fit_def)
  with assms(4) obtain c ds where c: "cs = c # ds" by (cases cs) auto
  then have "c \<noteq> i" using cs(3) by auto
  have order: "order = [s]" using assms(5) fit(3) by simp
  have "\<exists>q. queue_ok q \<and> queue_contents q = map (\<lambda>c. Some (announcement c [c, s])) ds
    \<and> out = map (\<lambda>t. (t, announcement c ([c, s] @ [i]))) (filter (\<lambda>t. t \<notin> set [c, s]) order)
    \<and> node_joined_network c (n\<lparr>messaging := (messaging n)\<lparr>incoming_messages := q\<rparr>\<rparr>) = Inr n'"
    by (rule inbox_round_announcement [OF fit(1) _ _ assms(5,6)]) (use cs(2) c \<open>c \<noteq> i\<close> assms(3) in simp_all)
  then obtain q where q: "queue_ok q" "queue_contents q = map (\<lambda>c. Some (announcement c [c, s])) ds" "out = []"
    "n' = n\<lparr>messaging := (messaging n)\<lparr>incoming_messages := q\<rparr>\<rparr>"
    using fit(2) order by (auto simp: node_joined_network_def)
  moreover have "client_fit s K i n'"
    unfolding client_fit_def
  proof (intro conjI exI [of _ ds])
    show "node_fit s i n'" "\<not> is_server n'" "peers (messaging n') = {s}"
      using fit q(1) by (auto simp: q(4) node_fit_def stubs_ok_def node_leader_id_def)
    show "distinct ds" "inbox n' = map (\<lambda>c. Some (announcement c [c, s])) ds" "set ds \<subseteq> K - {i}"
      using cs c q(2) by (simp_all add: q(4) inbox_def)
  qed
  ultimately show ?thesis using cs(2) c by (simp add: inbox_def)
qed

section \<open>The star is kept\<close>

lemma node_fit_gets: "node_fit s i n \<Longrightarrow> gets ms n n' \<Longrightarrow> node_fit s i n' \<and> inbox n' = inbox n @ map Some ms
    \<and> peers (messaging n') = peers (messaging n) \<and> is_server n' = is_server n"
  by (auto simp: gets_def node_fit_def stubs_ok_def node_leader_id_def inbox_def)

lemma server_gets:
  assumes "server_fit s C n" and "gets [announcement c [c]] n n'" and "c \<notin> C"
  shows "server_fit s (insert c C) n' \<and> peers (messaging n') = peers (messaging n)"
proof -
  obtain cs where cs: "distinct cs" "inbox n = map (\<lambda>c. Some (announcement c [c])) cs"
    "peers (messaging n) \<union> set cs = C" "peers (messaging n) \<inter> set cs = {}"
    and fit: "node_fit s s n" "is_server n"
    using assms(1) by (auto simp: server_fit_def)
  note g = node_fit_gets [OF fit(1) assms(2)]
  have "distinct (cs @ [c])" "inbox n' = map (\<lambda>c. Some (announcement c [c])) (cs @ [c])"
    "peers (messaging n') \<union> set (cs @ [c]) = insert c C" "peers (messaging n') \<inter> set (cs @ [c]) = {}"
    using cs g assms(3) by auto
  with g fit(2) show ?thesis unfolding server_fit_def by blast
qed

lemma client_mono: "client_fit s K i n \<Longrightarrow> K \<subseteq> L \<Longrightarrow> client_fit s L i n"
  unfolding client_fit_def by (meson Diff_mono order_refl subset_trans)

lemma client_gets:
  assumes "client_fit s K i n" and "gets [announcement c [c, s]] n n'" and "c \<notin> K" and "c \<noteq> i"
  shows "client_fit s (insert c K) i n'"
proof -
  obtain cs where cs: "distinct cs" "inbox n = map (\<lambda>c. Some (announcement c [c, s])) cs" "set cs \<subseteq> K - {i}"
    and fit: "node_fit s i n" "\<not> is_server n" "peers (messaging n) = {s}"
    using assms(1) by (auto simp: client_fit_def)
  note g = node_fit_gets [OF fit(1) assms(2)]
  have "distinct (cs @ [c])" "inbox n' = map (\<lambda>c. Some (announcement c [c, s])) (cs @ [c])"
    "set (cs @ [c]) \<subseteq> insert c K - {i}"
    using cs g assms(3,4) by auto
  moreover have "node_fit s i n'" "\<not> is_server n'" "peers (messaging n') = {s}" using g fit(2,3) by simp_all
  ultimately show ?thesis unfolding client_fit_def by blast
qed

lemma client_short:
  assumes "client_fit s K i n" and "K \<subseteq> S" and "finite S" and "i \<in> S"
  shows "queue_ok (incoming_messages (messaging n)) \<and> length (inbox n) < card S"
proof -
  obtain cs where cs: "distinct cs" "inbox n = map (\<lambda>c. Some (announcement c [c, s])) cs" "set cs \<subseteq> K - {i}"
    using assms(1) by (auto simp: client_fit_def)
  have "card (set cs) < card S" using cs(3) assms(2-4) by (intro psubset_card_mono) auto
  then show ?thesis using cs assms(1) by (simp add: distinct_card client_fit_def node_fit_def)
qed

lemma server_short:
  assumes "server_fit s C n" and "finite C"
  shows "queue_ok (incoming_messages (messaging n)) \<and> length (inbox n) \<le> card C"
proof -
  obtain cs where cs: "distinct cs" "inbox n = map (\<lambda>c. Some (announcement c [c])) cs" "set cs \<subseteq> C"
    using assms(1) by (auto simp: server_fit_def)
  have "card (set cs) \<le> card C" using cs(3) assms(2) by (intro card_mono)
  then show ?thesis using cs assms(1) by (simp add: distinct_card server_fit_def node_fit_def)
qed

lemma server_peers: "server_fit s C n \<Longrightarrow> peers (messaging n) \<subseteq> C"
  by (auto simp: server_fit_def)

lemma star_server:
  assumes "star s net" and "net s = Some n"
  shows "s \<noteq> ''''" "finite (dom net)" "server_fit s (dom net - {s}) n"
    "\<And>i m. net i = Some m \<Longrightarrow> i \<noteq> s \<Longrightarrow> client_fit s (peers (messaging n)) i m"
  using assms by (auto simp: star_def)

lemma starI:
  assumes "s \<noteq> ''''" "finite (dom net)" "net s = Some n" "server_fit s (dom net - {s}) n"
    "\<And>i m. net i = Some m \<Longrightarrow> i \<noteq> s \<Longrightarrow> client_fit s (peers (messaging n)) i m"
  shows "star s net"
  using assms by (simp add: star_def)

lemma star_join_client:
  assumes "star s net" and "net i = None" and "i \<noteq> s" and "net s = Some n" and "client_fit s (peers (messaging n)) i m"
    and "deliver_all [(s, announcement i [i])] (net(i \<mapsto> m)) = Inr net'" and "card (dom net) < 2 ^ 31"
  shows "star s net' \<and> dom net' = insert i (dom net)"
proof -
  note st = star_server [OF assms(1,4)]
  have "card (dom net - {s}) \<le> card (dom net)" using st(2) by (intro card_mono) auto
  with server_short [OF st(3)] st(2) assms(7)
  have short: "queue_ok (incoming_messages (messaging n))" "length (inbox n) < 2 ^ 31" by auto
  have "(net(i \<mapsto> m)) s = Some n" using assms(3,4) by simp
  then obtain n' where n': "net' = net(i \<mapsto> m, s \<mapsto> n')" "gets [announcement i [i]] n n'"
    using deliver_gets [where net = "net(i \<mapsto> m)" and t = s and m = "announcement i [i]"] short assms(6)
    by (auto simp: deliver_all_def)
  have fit: "server_fit s (insert i (dom net - {s})) n'" "peers (messaging n') = peers (messaging n)"
    using server_gets [OF st(3) n'(2)] assms(2) by auto
  have "star s net'"
  proof (rule starI)
    have "dom net' - {s} = insert i (dom net - {s})" using assms(3,4) n'(1) by auto
    with fit(1) show "server_fit s (dom net' - {s}) n'" by simp
    show "net' s = Some n'" "finite (dom net')" using n'(1) st(2) by simp_all
    show "client_fit s (peers (messaging n')) j m'" if "net' j = Some m'" "j \<noteq> s" for j m'
      using that st(4) assms(5) n'(1) fit(2) by (auto split: if_splits)
  qed (rule st(1))
  with n'(1) assms(4) show ?thesis by auto
qed

definition messages :: "string \<Rightarrow> network \<Rightarrow> nat" where
  "messages i net = (case net i of None \<Rightarrow> 0 | Some n \<Rightarrow> length (inbox n))"

lemma star_server_round:
  assumes "star s net" and "net s = Some n" and "inbox n \<noteq> []" and "iterates order (peers (messaging n))"
    and "inbox_round order n = Inr (out, n')" and "card (dom net) \<le> 2 ^ 31"
  shows "\<exists>net'. deliver_all out (net(s \<mapsto> n')) = Inr net' \<and> star s net' \<and> dom net' = dom net \<and> net' s = Some n'
    \<and> (\<forall>i\<in>dom net - {s}. messages i net' \<le> messages i net + 1)"
proof -
  note st = star_server [OF assms(1,2)]
  let ?P = "peers (messaging n)"
  obtain c where c: "c \<in> dom net - {s}" "c \<notin> ?P" "peers (messaging n') = insert c ?P"
    "server_fit s (dom net - {s}) n'" "out = map (\<lambda>t. (t, announcement c [c, s])) order"
    using server_round [OF st(3) _ assms(3-5)] by blast
  have P: "?P \<subseteq> dom net - {s}" by (rule server_peers [OF st(3)])
  have ready: "\<exists>m. (net(s \<mapsto> n')) t = Some m \<and> queue_ok (incoming_messages (messaging m)) \<and> length (inbox m) < 2 ^ 31"
    if t: "t \<in> set order" for t
  proof -
    have "t \<in> ?P" using t assms(4) by (simp add: iterates_def)
    with P obtain m where m: "net t = Some m" "t \<noteq> s" by auto
    have "?P \<subseteq> dom net" "t \<in> dom net" using P m by auto
    from client_short [OF st(4) [OF m] this(1) st(2) this(2)] assms(6)
    have "queue_ok (incoming_messages (messaging m))" "length (inbox m) < 2 ^ 31" by linarith+
    with m show ?thesis by auto
  qed
  have d: "distinct order" "set order = ?P" using assms(4) by (simp_all add: iterates_def)
  from deliver_all_gets [OF d(1), of "net(s \<mapsto> n')" "announcement c [c, s]"] ready c(5)
  obtain net' where res: "deliver_all out (net(s \<mapsto> n')) = Inr net'"
    and all: "\<And>i. if i \<in> set order then \<exists>m'. net' i = Some m' \<and> gets [announcement c [c, s]] (the ((net(s \<mapsto> n')) i)) m'
      else net' i = (net(s \<mapsto> n')) i"
    by blast
  have net': "if i \<in> ?P then \<exists>m'. net' i = Some m' \<and> gets [announcement c [c, s]] (the (net i)) m'
      else net' i = (net(s \<mapsto> n')) i" for i
    using all [of i] P d(2) by (auto split: if_splits)
  have s: "net' s = Some n'" using net' [of s] P by (auto split: if_splits)
  have dom: "dom net' = dom net"
  proof (intro set_eqI)
    show "i \<in> dom net' \<longleftrightarrow> i \<in> dom net" for i
      using net' [of i] P assms(2) by (cases "i \<in> ?P"; cases "i = s") (auto simp: domIff)
  qed
  have "star s net'"
  proof (rule starI)
    show "s \<noteq> ''''" "finite (dom net')" "net' s = Some n'" "server_fit s (dom net' - {s}) n'"
      using st(1,2) s c(4) dom by simp_all
    fix i m assume i: "net' i = Some m" "i \<noteq> s"
    show "client_fit s (peers (messaging n')) i m"
    proof (cases "i \<in> ?P")
      case True
      with P obtain m0 where m0: "net i = Some m0" by auto
      from net' [of i] True i(1) m0 have "gets [announcement c [c, s]] m0 m" by simp
      from client_gets [OF st(4) [OF m0 i(2)] this c(2)] True c(2,3) show ?thesis by auto
    next
      case False
      with net' [of i] i have "net i = Some m" by simp
      from client_mono [OF st(4) [OF this i(2)]] c(3) show ?thesis by auto
    qed
  qed
  moreover have "messages i net' \<le> messages i net + 1" if i: "i \<in> dom net - {s}" for i
  proof -
    obtain m where m: "net i = Some m" using i by auto
    show ?thesis
    proof (cases "i \<in> ?P")
      case True
      with net' [of i] m obtain m' where "net' i = Some m'" "gets [announcement c [c, s]] m m'" by auto
      with m show ?thesis
        using node_fit_gets [of s i m] st(4) [OF m] i by (simp add: messages_def client_fit_def)
    next
      case False
      with net' [of i] i m show ?thesis by (simp add: messages_def)
    qed
  qed
  ultimately show ?thesis using res dom s by blast
qed

lemma star_client_round:
  assumes "star s net" and "net s = Some n" and "net i = Some m" and "i \<noteq> s" and "inbox m \<noteq> []"
    and "iterates order (peers (messaging m))" and "inbox_round order m = Inr (out, m')"
    and "deliver_all out (net(i \<mapsto> m')) = Inr net'"
  shows "star s net' \<and> dom net' = dom net \<and> net' = net(i \<mapsto> m') \<and> length (inbox m) = Suc (length (inbox m'))"
proof -
  note st = star_server [OF assms(1,2)]
  have "s \<notin> peers (messaging n)" using server_peers [OF st(3)] by auto
  from client_round [OF st(4) [OF assms(3,4)] this assms(4-7)]
  have c: "out = []" "client_fit s (peers (messaging n)) i m'" "length (inbox m) = Suc (length (inbox m'))" by simp_all
  then have net': "net' = net(i \<mapsto> m')" using assms(8) by (simp add: deliver_all_def)
  have dom: "dom net' = dom net" using assms(3) net' by auto
  have "star s net'"
  proof (rule starI)
    show "s \<noteq> ''''" "finite (dom net')" "net' s = Some n" "server_fit s (dom net' - {s}) n"
      using st(1,2,3) dom assms(2,4) net' by simp_all
    show "client_fit s (peers (messaging n)) j x" if "net' j = Some x" "j \<noteq> s" for j x
      using that st(4) c(2) net' by (auto split: if_splits)
  qed
  with c(3) dom net' show ?thesis by blast
qed

text \<open>The node that an event adds.\<close>

fun joiner :: "string \<Rightarrow> net_event \<Rightarrow> string list" where
  "joiner s Join_Server = [s]"
| "joiner s (Join_Client i) = [i]"
| "joiner s (Round i) = []"

lemma star_step:
  assumes "net_step s net e net'" and "star s net" and "card (dom net) < 2 ^ 31"
  shows "star s net' \<and> dom net' = dom net \<union> set (joiner s e)"
  using assms(1)
proof cases
  case (join_server n order out n')
  have s: "s \<noteq> ''''" "dom net = {}" using assms(2) join_server(2) by (simp_all add: star_def)
  with server_joins [OF join_server(3) _ join_server(4,5)] join_server(6)
  have "net' = [s \<mapsto> n']" "server_fit s {} n'" by (auto simp: deliver_all_def)
  with s join_server(1) show ?thesis by (simp add: star_def)
next
  case (join_client i n order out n')
  then obtain m where m: "net s = Some m" by blast
  have "s \<noteq> ''''" using assms(2) by (simp add: star_def)
  from client_joins [OF join_client(5) this join_client(6,7)]
  have "out = [(s, announcement i [i])]" "client_fit s (peers (messaging m)) i n'" by blast+
  with star_join_client [OF assms(2) join_client(2,3) m, of n' net'] join_client(1,8) assms(3) show ?thesis by simp
next
  case (round i n order out n')
  obtain m where m: "net s = Some m"
    using assms(2) round(2) by (cases "net s") (auto simp: star_def)
  show ?thesis
  proof (cases "i = s")
    case True
    have "inbox n \<noteq> []" using round(3) by (simp add: inbox_def)
    from star_server_round [OF assms(2) _ this round(4,5)] round(1,2,6) True assms(3) show ?thesis by auto
  next
    case False
    have "inbox n \<noteq> []" using round(3) by (simp add: inbox_def)
    from star_client_round [OF assms(2) m round(2) False this round(4-6)] have "star s net'" "dom net' = dom net"
      by blast+
    with round(1) show ?thesis by simp
  qed
qed

definition joins :: "string \<Rightarrow> net_event list \<Rightarrow> string list" where
  "joins s es = concat (map (joiner s) es)"

lemma joins_simps [simp]: "joins s [] = []" "joins s (es @ [e]) = joins s es @ joiner s e"
  by (simp_all add: joins_def)

lemma star_run:
  assumes "net_run s Map.empty es net" and "s \<noteq> ''''" and "length (joins s es) < 2 ^ 31"
  shows "star s net \<and> dom net = set (joins s es)"
  using assms(1,3)
proof (induction rule: net_run.induct)
  case net_start
  then show ?case using assms(2) by (simp add: star_def)
next
  case (net_more es net e net')
  then have IH: "star s net" "dom net = set (joins s es)" by simp_all
  with net_more.prems have "card (dom net) < 2 ^ 31" using card_length [of "joins s es"] by simp
  from star_step [OF net_more.hyps(2) IH(1) this] IH(2) show ?case by simp
qed

section \<open>Rounds end\<close>

text \<open>
  A round of the server takes one announcement and makes at most one for each client; a round of a
  client takes one.
\<close>

definition round_cost :: "string \<Rightarrow> network \<Rightarrow> nat" where
  "round_cost s net = card (dom net) * messages s net + (\<Sum>i\<in>dom net - {s}. messages i net)"

lemma server_round_cost:
  assumes "star s net" and "net s = Some n" and "inbox n \<noteq> []" and "iterates order (peers (messaging n))"
    and "inbox_round order n = Inr (out, n')" and "deliver_all out (net(s \<mapsto> n')) = Inr net'"
    and "card (dom net) \<le> 2 ^ 31"
  shows "round_cost s net' < round_cost s net"
proof -
  note st = star_server [OF assms(1,2)]
  have kept: "dom net' = dom net" "net' s = Some n'" "\<forall>i\<in>dom net - {s}. messages i net' \<le> messages i net + 1"
    using star_server_round [OF assms(1-5,7)] assms(6) by auto
  let ?C = "dom net - {s}"
  obtain c where c: "length (inbox n) = Suc (length (inbox n'))" "out = map (\<lambda>t. (t, announcement c [c, s])) order"
    using server_round [OF st(3) _ assms(3-5)] by blast
  have P: "set order \<subseteq> ?C" "distinct order" using server_peers [OF st(3)] assms(4) by (auto simp: iterates_def)
  have grow: "messages i net' \<le> messages i net + 1" if "i \<in> ?C" for i using kept that by blast
  have own: "messages s net' = length (inbox n')" using kept by (simp add: messages_def)
  have "(\<Sum>i\<in>?C. messages i net') \<le> (\<Sum>i\<in>?C. messages i net + 1)" using grow by (intro sum_mono) simp
  also have "\<dots> = (\<Sum>i\<in>?C. messages i net) + card ?C" by (simp only: sum.distrib sum_constant) simp
  also have "card ?C < card (dom net)" using st(2) assms(2) by (intro psubset_card_mono) auto
  finally show ?thesis
    using kept own c(1) assms(2) by (simp add: round_cost_def messages_def)
qed

lemma client_round_cost:
  assumes "star s net" and "net s = Some n" and "net i = Some m" and "i \<noteq> s" and "inbox m \<noteq> []"
    and "iterates order (peers (messaging m))" and "inbox_round order m = Inr (out, m')"
    and "deliver_all out (net(i \<mapsto> m')) = Inr net'"
  shows "round_cost s net' < round_cost s net"
proof -
  have c: "net' = net(i \<mapsto> m')" "length (inbox m) = Suc (length (inbox m'))" "dom net' = dom net"
    using star_client_round [OF assms] by auto
  have fin: "finite (dom net - {s})" using star_server(2) [OF assms(1,2)] by simp
  have "(\<Sum>j\<in>dom net - {s}. messages j net') < (\<Sum>j\<in>dom net - {s}. messages j net)"
  proof (rule sum_strict_mono_ex1 [OF fin])
    show "\<forall>j\<in>dom net - {s}. messages j net' \<le> messages j net" using c(1,2) assms(3) by (simp add: messages_def)
    have "i \<in> dom net - {s}" "messages i net' < messages i net"
      using c(1,2) assms(3,4) by (auto simp: messages_def)
    then show "\<exists>j\<in>dom net - {s}. messages j net' < messages j net" by blast
  qed
  moreover have "messages s net' = messages s net" using c(1) assms(4) by (simp add: messages_def)
  ultimately show ?thesis using c(3) by (simp add: round_cost_def)
qed

lemma round_step_cost:
  assumes "net_step s net (Round i) net'" and "star s net" and "card (dom net) < 2 ^ 31"
  shows "round_cost s net' < round_cost s net"
  using assms(1)
proof cases
  case (round n order out n')
  obtain m where m: "net s = Some m" using assms(2) round(1) by (cases "net s") (auto simp: star_def)
  have "inbox n \<noteq> []" using round(2) by (simp add: inbox_def)
  with server_round_cost [OF assms(2), of n order out n' net'] client_round_cost [OF assms(2) m round(1)] round assms(3)
  show ?thesis by (cases "i = s") auto
qed

lemma rounds_cost:
  assumes "net_run s net es net'" and "\<forall>e\<in>set es. \<exists>i. e = Round i" and "star s net" and "card (dom net) < 2 ^ 31"
  shows "length es + round_cost s net' \<le> round_cost s net \<and> star s net' \<and> dom net' = dom net"
  using assms
proof (induction rule: net_run.induct)
  case (net_more es net1 e net2)
  then obtain i where e: "e = Round i" and IH: "length es + round_cost s net1 \<le> round_cost s net" "star s net1"
    "dom net1 = dom net" by auto
  have step: "net_step s net1 (Round i) net2" using net_more.hyps(2) e by simp
  have "card (dom net1) < 2 ^ 31" using IH(3) net_more.prems(3) by simp
  from round_step_cost [OF step IH(2) this] star_step [OF step IH(2) this] IH show ?case by simp
qed simp

text \<open>A node with a message in its inbox can make a round.\<close>

lemma inbox_round_total:
  assumes "node_fit s i n" and "inbox n = Some (announcement c vs) # rest" and "i \<notin> set vs"
    and "iterates order (peers (messaging n))"
  shows "\<exists>out n'. inbox_round order n = Inr (out, n')"
proof -
  have fit: "broker_id (messaging n) = i" "stubs_ok (messaging n)" "queue_ok (incoming_messages (messaging n))"
    using assms(1) by (simp_all add: node_fit_def)
  obtain q where q: "dequeue (incoming_messages (messaging n)) = Inr (Some (announcement c vs), q)"
    using rq.deq_law [OF fit(3)] assms(2) unfolding inbox_def by blast
  let ?b = "(messaging n)\<lparr>incoming_messages := q\<rparr>"
  have b: "stubs_ok ?b" using fit(2) by (simp add: stubs_ok_def)
  obtain out where "forward order (announcement c vs) ?b = Inr (Some (out, announcement c (vs @ [i])))"
    using forward_ok [OF b, of order "announcement c vs"] fit(1) assms(3,4) by simp
  with q add_peer_ok [OF b, of c] show ?thesis
    by (auto simp: inbox_round_def Let_def execute_announcement node_joined_network_def node_add_peer_def)
qed

lemma round_enabled:
  assumes "star s net" and "net i = Some n" and "inbox n \<noteq> []" and "card (dom net) \<le> 2 ^ 31"
  shows "\<exists>net'. net_step s net (Round i) net'"
proof -
  obtain m where m: "net s = Some m" using assms(1,2) by (cases "net s") (auto simp: star_def)
  note st = star_server [OF assms(1) m]
  have "finite (peers (messaging n))"
    using st(2,3) st(4) [OF assms(2)] m assms(2) server_peers finite_subset [of "peers (messaging m)" "dom net - {s}"]
    by (cases "i = s") (auto simp: client_fit_def)
  then obtain order where order: "iterates order (peers (messaging n))"
    using finite_distinct_list by (auto simp: iterates_def)
  have q: "queue_contents (incoming_messages (messaging n)) \<noteq> []" using assms(3) by (simp add: inbox_def)
  show ?thesis
  proof (cases "i = s")
    case True
    then have n: "server_fit s (dom net - {s}) n" using m assms(2) st(3) by simp
    then obtain cs where cs: "inbox n = map (\<lambda>c. Some (announcement c [c])) cs" "set cs \<subseteq> dom net - {s}"
      and fit: "node_fit s s n"
      by (auto simp: server_fit_def)
    with assms(3) obtain c ds where "cs = c # ds" by (cases cs) auto
    with cs inbox_round_total [OF fit _ _ order, of c "[c]"] obtain out n' where r: "inbox_round order n = Inr (out, n')"
      by auto
    from star_server_round [OF assms(1) _ assms(3) order r assms(4)] assms(2) True
    obtain net' where "deliver_all out (net(s \<mapsto> n')) = Inr net'" by auto
    with net_step.round [of net i n order out n' net' s] assms(2) q order r True show ?thesis by blast
  next
    case False
    then obtain cs where cs: "inbox n = map (\<lambda>c. Some (announcement c [c, s])) cs" "set cs \<subseteq> peers (messaging m) - {i}"
      and fit: "node_fit s i n"
      using st(4) [OF assms(2)] by (auto simp: client_fit_def)
    with assms(3) obtain c ds where "cs = c # ds" by (cases cs) auto
    with cs False inbox_round_total [OF fit _ _ order, of c "[c, s]"] obtain out n' where
      r: "inbox_round order n = Inr (out, n')" by auto
    have "s \<notin> peers (messaging m)" using server_peers [OF st(3)] by auto
    from client_round [OF st(4) [OF assms(2) False] this False assms(3) order r] have "out = []" by simp
    then have "deliver_all out (net(i \<mapsto> n')) = Inr (net(i \<mapsto> n'))" by (simp add: deliver_all_def)
    with net_step.round [of net i n order out n' "net(i \<mapsto> n')" s] assms(2) q order r show ?thesis by blast
  qed
qed

section \<open>Computed runs\<close>

text \<open>The steps as a function; \<open>order\<close> gives the order of iteration over a set.\<close>

definition delivered :: "sends \<Rightarrow> network \<Rightarrow> network option" where
  "delivered out net = (case deliver_all out net of Inl e \<Rightarrow> None | Inr net' \<Rightarrow> Some net')"

definition enter :: "(string set \<Rightarrow> string list) \<Rightarrow> string \<Rightarrow> cache_node result \<Rightarrow> network \<Rightarrow> network option" where
  "enter order i new net =
     (case new of Inl e \<Rightarrow> None
      | Inr n \<Rightarrow>
          if iterates (order (peers (messaging n))) (peers (messaging n))
          then case join_network (order (peers (messaging n))) n of
                 Some (Inr (out, n')) \<Rightarrow> delivered out (net(i \<mapsto> n'))
               | _ \<Rightarrow> None
          else None)"

fun net_next :: "(string set \<Rightarrow> string list) \<Rightarrow> string \<Rightarrow> net_event \<Rightarrow> network \<Rightarrow> network option" where
  "net_next order s Join_Server net =
     (if Option.is_none (net s) then enter order s (new_CacheNodeServer s) net else None)"
| "net_next order s (Join_Client i) net =
     (if Option.is_none (net i) \<and> i \<noteq> s \<and> \<not> Option.is_none (net s)
      then enter order i (new_CacheNodeClient i s) net else None)"
| "net_next order s (Round i) net =
     (case net i of None \<Rightarrow> None
      | Some n \<Rightarrow>
          if queue_contents (incoming_messages (messaging n)) \<noteq> []
            \<and> iterates (order (peers (messaging n))) (peers (messaging n))
          then case inbox_round (order (peers (messaging n))) n of
                 Inr (out, n') \<Rightarrow> delivered out (net(i \<mapsto> n'))
               | _ \<Rightarrow> None
          else None)"

fun net_exec :: "(string set \<Rightarrow> string list) \<Rightarrow> string \<Rightarrow> network \<Rightarrow> net_event list \<Rightarrow> network option" where
  "net_exec order s net [] = Some net"
| "net_exec order s net (e # es) =
     (case net_next order s e net of None \<Rightarrow> None | Some net' \<Rightarrow> net_exec order s net' es)"

lemma delivered_Some: "delivered out net = Some net' \<longleftrightarrow> deliver_all out net = Inr net'"
  by (simp add: delivered_def split: sum.split)

lemma net_next_step: "net_next order s e net = Some net' \<Longrightarrow> net_step s net e net'"
  by (cases e)
    (auto simp: enter_def Option.is_none_def delivered_Some intro: net_step.intros
      split: if_splits sum.splits option.splits prod.splits)

lemma net_run_append: "net_run s net' es' net'' \<Longrightarrow> net_run s net es net' \<Longrightarrow> net_run s net (es @ es') net''"
  by (induction rule: net_run.induct)
    (auto simp: append_assoc [symmetric] simp del: append_assoc intro: net_run.intros)

lemma net_exec_run: "net_exec order s net es = Some net' \<Longrightarrow> net_run s net es net'"
proof (induction es arbitrary: net)
  case Nil
  then show ?case by (simp add: net_run.net_start)
next
  case (Cons e es)
  then obtain net1 where "net_step s net e net1" "net_exec order s net1 es = Some net'"
    by (auto dest: net_next_step split: option.splits)
  with Cons.IH net_run_append [of s net1 es net' net "[e]"] net_run.net_more [OF net_run.net_start, of s net e net1]
  show ?case by simp
qed

lemma net_reaches:
  "(case net_exec order s net es of None \<Rightarrow> False | Some net' \<Rightarrow> P net') \<Longrightarrow> \<exists>net'. net_run s net es net' \<and> P net'"
  by (cases "net_exec order s net es") (auto dest: net_exec_run)

text \<open>A server and two clients; the announcement of \<open>a\<close> is processed before \<open>b\<close> joins.\<close>

definition three :: "string set \<Rightarrow> string list" where
  "three S = filter (\<lambda>i. i \<in> S) [''a'', ''b'', ''s'']"

definition join_events :: "net_event list" where
  "join_events = [Join_Server, Join_Client ''a'', Round ''s'', Join_Client ''b'']"

lemma join_events_reach:
  "\<exists>net. net_run ''s'' Map.empty join_events net \<and> (\<exists>n. net ''s'' = Some n \<and> peers (messaging n) = {''a''}
     \<and> length (inbox n) = 1)"
proof -
  have "case net_exec three ''s'' Map.empty join_events of None \<Rightarrow> False
    | Some net \<Rightarrow> (case net ''s'' of None \<Rightarrow> False | Some n \<Rightarrow> peers (messaging n) = {''a''} \<and> length (inbox n) = 1)"
    by code_simp
  from net_reaches [OF this] show ?thesis by (auto split: option.splits)
qed

section \<open>Properties\<close>

lemma client_message_bound:
  assumes "star s net" and "net s = Some n" and "card (dom net) \<le> k"
  shows "messages i net \<le> k"
proof (cases "net i")
  case None
  then show ?thesis by (simp add: messages_def)
next
  case (Some m)
  note st = star_server [OF assms(1,2)]
  have P: "peers (messaging n) \<subseteq> dom net" using server_peers [OF st(3)] by auto
  have c: "card (dom net - {s}) \<le> card (dom net)" using st(2) by (intro card_mono) auto
  show ?thesis
  proof (cases "i = s")
    case True
    with Some assms(2,3) server_short [OF st(3)] st(2) c show ?thesis by (simp add: messages_def)
  next
    case False
    have "i \<in> dom net" using Some by auto
    with client_short [OF st(4) [OF Some False] P st(2)] assms(3) Some show ?thesis by (simp add: messages_def)
  qed
qed



text \<open>
  C31. \<open>join_network\<close> of a client returns exactly if the id of its server is not the empty string: with
  an empty id the election leaves no leader, and the loop that waits for one never ends. When it
  returns, the server is the leader and the announcement was sent to the server alone.
\<close>

theorem client_join_returns:
  assumes "new_CacheNodeClient i s = Inr n" and "iterates order (peers (messaging n))"
  shows "if s = '''' then join_network order n = None
    else \<exists>n'. join_network order n = Some (Inr ([(s, announcement i [i])], n')) \<and> node_leader_id n' = s"
proof (cases "s = ''''")
  case True
  have "server_id n = Some s" "\<not> is_server n" using assms(1) by (auto simp: node_defs)
  with True show ?thesis
    by (simp add: join_network_def Let_def cast_leadership_vote_def smf.wait_returns)
next
  case False
  have n: "my_node_id n = i" "broker_id (messaging n) = i" "peers (messaging n) = {s}" "\<not> is_server n"
    "server_id n = Some s" "stubs_ok (messaging n)" "queue_ok (incoming_messages (messaging n))"
    using assms(1) by (auto simp: node_defs stubs_ok_def)
  have order: "order = [s]" using assms(2) n(3) by simp
  have "cast_leadership_vote n = s" using n(4,5) by (simp add: cast_leadership_vote_def)
  from join_network_ok [OF this False n(6) assms(2)] n order False show ?thesis
    by (auto simp: node_fit_def)
qed

theorem client_join_returns_witness:
  "\<exists>n. new_CacheNodeClient ''a'' '''' = Inr n \<and> join_network [''''] n = None"
proof -
  obtain n where n: "new_CacheNodeClient ''a'' '''' = Inr n" "peers (messaging n) = {''''}"
    by (auto simp: node_defs)
  with client_join_returns [OF n(1), of "['''']"] show ?thesis by auto
qed



end
