(* ===== verification/Broadcast_Network.thy ===== *)
theory Broadcast_Network
  imports Message_Broker
begin

text \<open>
  A broadcast in a network of any shape: the brokers that listen, by their id, with the peers they
  know. The nodes that own them are subclasses of \<open>AtomSpaceNode\<close>; what they do when they execute the
  command is theirs, and is here an event. The command changes no peers, unlike the announcement of a
  new node, which is in \<open>Cache_Network\<close>. A step is one round of an inbox thread.
\<close>

section \<open>Steps\<close>

type_synonym brokers = "string \<rightharpoonup> message_broker"

text \<open>A call of \<open>execute_message\<close>; one to a node that does not listen fails, and is ignored.\<close>

definition deliver_to :: "string \<times> message_data \<Rightarrow> brokers \<Rightarrow> brokers result" where
  "deliver_to call net =
     (case net (fst call) of None \<Rightarrow> Inr net
      | Some b \<Rightarrow> and_then (execute_message (snd call) b) (\<lambda>b. Inr (net(fst call \<mapsto> b))))"

definition deliver_sends :: "sends \<Rightarrow> brokers \<Rightarrow> brokers result" where
  "deliver_sends out net = for_each deliver_to out net"

definition broadcast_from :: "string list \<Rightarrow> string \<Rightarrow> string list \<Rightarrow> string \<Rightarrow> brokers \<Rightarrow> brokers result" where
  "broadcast_from order cmd as i net =
     (case net i of None \<Rightarrow> Inl Null_Dereference
      | Some b \<Rightarrow> and_then (broker_broadcast order cmd as b) (\<lambda>out. deliver_sends out net))"

datatype flood_event = Executes string message_data | Drops string message_data

text \<open>One round: a broadcast is forwarded and executed, or it has been here and is dropped.\<close>

definition flood_round :: "string list \<Rightarrow> string \<Rightarrow> brokers \<Rightarrow> (flood_event \<times> brokers) result option" where
  "flood_round order i net =
     (case net i of None \<Rightarrow> None
      | Some b \<Rightarrow>
          (case dequeue (incoming_messages b) of
             Inl e \<Rightarrow> Some (Inl e)
           | Inr (None, q) \<Rightarrow> None
           | Inr (Some m, q) \<Rightarrow>
               let b' = b\<lparr>incoming_messages := q\<rparr>
               in if is_broadcast m
                  then Some (and_then (forward order m b') (\<lambda>f.
                    case f of
                      None \<Rightarrow> Inr (Drops i m, net(i \<mapsto> b'))
                    | Some (out, m') \<Rightarrow>
                        and_then (deliver_sends out (net(i \<mapsto> b'))) (\<lambda>net'. Inr (Executes i m', net'))))
                  else Some (Inr (Executes i m, net(i \<mapsto> b')))))"

inductive flood_run :: "brokers \<Rightarrow> flood_event list \<Rightarrow> brokers \<Rightarrow> bool" for net where
  flood_start: "flood_run net [] net"
| flood_more: "flood_run net es net' \<Longrightarrow> net' i = Some b \<Longrightarrow> iterates order (peers b) \<Longrightarrow>
    flood_round order i net' = Some (Inr (e, net'')) \<Longrightarrow> flood_run net (es @ [e]) net''"

section \<open>Routes\<close>

definition peers_of :: "brokers \<Rightarrow> string \<Rightarrow> string set" where
  "peers_of net i = (case net i of None \<Rightarrow> {} | Some b \<Rightarrow> peers b \<inter> dom net)"

text \<open>The ways from a node to other nodes, from peer to peer, that visit no node twice.\<close>

inductive route :: "brokers \<Rightarrow> string \<Rightarrow> string list \<Rightarrow> bool" for net i where
  route_start: "route net i [i]"
| route_more: "route net i p \<Longrightarrow> t \<in> peers_of net (last p) \<Longrightarrow> t \<notin> set p \<Longrightarrow> route net i (p @ [t])"

text \<open>
  Where the message goes that has taken the way \<open>p\<close>: to the peers of its last node that it had not
  visited before it came there.
\<close>

definition hops :: "brokers \<Rightarrow> string list \<Rightarrow> string list set" where
  "hops net p = {p @ [t] | t. t \<in> peers_of net (last p) \<and> t \<notin> set (butlast p)}"

definition deliveries :: "brokers \<Rightarrow> string \<Rightarrow> string list set" where
  "deliveries net i = (\<Union>p\<in>{p. route net i p}. hops net p)"

lemma peers_of_dom: "j \<in> peers_of net x \<Longrightarrow> j \<in> dom net"
  by (simp add: peers_of_def split: option.splits)

lemma route_nonempty: "route net i p \<Longrightarrow> p \<noteq> []"
  by (induction rule: route.induct) simp_all

lemma route_distinct: "route net i p \<Longrightarrow> distinct p \<and> set p \<subseteq> insert i (dom net)"
  by (induction rule: route.induct) (auto simp: peers_of_def split: option.splits)

lemma hops_disjoint: "p \<noteq> p' \<Longrightarrow> hops net p \<inter> hops net p' = {}"
  by (auto simp: hops_def)

lemma deliveries_butlast:
  assumes "vs @ [j] \<in> deliveries net i"
  shows "route net i vs \<and> vs @ [j] \<in> hops net vs \<and> j \<in> peers_of net (last vs)"
  using assms by (auto simp: deliveries_def hops_def)

lemma deliveries_route: "vs @ [j] \<in> deliveries net i \<Longrightarrow> route net i (vs @ [j]) \<longleftrightarrow> j \<notin> set vs"
  using deliveries_butlast [of vs j net i] route_distinct [of net i "vs @ [j]"] by (auto intro: route_more)

lemma finite_routes:
  assumes "finite (dom net)"
  shows "finite {p. route net i p}"
proof (rule finite_subset)
  let ?A = "insert i (dom net)"
  show "{p. route net i p} \<subseteq> {p. set p \<subseteq> ?A \<and> length p \<le> card ?A}"
  proof
    fix p assume "p \<in> {p. route net i p}"
    then have p: "distinct p" "set p \<subseteq> ?A" using route_distinct by blast+
    then have "length p \<le> card ?A" using card_mono [of ?A "set p"] distinct_card [of p] assms by simp
    with p(2) show "p \<in> {p. set p \<subseteq> ?A \<and> length p \<le> card ?A}" by simp
  qed
  show "finite {p. set p \<subseteq> ?A \<and> length p \<le> card ?A}" using assms by (intro finite_lists_length_le) simp
qed

lemma finite_deliveries:
  assumes "finite (dom net)" shows "finite (deliveries net i)"
proof (rule finite_subset)
  show "deliveries net i \<subseteq> (\<lambda>(p, t). p @ [t]) ` ({p. route net i p} \<times> dom net)"
    by (auto simp: deliveries_def hops_def peers_of_def split: option.splits)
  show "finite ((\<lambda>(p, t). p @ [t]) ` ({p. route net i p} \<times> dom net))"
    using finite_routes [OF assms] assms by (intro finite_imageI finite_cartesian_product)
qed

text \<open>A node that can be reached at all can be reached on a route.\<close>

lemma route_prefix: "route net i p \<Longrightarrow> p = q @ r \<Longrightarrow> q \<noteq> [] \<Longrightarrow> route net i q"
proof (induction arbitrary: r rule: route.induct)
  case route_start
  then show ?case by (cases q) (auto intro: route.route_start)
next
  case (route_more p t)
  show ?case
  proof (cases r rule: rev_cases)
    case Nil
    with route_more show ?thesis by (metis append_Nil2 route.route_more)
  next
    case (snoc r' x)
    with route_more show ?thesis by simp
  qed
qed

lemma reachable_route:
  assumes "(i, j) \<in> {(x, y). y \<in> peers_of net x}\<^sup>*"
  shows "\<exists>p. route net i p \<and> last p = j"
  using assms
proof (induction rule: rtrancl_induct)
  case base
  then show ?case using route.route_start [of net i] by force
next
  case (step x y)
  then obtain p where p: "route net i p" "last p = x" by blast
  show ?case
  proof (cases "y \<in> set p")
    case True
    then obtain q r where "p = (q @ [y]) @ r" by (metis append.assoc append_Cons append_Nil split_list)
    with route_prefix [OF p(1) this] show ?thesis by (intro exI [of _ "q @ [y]"]) simp
  next
    case False
    with p step.hyps(2) route.route_more [of net i p y] show ?thesis by force
  qed
qed

section \<open>Messages under way\<close>

definition broadcast_message :: "string \<Rightarrow> string list \<Rightarrow> string \<Rightarrow> string list \<Rightarrow> message_data" where
  "broadcast_message cmd as i vs = \<lparr>command = cmd, args = as, sender = i, is_broadcast = True, visited_recipients = vs\<rparr>"

lemma broadcast_message_fields [simp]:
  "is_broadcast (broadcast_message cmd as i vs)" "visited_recipients (broadcast_message cmd as i vs) = vs"
  "(broadcast_message cmd as i vs)\<lparr>visited_recipients := ws\<rparr> = broadcast_message cmd as i ws"
  by (simp_all add: broadcast_message_def)

text \<open>A network in which nothing is under way, and one with the messages \<open>W\<close> in the inboxes, by what they have visited.\<close>

definition quiet :: "brokers \<Rightarrow> bool" where
  "quiet net \<longleftrightarrow> finite (dom net) \<and> (\<forall>j b. net j = Some b \<longrightarrow> broker_id b = j \<and> stubs_ok b \<and> finite (peers b)
     \<and> queue_ok (incoming_messages b) \<and> queue_contents (incoming_messages b) = [])"

definition flooded :: "(string list \<Rightarrow> message_data) \<Rightarrow> brokers \<Rightarrow> (string \<Rightarrow> string list list) \<Rightarrow> brokers \<Rightarrow> bool" where
  "flooded bm net W net' \<longleftrightarrow> dom net' = dom net \<and> (\<forall>j b. net j = Some b \<longrightarrow>
     (\<exists>q. net' j = Some (b\<lparr>incoming_messages := q\<rparr>) \<and> queue_ok q \<and> queue_contents q = map (\<lambda>vs. Some (bm vs)) (W j)))"

lemma quiet_flooded: "quiet net \<Longrightarrow> flooded bm net (\<lambda>j. []) net"
  unfolding flooded_def quiet_def
  by (auto intro!: exI [of _ "incoming_messages b" for b])

lemma flooded_node:
  assumes "flooded bm net W net'" and "net' j = Some c"
  shows "\<exists>b. net j = Some b \<and> c = b\<lparr>incoming_messages := incoming_messages c\<rparr> \<and> queue_ok (incoming_messages c)
    \<and> queue_contents (incoming_messages c) = map (\<lambda>vs. Some (bm vs)) (W j)"
proof -
  have "j \<in> dom net" using assms by (auto simp: flooded_def)
  then obtain b where "net j = Some b" by blast
  with assms show ?thesis by (force simp: flooded_def)
qed

lemma flooded_update:
  assumes "flooded bm net W net'" and "net j = Some b" and "queue_ok q"
    and "queue_contents q = map (\<lambda>vs. Some (bm vs)) ws"
  shows "flooded bm net (W(j := ws)) (net'(j \<mapsto> b\<lparr>incoming_messages := q\<rparr>))"
  using assms by (auto simp: flooded_def)

lemma deliver_one:
  assumes f: "flooded bm net W net'" and len: "length (W t) < 2 ^ 31"
  shows "\<exists>net''. deliver_to (t, bm p) net' = Inr net'' \<and> flooded bm net (W(t := W t @ (if t \<in> dom net then [p] else []))) net''"
proof (cases "net' t")
  case None
  with f have "t \<notin> dom net" by (auto simp: flooded_def)
  with None f show ?thesis by (simp add: deliver_to_def)
next
  case (Some c)
  from flooded_node [OF f Some] obtain b where b: "net t = Some b" "c = b\<lparr>incoming_messages := incoming_messages c\<rparr>"
    "queue_ok (incoming_messages c)" "queue_contents (incoming_messages c) = map (\<lambda>vs. Some (bm vs)) (W t)" by blast
  from execute_message_ok [OF b(3), of "bm p"] b(4) len obtain q where
    q: "execute_message (bm p) c = Inr (c\<lparr>incoming_messages := q\<rparr>)" "queue_ok q"
    "queue_contents q = map (\<lambda>vs. Some (bm vs)) (W t @ [p])" by auto
  have "c\<lparr>incoming_messages := q\<rparr> = b\<lparr>incoming_messages := q\<rparr>"
    using arg_cong [OF b(2), of "\<lambda>c. c\<lparr>incoming_messages := q\<rparr>"] by simp
  with flooded_update [OF f b(1) q(2,3)] q(1) Some b(1) show ?thesis by (auto simp: deliver_to_def)
qed

lemma deliver_flooded:
  assumes "flooded bm net W net'" and "distinct ts" and "\<forall>t\<in>set ts. length (W t) < 2 ^ 31"
  shows "\<exists>net''. deliver_sends (map (\<lambda>t. (t, bm p)) ts) net' = Inr net''
    \<and> flooded bm net (\<lambda>t. W t @ (if t \<in> set ts \<and> t \<in> dom net then [p] else [])) net''"
  using assms
proof (induction ts arbitrary: net' W)
  case Nil
  then show ?case by (simp add: deliver_sends_def)
next
  case (Cons t ts)
  let ?W = "W(t := W t @ (if t \<in> dom net then [p] else []))"
  obtain net1 where 1: "deliver_to (t, bm p) net' = Inr net1" "flooded bm net ?W net1"
    using deliver_one [OF Cons.prems(1), of t p] Cons.prems(3) by auto
  have "distinct ts" "\<forall>u\<in>set ts. length (?W u) < 2 ^ 31" using Cons.prems(2,3) by auto
  from Cons.IH [OF 1(2) this] obtain net'' where
    2: "deliver_sends (map (\<lambda>t. (t, bm p)) ts) net1 = Inr net''"
    "flooded bm net (\<lambda>u. ?W u @ (if u \<in> set ts \<and> u \<in> dom net then [p] else [])) net''" by blast
  have "(\<lambda>u. ?W u @ (if u \<in> set ts \<and> u \<in> dom net then [p] else []))
      = (\<lambda>u. W u @ (if u \<in> set (t # ts) \<and> u \<in> dom net then [p] else []))"
    using Cons.prems(2) by (auto simp: fun_eq_iff)
  with 1(1) 2 show ?case by (auto simp: deliver_sends_def)
qed

section \<open>The invariant\<close>

fun handled :: "flood_event \<Rightarrow> string list" where
  "handled (Executes j m) = visited_recipients m"
| "handled (Drops j m) = visited_recipients m @ [j]"

fun executed :: "flood_event \<Rightarrow> string list list" where
  "executed (Executes j m) = [visited_recipients m]"
| "executed (Drops j m) = []"

definition executions :: "flood_event list \<Rightarrow> string list list" where
  "executions es = concat (map executed es)"

definition under_way :: "(string \<Rightarrow> string list list) \<Rightarrow> string list set" where
  "under_way W = {vs @ [j] | vs j. vs \<in> set (W j)}"

fun event_ok :: "(string list \<Rightarrow> message_data) \<Rightarrow> flood_event \<Rightarrow> bool" where
  "event_ok bm (Executes j m) \<longleftrightarrow> m = bm (visited_recipients m) \<and> last (visited_recipients m) = j"
| "event_ok bm (Drops j m) \<longleftrightarrow> m = bm (visited_recipients m)"

definition flood_ok :: "(string list \<Rightarrow> message_data) \<Rightarrow> brokers \<Rightarrow> string \<Rightarrow> flood_event list
    \<Rightarrow> (string \<Rightarrow> string list list) \<Rightarrow> bool" where
  "flood_ok bm net i es W \<longleftrightarrow> (\<forall>j. distinct (W j)) \<and> distinct (map handled es)
     \<and> under_way W \<inter> handled ` set es = {}
     \<and> under_way W \<union> handled ` set es = (\<Union>p\<in>insert [i] (set (executions es)). hops net p)
     \<and> executions es = filter (route net i) (map handled es)
     \<and> (\<forall>e\<in>set es. event_ok bm e)"

lemma executions_simps [simp]: "executions [] = []" "executions (es @ [e]) = executions es @ executed e"
  by (simp_all add: executions_def)

lemma flood_ok_deliveries:
  assumes "flood_ok bm net i es W"
  shows "under_way W \<union> handled ` set es \<subseteq> deliveries net i"
proof -
  have "route net i p" if "p \<in> insert [i] (set (executions es))" for p
    using that assms by (auto simp: flood_ok_def intro: route.route_start)
  then have "(\<Union>p\<in>insert [i] (set (executions es)). hops net p) \<subseteq> deliveries net i"
    by (auto simp: deliveries_def)
  with assms show ?thesis by (simp add: flood_ok_def)
qed

lemma inbox_short:
  assumes "flood_ok bm net i es W" and "finite (dom net)" and "card (deliveries net i) < 2 ^ 31"
  shows "length (W j) < 2 ^ 31"
proof -
  have "(\<lambda>vs. vs @ [j]) ` set (W j) \<subseteq> deliveries net i"
    using flood_ok_deliveries [OF assms(1)] by (auto simp: under_way_def)
  from card_mono [OF finite_deliveries [OF assms(2)] this]
  have "card (set (W j)) \<le> card (deliveries net i)" by (simp add: card_image inj_on_def)
  with assms(1,3) distinct_card [of "W j"] show ?thesis by (simp add: flood_ok_def)
qed

section \<open>Rounds\<close>

lemma in_under_way: "vs @ [j] \<in> under_way W \<longleftrightarrow> vs \<in> set (W j)" "[] \<notin> under_way W"
  by (simp_all add: under_way_def)

lemma under_way_take:
  assumes "W j = vs # ws" and "distinct (W j)"
  shows "under_way (W(j := ws)) = under_way W - {vs @ [j]}"
proof (rule set_eqI)
  fix x
  from assms show "x \<in> under_way (W(j := ws)) \<longleftrightarrow> x \<in> under_way W - {vs @ [j]}"
    by (cases x rule: rev_cases) (auto simp: in_under_way)
qed

lemma under_way_put: "under_way (\<lambda>t. W t @ (if t \<in> S then [p] else [])) = under_way W \<union> {p @ [t] | t. t \<in> S}"
  by (auto simp: under_way_def split: if_splits)

lemma flood_okD:
  assumes "flood_ok bm net i es W"
  shows "under_way W \<inter> handled ` set es = {}" and "executions es = filter (route net i) (map handled es)"
    and "under_way W \<union> handled ` set es = (\<Union>q\<in>insert [i] (set (executions es)). hops net q)"
proof -
  note c = assms [unfolded flood_ok_def, THEN conjunct2, THEN conjunct2]
  show "under_way W \<inter> handled ` set es = {}" by (rule c [THEN conjunct1])
  show "under_way W \<union> handled ` set es = (\<Union>q\<in>insert [i] (set (executions es)). hops net q)"
    by (rule c [THEN conjunct2, THEN conjunct1])
  show "executions es = filter (route net i) (map handled es)"
    by (rule c [THEN conjunct2, THEN conjunct2, THEN conjunct1])
qed

lemma disjoint_union: "(\<And>q. q \<in> S \<Longrightarrow> A \<inter> B q = {}) \<Longrightarrow> A \<inter> (\<Union>q\<in>S. B q) = {}"
  by blast

text \<open>What a way leads on to is new when the way itself is still under way.\<close>

lemma hops_new:
  assumes "flood_ok bm net i es W" and "p \<in> under_way W" and "p \<noteq> [i]"
  shows "hops net p \<inter> (under_way W \<union> handled ` set es) = {}"
proof -
  note e = flood_okD(2) [OF assms(1)] and d = flood_okD(1) [OF assms(1)] and u = flood_okD(3) [OF assms(1)]
  have "set (executions es) \<subseteq> handled ` set es" by (simp add: e)
  then have "p \<notin> insert [i] (set (executions es))" using d assms(2,3) by blast
  then have "hops net p \<inter> hops net q = {}" if "q \<in> insert [i] (set (executions es))" for q
    using that by (intro hops_disjoint) auto
  then have "hops net p \<inter> (\<Union>q\<in>insert [i] (set (executions es)). hops net q) = {}"
    by (rule disjoint_union)
  with u show ?thesis by simp
qed

lemma flood_ok_drop:
  assumes ok: "flood_ok bm net i es W" and W: "W j = vs # ws" and j: "j \<in> set vs"
    and that: "visited_recipients (bm vs) = vs"
  shows "flood_ok bm net i (es @ [Drops j (bm vs)]) (W(j := ws))"
proof -
  have p: "vs @ [j] \<in> under_way W" using W by (auto simp: under_way_def)
  have nr: "\<not> route net i (vs @ [j])" using j route_distinct by fastforce
  have d: "distinct (W j)" using ok by (simp add: flood_ok_def)
  have "\<forall>k. distinct ((W(j := ws)) k)" using ok W d by (auto simp: flood_ok_def)
  moreover have "vs @ [j] \<notin> handled ` set es" using ok p by (auto simp: flood_ok_def)
  moreover have "under_way W - {vs @ [j]} \<union> insert (vs @ [j]) (handled ` set es) = under_way W \<union> handled ` set es"
    using p by blast
  ultimately show ?thesis
    using ok that nr by (auto simp: flood_ok_def under_way_take [where W = W and j = j and vs = vs and ws = ws, OF W d])
qed

lemma flood_ok_execute:
  assumes ok: "flood_ok bm net i es W" and W: "W j = vs # ws" and j: "j \<notin> set vs"
    and bm: "visited_recipients (bm (vs @ [j])) = vs @ [j]" and S: "S = peers_of net j - set vs"
  shows "flood_ok bm net i (es @ [Executes j (bm (vs @ [j]))])
    (\<lambda>t. (W(j := ws)) t @ (if t \<in> S then [vs @ [j]] else []))"
proof -
  let ?p = "vs @ [j]" and ?W = "W(j := ws)"
  have p: "?p \<in> under_way W" using W by (auto simp: under_way_def)
  then have D: "?p \<in> deliveries net i" using flood_ok_deliveries [OF ok] by blast
  have r: "route net i ?p" using deliveries_route [OF D] j by simp
  have ne: "?p \<noteq> [i]" using deliveries_butlast [OF D] route_nonempty by fastforce
  have d: "distinct (W j)" using ok by (simp add: flood_ok_def)
  have hops: "{?p @ [t] | t. t \<in> S} = hops net ?p" by (auto simp: hops_def S)
  note new = hops_new [OF ok p ne]
  note uw = under_way_put [of ?W S ?p, unfolded under_way_take [where W = W and j = j and vs = vs and ws = ws, OF W d] hops]
  have "?p \<notin> set (?W t)" if "t \<in> S" for t
  proof
    assume "?p \<in> set (?W t)"
    then have "?p \<in> set (W t)" using W by (auto split: if_splits)
    then have "?p @ [t] \<in> under_way W" by (auto simp: under_way_def)
    moreover have "?p @ [t] \<in> hops net ?p" using that hops by blast
    ultimately show False using new by blast
  qed
  moreover have "distinct (?W t)" for t using ok W d by (auto simp: flood_ok_def)
  ultimately have 1: "\<forall>t. distinct (?W t @ (if t \<in> S then [?p] else []))" by auto
  have fresh: "?p \<notin> handled ` set es" using ok p by (auto simp: flood_ok_def)
  then have 2: "distinct (map handled (es @ [Executes j (bm ?p)]))" using ok bm by (auto simp: flood_ok_def)
  have "?p \<notin> hops net ?p" by (auto simp: hops_def)
  then have 3: "(under_way W - {?p} \<union> hops net ?p) \<inter> insert ?p (handled ` set es) = {}"
  proof -
    have "under_way W \<inter> handled ` set es = {}" using ok by (simp add: flood_ok_def)
    with new \<open>?p \<notin> hops net ?p\<close> show ?thesis by blast
  qed
  have 4: "under_way W - {?p} \<union> hops net ?p \<union> insert ?p (handled ` set es)
      = (\<Union>q\<in>insert [i] (set (executions es)). hops net q) \<union> hops net ?p"
  proof -
    have "under_way W - {?p} \<union> hops net ?p \<union> insert ?p (handled ` set es)
        = (under_way W \<union> handled ` set es) \<union> hops net ?p" using p by blast
    with ok show ?thesis by (simp add: flood_ok_def)
  qed
  have 5: "executions (es @ [Executes j (bm ?p)]) = filter (route net i) (map handled (es @ [Executes j (bm ?p)]))"
    using ok r bm by (simp add: flood_ok_def)
  have 6: "\<forall>e\<in>set (es @ [Executes j (bm ?p)]). event_ok bm e" using ok bm by (auto simp: flood_ok_def)
  have h: "handled ` set (es @ [Executes j (bm ?p)]) = insert ?p (handled ` set es)" using bm by simp
  have x: "(\<Union>q\<in>insert [i] (set (executions (es @ [Executes j (bm ?p)]))). hops net q)
      = (\<Union>q\<in>insert [i] (set (executions es)). hops net q) \<union> hops net ?p" using bm by auto
  show ?thesis unfolding flood_ok_def uw h x using 1 2 3 4 5 6 by blast
qed

lemma flood_round_ok:
  assumes q: "quiet net" and f: "flooded bm net W net'" and ok: "flood_ok bm net i es W"
    and small: "card (deliveries net i) < 2 ^ 31" and c: "net' j = Some c" and order: "iterates order (peers c)"
    and W: "W j = vs # ws" and bm: "bm = broadcast_message cmd as i"
  shows "\<exists>e net'' W'. flood_round order j net' = Some (Inr (e, net'')) \<and> flooded bm net W' net''
    \<and> flood_ok bm net i (es @ [e]) W'"
proof -
  obtain b where b: "net j = Some b" "c = b\<lparr>incoming_messages := incoming_messages c\<rparr>"
    "queue_ok (incoming_messages c)" "queue_contents (incoming_messages c) = map (\<lambda>vs. Some (bm vs)) (W j)"
    using flooded_node [OF f c] by blast
  obtain q' where q': "dequeue (incoming_messages c) = Inr (Some (bm vs), q')" "queue_ok q'"
    "queue_contents q' = map (\<lambda>vs. Some (bm vs)) ws"
    using rq.deq_law [OF b(3), of "Some (bm vs)" "map (\<lambda>vs. Some (bm vs)) ws"] b(4) W by auto
  let ?c = "c\<lparr>incoming_messages := q'\<rparr>"
  have eq: "?c = b\<lparr>incoming_messages := q'\<rparr>"
    using arg_cong [OF b(2), of "\<lambda>c. c\<lparr>incoming_messages := q'\<rparr>"] by simp
  have bq: "broker_id b = j" "stubs_ok b" using q b(1) by (auto simp: quiet_def)
  then have cq: "broker_id ?c = j" "stubs_ok ?c" by (simp_all add: eq stubs_ok_def)
  have peers: "peers ?c = peers b" "peers c = peers b" using eq b(2) by (simp, metis message_broker.select_convs(2) message_broker.update_convs(5) message_broker.surjective)
  have f1: "flooded bm net (W(j := ws)) (net'(j \<mapsto> ?c))"
    unfolding eq by (rule flooded_update [OF f b(1) q'(2,3)])
  show ?thesis
  proof (cases "j \<in> set vs")
    case True
    then have "forward order (bm vs) ?c = Inr None" using cq(1) by (simp add: forward_def bm)
    then have "flood_round order j net' = Some (Inr (Drops j (bm vs), net'(j \<mapsto> ?c)))"
      using c q'(1) by (simp add: flood_round_def bm)
    moreover have "flood_ok bm net i (es @ [Drops j (bm vs)]) (W(j := ws))"
      by (rule flood_ok_drop [OF ok W True]) (simp add: bm)
    ultimately show ?thesis using f1 by blast
  next
    case False
    let ?ts = "filter (\<lambda>t. t \<notin> set vs) order" and ?p = "vs @ [j]"
    have fw: "forward order (bm vs) ?c = Inr (Some (map (\<lambda>t. (t, bm ?p)) ?ts, bm ?p))"
      using forward_ok [OF cq(2), of order "bm vs"] order False cq(1) peers by (simp add: bm)
    have "distinct ?ts" using order by (simp add: iterates_def)
    moreover have "\<forall>t\<in>set ?ts. length ((W(j := ws)) t) < 2 ^ 31"
    proof -
      have l: "length (W t) < 2 ^ 31" for t
        using inbox_short [OF ok _ small] q by (simp add: quiet_def)
      then have "length ((W(j := ws)) t) < 2 ^ 31" for t
        using W l [of j] l [of t] by simp
      then show ?thesis by blast
    qed
    ultimately obtain net'' where
      net'': "deliver_sends (map (\<lambda>t. (t, bm ?p)) ?ts) (net'(j \<mapsto> ?c)) = Inr net''"
      "flooded bm net (\<lambda>t. (W(j := ws)) t @ (if t \<in> set ?ts \<and> t \<in> dom net then [?p] else [])) net''"
      using deliver_flooded [OF f1] by blast
    have S: "t \<in> set ?ts \<and> t \<in> dom net \<longleftrightarrow> t \<in> peers_of net j - set vs" for t
      using order b(1) peers by (auto simp: iterates_def peers_of_def)
    have "flood_round order j net' = Some (Inr (Executes j (bm ?p), net''))"
      using c q'(1) fw net''(1) by (simp add: flood_round_def bm)
    moreover have "flood_ok bm net i (es @ [Executes j (bm ?p)])
        (\<lambda>t. (W(j := ws)) t @ (if t \<in> peers_of net j - set vs then [?p] else []))"
      by (rule flood_ok_execute [OF ok W False]) (simp_all add: bm)
    ultimately show ?thesis using net''(2) unfolding S by blast
  qed
qed

lemma broadcast_starts:
  assumes q: "quiet net" and b: "net i = Some b" and order: "iterates order (peers b)"
    and small: "card (deliveries net i) < 2 ^ 31" and bm: "bm = broadcast_message cmd as i"
  shows "\<exists>net' W. broadcast_from order cmd as i net = Inr net' \<and> flooded bm net W net' \<and> flood_ok bm net i [] W"
proof -
  have bq: "broker_id b = i" "stubs_ok b" using q b by (auto simp: quiet_def)
  have out: "broker_broadcast order cmd as b = Inr (map (\<lambda>t. (t, bm [i])) order)"
    using broadcast_ok [OF bq(2) order] bq(1) by (simp add: bm broadcast_message_def)
  have "distinct order" using order by (simp add: iterates_def)
  with deliver_flooded [OF quiet_flooded [OF q], of order bm "[i]"] obtain net' where
    net': "deliver_sends (map (\<lambda>t. (t, bm [i])) order) net = Inr net'"
    "flooded bm net (\<lambda>t. [] @ (if t \<in> set order \<and> t \<in> dom net then [[i]] else [])) net'"
    by auto
  let ?W = "\<lambda>t. [] @ (if t \<in> peers_of net i then [[i]] else [])"
  have S: "t \<in> set order \<and> t \<in> dom net \<longleftrightarrow> t \<in> peers_of net i" for t
    using order b by (auto simp: iterates_def peers_of_def)
  have "under_way ?W = hops net [i]" by (auto simp: under_way_def hops_def split: if_splits)
  then have "flood_ok bm net i [] ?W" by (simp add: flood_ok_def)
  with net' out b show ?thesis unfolding S by (auto simp: broadcast_from_def)
qed

lemma flood_run_ok:
  assumes run: "flood_run net1 es net'" and q: "quiet net" and W: "flooded bm net W net1" "flood_ok bm net i [] W"
    and small: "card (deliveries net i) < 2 ^ 31" and bm: "bm = broadcast_message cmd as i"
  shows "\<exists>W. flooded bm net W net' \<and> flood_ok bm net i es W"
  using run
proof (induction rule: flood_run.induct)
  case flood_start
  with W show ?case by blast
next
  case (flood_more es net' j c order e net'')
  then obtain W where W: "flooded bm net W net'" "flood_ok bm net i es W" by blast
  show ?case
  proof (cases "W j")
    case Nil
    have "queue_ok (incoming_messages c)" "queue_contents (incoming_messages c) = []"
      using flooded_node [OF W(1) flood_more.hyps(2)] Nil by auto
    then have "dequeue (incoming_messages c) = Inr (None, incoming_messages c)" by (rule rq.deq_empty_law)
    then have "flood_round order j net' = None" using flood_more.hyps(2) by (simp add: flood_round_def)
    with flood_more.hyps(4) show ?thesis by simp
  next
    case (Cons vs ws)
    from flood_round_ok [OF q W small flood_more.hyps(2,3) Cons bm] flood_more.hyps(4) show ?thesis by auto
  qed
qed

lemma round_possible:
  assumes "quiet net" and f: "flooded bm net W net'" and "flood_ok bm net i es W"
    and "card (deliveries net i) < 2 ^ 31" and c: "net' j = Some c" "queue_contents (incoming_messages c) \<noteq> []"
    and "bm = broadcast_message cmd as i"
  shows "\<exists>order e net''. iterates order (peers c) \<and> flood_round order j net' = Some (Inr (e, net''))"
proof -
  obtain d where d: "net j = Some d" "c = d\<lparr>incoming_messages := incoming_messages c\<rparr>"
    "queue_contents (incoming_messages c) = map (\<lambda>vs. Some (bm vs)) (W j)"
    using flooded_node [OF f c(1)] by blast
  obtain vs ws where ws: "W j = vs # ws" using c(2) d(3) by (cases "W j") auto
  have "finite (peers d)" using assms(1) d(1) by (simp add: quiet_def)
  then have "finite (peers c)" using arg_cong [OF d(2), of peers] by simp
  from finite_distinct_list [OF this] obtain order where "iterates order (peers c)" by (auto simp: iterates_def)
  with flood_round_ok [OF assms(1-5) this ws assms(7)] show ?thesis by blast
qed

section \<open>When nothing is under way any more\<close>

lemma in_executions: "p \<in> set (executions es) \<longleftrightarrow> (\<exists>j m. Executes j m \<in> set es \<and> visited_recipients m = p)"
proof -
  have "p \<in> set (executed e) \<longleftrightarrow> (\<exists>j m. e = Executes j m \<and> visited_recipients m = p)" for e
    by (cases e) auto
  then show ?thesis by (auto simp: executions_def)
qed

lemma flooded_quiescent:
  assumes "flooded bm net W net'" and "flood_ok bm net i es W"
    and "\<forall>j c. net' j = Some c \<longrightarrow> queue_contents (incoming_messages c) = []"
  shows "under_way W = {}"
proof -
  have "vs @ [j] \<notin> under_way W" for vs j
  proof
    assume u: "vs @ [j] \<in> under_way W"
    then have "vs @ [j] \<in> deliveries net i" using flood_ok_deliveries [OF assms(2)] by blast
    then have "j \<in> peers_of net (last vs)" using deliveries_butlast [of vs j net i] by simp
    then have "j \<in> dom net" by (rule peers_of_dom)
    moreover have "dom net' = dom net" using assms(1) by (simp add: flooded_def)
    ultimately obtain c where c: "net' j = Some c" by blast
    with flooded_node [OF assms(1) c] assms(3) have "W j = []" by auto
    with u show False by (simp add: in_under_way)
  qed
  then show ?thesis by (metis all_not_in_conv in_under_way(2) rev_exhaust)
qed

lemma quiescent_executions:
  assumes ok: "flood_ok bm net i es W" and empty: "under_way W = {}"
  shows "distinct (executions es) \<and> set (executions es) = {p. route net i p \<and> p \<noteq> [i]}"
proof (intro conjI set_eqI iffI CollectI; (elim CollectE conjE)?)
  note e = flood_okD(2) [OF ok]
  have u: "handled ` set es = (\<Union>q\<in>insert [i] (set (executions es)). hops net q)"
    using flood_okD(3) [OF ok] empty by simp
  have "distinct (map handled es)" using ok by (simp add: flood_ok_def)
  with e show "distinct (executions es)" by simp
  have routes: "route net i p" if "p \<in> set (executions es)" for p using that e by simp
  show "route net i p" if "p \<in> set (executions es)" for p by (rule routes [OF that])
  show "p \<noteq> [i]" if "p \<in> set (executions es)" for p
  proof
    assume "p = [i]"
    with that e have "[i] \<in> handled ` set es" by auto
    then obtain q where q: "q \<in> insert [i] (set (executions es))" "[i] \<in> hops net q" using u by blast
    then have "route net i q" using routes route.route_start by blast
    with route_nonempty q(2) show False by (auto simp: hops_def)
  qed
  have "p = [i] \<or> p \<in> set (executions es)" if "route net i p" for p
    using that
  proof (induction rule: route.induct)
    case (route_more p t)
    then have "p @ [t] \<in> hops net p" by (auto simp: hops_def dest: in_set_butlastD)
    with route_more.IH have "p @ [t] \<in> handled ` set es" unfolding u by blast
    moreover have "route net i (p @ [t])" using route_more.hyps by (rule route.route_more)
    ultimately show ?case using e by simp
  qed simp
  then show "p \<in> set (executions es)" if "route net i p" "p \<noteq> [i]" for p using that by blast
qed

lemma flood_ok_event:
  assumes "flood_ok bm net i es W" and "Executes j m \<in> set es"
  shows "m = bm (visited_recipients m) \<and> j = last (visited_recipients m)"
proof -
  have "\<forall>e\<in>set es. event_ok bm e"
    using assms(1) [unfolded flood_ok_def, THEN conjunct2, THEN conjunct2, THEN conjunct2, THEN conjunct2, THEN conjunct2] .
  then have "event_ok bm (Executes j m)" using assms(2) by (rule bspec)
  then show ?thesis unfolding event_ok.simps by (intro conjI) (erule conjunct1, erule conjunct2 [THEN sym])
qed

lemma flood_ok_length:
  assumes "flood_ok bm net i es W" and "finite (dom net)"
  shows "length es \<le> card (deliveries net i)"
proof -
  have "distinct (map handled es)"
    using assms(1) [unfolded flood_ok_def, THEN conjunct2, THEN conjunct1] .
  then have "length es = card (set (map handled es))" using distinct_card by fastforce
  also have "\<dots> \<le> card (deliveries net i)"
    using flood_ok_deliveries [OF assms(1)] by (intro card_mono [OF finite_deliveries [OF assms(2)]]) simp
  finally show ?thesis .
qed

lemma reachable_executes:
  assumes "flood_ok bm net i es W" and "set (executions es) = {p. route net i p \<and> p \<noteq> [i]}"
    and "(i, j) \<in> {(x, y). y \<in> peers_of net x}\<^sup>*" and "j \<noteq> i"
  shows "\<exists>m. Executes j m \<in> set es"
proof -
  obtain p where p: "route net i p" "last p = j" using reachable_route [OF assms(3)] by (elim exE conjE)
  have "p \<noteq> [i]" using p(2) assms(4) by auto
  with p(1) have "p \<in> set (executions es)" unfolding assms(2) by (intro CollectI conjI)
  then obtain k m where k: "Executes k m \<in> set es" "visited_recipients m = p"
    unfolding in_executions by (elim exE conjE)
  have "k = j" using flood_ok_event [OF assms(1) k(1), THEN conjunct2] unfolding k(2) p(2) .
  with k(1) show ?thesis by (intro exI) (erule subst)
qed

text \<open>A broadcast can be run to its end.\<close>

lemma flood_completes:
  assumes q: "quiet net" and W: "flooded bm net W net1" "flood_ok bm net i [] W"
    and small: "card (deliveries net i) < 2 ^ 31" and bm: "bm = broadcast_message cmd as i"
  shows "\<exists>es net2. flood_run net1 es net2 \<and> (\<forall>j c. net2 j = Some c \<longrightarrow> queue_contents (incoming_messages c) = [])"
proof (rule ccontr)
  assume *: "\<nexists>es net2. flood_run net1 es net2 \<and> (\<forall>j c. net2 j = Some c \<longrightarrow> queue_contents (incoming_messages c) = [])"
  have longer: "\<exists>es' net'. flood_run net1 es' net' \<and> length es' = Suc (length es)" if run: "flood_run net1 es net2" for es net2
  proof -
    obtain j c where c: "net2 j = Some c" "queue_contents (incoming_messages c) \<noteq> []" using * run by blast
    obtain W' where W': "flooded bm net W' net2" "flood_ok bm net i es W'"
      using flood_run_ok [OF run q W small bm] by blast
    from round_possible [OF q W' small c bm] flood_more [OF run c(1)] show ?thesis
      by (metis length_append_singleton)
  qed
  have "\<exists>es net2. flood_run net1 es net2 \<and> length es = n" for n
  proof (induction n)
    case 0
    show ?case using flood_start [of net1] by fastforce
  next
    case (Suc n)
    with longer show ?case by blast
  qed
  then obtain es net2 where es: "flood_run net1 es net2" "length es = Suc (card (deliveries net i))" by blast
  obtain W' where W': "flood_ok bm net i es W'" using flood_run_ok [OF es(1) q W small bm] by blast
  have "finite (dom net)" using q by (simp add: quiet_def)
  from flood_ok_length [OF W' this] es(2) show False by simp
qed

lemma card_deliveries:
  assumes "insert i (dom net) \<subseteq> A" and "finite A"
  shows "card (deliveries net i) \<le> (\<Sum>k\<le>Suc (card A). card A ^ k)"
proof -
  have "deliveries net i \<subseteq> {p. set p \<subseteq> A \<and> length p \<le> Suc (card A)}"
  proof
    fix x assume x: "x \<in> deliveries net i"
    then obtain p t where t: "x = p @ [t]" "route net i p" "t \<in> peers_of net (last p)"
      by (auto simp: deliveries_def hops_def)
    have "distinct p" "set p \<subseteq> A" "t \<in> A"
      using route_distinct [OF t(2)] peers_of_dom [OF t(3)] assms(1) by auto
    then have "length p \<le> card A" using card_mono [OF assms(2), of "set p"] distinct_card [of p] by simp
    with \<open>set p \<subseteq> A\<close> \<open>t \<in> A\<close> t(1) show "x \<in> {p. set p \<subseteq> A \<and> length p \<le> Suc (card A)}" by simp
  qed
  from card_mono [OF finite_lists_length_le [OF assms(2)] this] card_lists_length_le [OF assms(2)]
  show ?thesis by simp
qed

section \<open>Property\<close>


text \<open>
  Three nodes, of which \<open>a\<close> knows the other two and \<open>b\<close> knows \<open>c\<close>: a broadcast of \<open>a\<close> is executed twice
  by \<open>c\<close>.
\<close>

definition listens :: "string \<Rightarrow> string set \<Rightarrow> message_broker" where
  "listens i S = (new_SynchronousGRPC i)\<lparr>peers := S, grpc_stub := S\<rparr>"

definition triangle :: brokers where
  "triangle = [''a'' \<mapsto> listens ''a'' {''b'', ''c''}, ''b'' \<mapsto> listens ''b'' {''c''}, ''c'' \<mapsto> listens ''c'' {}]"

lemma triangle_quiet: "quiet triangle"
  by (auto simp: quiet_def triangle_def listens_def stubs_ok_def new_SynchronousGRPC_def split: if_splits)

lemma triangle_routes:
  "route triangle ''a'' [''a'', ''c'']" "route triangle ''a'' [''a'', ''b'', ''c'']"
proof -
  have "''b'' \<in> peers_of triangle ''a''" "''c'' \<in> peers_of triangle ''a''" "''c'' \<in> peers_of triangle ''b''"
    by (auto simp: peers_of_def triangle_def listens_def)
  with route_start [of triangle "''a''"] route_more [of triangle "''a''" "[''a'']"]
    route_more [of triangle "''a''" "[''a'', ''b'']" "''c''"]
  show "route triangle ''a'' [''a'', ''c'']" "route triangle ''a'' [''a'', ''b'', ''c'']" by simp_all
qed


end
