(* ===== verification/Commons_Utils.thy ===== *)
theory Commons_Utils
  imports Doubles
begin

text \<open>
  \<open>commons/Utils\<close>: the exception of \<open>Utils::error\<close>, the biased coin, and the stopwatch. The random
  numbers and the readings of the steady clock come from the standard library: they are arguments.
\<close>

section \<open>Utils\<close>

definition utils_error :: "string \<Rightarrow> 'a result" where
  "utils_error msg = Inl (Runtime_Error msg)"

text \<open>
  \<open>lround\<close>: the nearest integer, halves away from zero. Its value for an argument that is not finite
  is unspecified.
\<close>

fun lround :: "double \<Rightarrow> int option" where
  "lround (Fin x) = Some (if x < 0 then - \<lfloor>1 / 2 - x\<rfloor> else \<lfloor>x + 1 / 2\<rfloor>)"
| "lround d = None"

text \<open>\<open>r\<close> is the value of \<open>rand()\<close>, which is not negative.\<close>

definition flip_coin :: "(rat \<Rightarrow> rat) \<Rightarrow> nat \<Rightarrow> double \<Rightarrow> bool option" where
  "flip_coin fl r true_probability =
     map_option (\<lambda>bound. int (r mod 1000) < bound) (lround (dmul fl true_probability (Fin 1000)))"

section \<open>StopWatch\<close>

text \<open>Times are in nanoseconds, the period of the steady clock.\<close>

record stop_watch =
  running :: bool
  start_time :: nat
  accumulator :: nat

definition watch_reset :: "stop_watch \<Rightarrow> stop_watch" where
  "watch_reset w = w\<lparr>running := False, accumulator := 0\<rparr>"

text \<open>The start time of a new stopwatch is not initialised: \<open>t\<close> is whatever is there.\<close>

definition new_StopWatch :: "nat \<Rightarrow> stop_watch" where
  "new_StopWatch t = watch_reset \<lparr>running = False, start_time = t, accumulator = 0\<rparr>"

definition watch_stop :: "nat \<Rightarrow> stop_watch \<Rightarrow> stop_watch" where
  "watch_stop check w =
     (if running w
      then w\<lparr>accumulator := accumulator w + (check - start_time w), start_time := check, running := False\<rparr>
      else w)"

text \<open>\<open>start\<close> reads the clock in its call of \<open>stop\<close> and once more for the start time.\<close>

definition watch_start :: "nat \<Rightarrow> nat \<Rightarrow> stop_watch \<Rightarrow> stop_watch" where
  "watch_start check now w =
     (let w = if running w then watch_stop check w else w
      in w\<lparr>start_time := now, running := True\<rparr>)"

definition watch_milliseconds :: "stop_watch \<Rightarrow> nat" where
  "watch_milliseconds w = accumulator w div 1000000"

definition str_time :: "stop_watch \<Rightarrow> string" where
  "str_time w =
     (let millis = watch_milliseconds w;
          seconds = millis div 1000;
          millis = millis mod 60;
          minutes = seconds div 60;
          seconds = seconds mod 60;
          hours = minutes div 60;
          minutes = minutes mod 60
      in if hours > 0 then dec hours @ '' hours '' @ dec minutes @ '' mins''
         else if minutes > 0 then dec minutes @ '' mins '' @ dec seconds @ '' secs''
         else if seconds > 0 then dec seconds @ '' secs '' @ dec millis @ '' millis''
         else dec millis @ '' millis'')"

section \<open>The stopwatch measures\<close>

text \<open>
  A script of the calls, each with the time of its clock readings, and the time it should measure:
  the sum of the intervals from a start to the next start or stop.
\<close>

datatype watch_call = Start_At nat | Stop_At nat | Reset_Watch

fun run_watch :: "watch_call list \<Rightarrow> stop_watch \<Rightarrow> stop_watch" where
  "run_watch [] w = w"
| "run_watch (Start_At t # cs) w = run_watch cs (watch_start t t w)"
| "run_watch (Stop_At t # cs) w = run_watch cs (watch_stop t w)"
| "run_watch (Reset_Watch # cs) w = run_watch cs (watch_reset w)"

fun measured :: "watch_call list \<Rightarrow> nat option \<Rightarrow> nat \<Rightarrow> nat" where
  "measured [] since acc = acc"
| "measured (Start_At t # cs) None acc = measured cs (Some t) acc"
| "measured (Start_At t # cs) (Some t0) acc = measured cs (Some t) (acc + (t - t0))"
| "measured (Stop_At t # cs) None acc = measured cs None acc"
| "measured (Stop_At t # cs) (Some t0) acc = measured cs None (acc + (t - t0))"
| "measured (Reset_Watch # cs) since acc = measured cs None 0"

lemma run_watch_measures:
  "accumulator (run_watch cs w) = measured cs (if running w then Some (start_time w) else None) (accumulator w)"
  by (induction cs w rule: run_watch.induct)
    (simp_all add: watch_start_def watch_stop_def watch_reset_def Let_def)


text \<open>
  The text of the stopwatch is wrong below an hour: the milliseconds are printed modulo 60
  instead of modulo 1000. For an accumulated time of less than a second the text shows the remainder
  of the time by 60, so that it shows the time itself only if that is less than 60 milliseconds.
\<close>

theorem str_time_millis_modulo_60:
  assumes "watch_milliseconds w < 1000"
  shows "str_time w = dec (watch_milliseconds w mod 60) @ '' millis''"
  using assms by (simp add: str_time_def Let_def)

theorem str_time_millis_modulo_60_witness:
  "str_time (run_watch [Start_At 0, Stop_At 250000000] (new_StopWatch 0)) = ''10 millis''"
proof -
  let ?w = "run_watch [Start_At 0, Stop_At 250000000] (new_StopWatch 0)"
  have m: "watch_milliseconds ?w = 250"
    by (simp add: watch_milliseconds_def run_watch_measures new_StopWatch_def watch_reset_def
        watch_start_def watch_stop_def)
  have "dec 10 = ''10''" by code_simp
  with str_time_millis_modulo_60 [of ?w] m show ?thesis by simp
qed

lemma filter_upt_window:
  assumes "\<And>i. i < m \<Longrightarrow> P (i + a) \<longleftrightarrow> i < k" and "k \<le> m"
  shows "length (filter P [a..<a + m]) = k"
proof -
  have "filter P [a..<a + m] = filter P (map (\<lambda>i. i + a) [0..<m])" by (simp add: map_add_upt add.commute)
  also have "\<dots> = map (\<lambda>i. i + a) (filter (\<lambda>i. i < k) [0..<m])"
  proof -
    have "filter (\<lambda>i. P (i + a)) [0..<m] = filter (\<lambda>i. i < k) [0..<m]"
      by (rule filter_cong) (simp_all add: assms(1))
    then show ?thesis by (simp add: filter_map o_def)
  qed
  also have "filter (\<lambda>i. i < k) [0..<m] = [0..<k]"
    using upt_add_eq_append [of 0 k "m - k"] assms(2) by (simp add: filter_empty_conv)
  finally show ?thesis by simp
qed

text \<open>
  The coin is fair to its probability: of 1000 consecutive values of \<open>rand()\<close>, as many are heads as
  the probability times 1000 rounds to, when that is between 0 and 1000.
\<close>

theorem flip_coin_probability:
  assumes "lround (dmul fl p (Fin 1000)) = Some k" and "0 \<le> k" and "k \<le> 1000"
  shows "length (filter (\<lambda>r. flip_coin fl r p = Some True) [1000 * n..<1000 * n + 1000]) = nat k"
proof (rule filter_upt_window)
  show "flip_coin fl (i + 1000 * n) p = Some True \<longleftrightarrow> i < nat k" if "i < 1000" for i
    using that assms(1,2) by (auto simp: flip_coin_def)
  show "nat k \<le> 1000" using assms(3) by simp
qed

theorem flip_coin_probability_witness:
  "length (filter (\<lambda>r. flip_coin exact r (Fin (1 / 2)) = Some True) [3000..<4000]) = 500"
proof -
  have "1000 * 3 = (3000::nat)" "3000 + 1000 = (4000::nat)" "nat 500 = 500" by simp_all
  moreover have "lround (dmul exact (Fin (1 / 2)) (Fin 1000)) = Some 500" by code_simp
  ultimately show ?thesis using flip_coin_probability [of exact "Fin (1 / 2)" 500 3]
    by (simp del: upt_rec_numeral dmul.simps)
qed

end
