(* ===== verification/Handle_Trie_Objects.thy ===== *)
theory Handle_Trie_Objects
  imports Handle_Trie_Keys
begin

text \<open>
  The rest of \<open>HandleTrie\<close>: the printing of a node, and the destructors, as the list of the values
  that they delete.
\<close>

section \<open>Printing\<close>

text \<open>
  \<open>TrieNode::to_string\<close>; \<open>show_value\<close> is the virtual \<open>to_string\<close> of the values, whose default is the
  empty string. \<open>substr\<close> throws if the position is beyond the end.
\<close>

definition default_to_string :: "'v \<Rightarrow> string" where
  "default_to_string v = ''''"

definition node_to_string :: "('v \<Rightarrow> string) \<Rightarrow> 'v trie_node \<Rightarrow> string result" where
  "node_to_string show_value t =
     (let ss = unat (node_suffix_start t); suffix = node_suffix t
      in and_then
           (if ss = 0 then Inr [CHR 0x27, CHR 0x27]
            else if ss \<le> length suffix then Inr (take ss suffix @ ''.'' @ drop ss suffix)
            else Inl Out_Of_Bounds)
           (\<lambda>answer. Inr (answer @ '' [''
              @ concat (map (\<lambda>c. case c of None \<Rightarrow> '''' | Some s \<Rightarrow> ''*'') (node_children t)) @ ''] ''
              @ (case node_value t of None \<Rightarrow> '''' | Some v \<Rightarrow> show_value v))))"

text \<open>A node of a well-formed trie can be printed.\<close>

lemma node_to_string_total:
  assumes "trie_ok n A d t" shows "\<exists>s. node_to_string show_value t = Inr s"
  using assms by (cases t) (auto simp: node_to_string_def Let_def word_gt_0 split: if_splits)

section \<open>Destruction\<close>

text \<open>The destructor of a node deletes its children, in their order, and then its value.\<close>

primrec destroyed :: "'v trie_node \<Rightarrow> 'v list" where
  "destroyed (TrieNode cs v sfx ss) =
     concat (map (case_option [] id) (map (map_option destroyed) cs))
     @ (case v of None \<Rightarrow> [] | Some x \<Rightarrow> [x])"

definition delete_HandleTrie :: "'v handle_trie \<Rightarrow> 'v list" where
  "delete_HandleTrie m = destroyed (root m)"

lemma destroyed_entries: "trie_ok n A d t \<Longrightarrow> destroyed t = map snd (entries t)"
proof (induction n A d t rule: trie_ok.induct)
  case (1 n A d cs v sfx ss)
  show ?case
  proof (cases "ss > 0")
    case True
    with "1.prems" obtain x where "v = Some x" "cs = replicate 16 None" by auto
    moreover have "concat (map (case_option [] id) (replicate k None)) = ([] :: 'a list)" for k
      by (induction k) simp_all
    ultimately show ?thesis using True by simp
  next
    case False
    then have ss: "ss = 0" by (simp add: word_gt_0)
    have "case_option [] id (map_option destroyed c) = map snd (child_entries c)" if c: "c \<in> set cs" for c
    proof (cases c)
      case (Some s)
      with c obtain i where i: "nth_child cs i = Some s" by (auto simp: Some_in_set_nth_child)
      then have "i < 16" using "1.prems" by (auto simp: nth_child_def split: if_splits)
      with "1.IH" [OF False, of i s] i trie_ok_child [of n A d cs v sfx i s] "1.prems" ss Some
      show ?thesis by (simp add: child_entries_def)
    qed (simp add: child_entries_def)
    then have "map (case_option [] id \<circ> map_option destroyed) cs = map (map snd \<circ> child_entries) cs"
      by (intro map_cong [OF refl]) (simp only: comp_apply)
    moreover have "v = None" using "1.prems" False by simp
    ultimately show ?thesis by (simp only: ss entries_inner destroyed.simps map_concat map_map option.case append_Nil2)
  qed
qed

text \<open>The destructor of a trie deletes the value of each stored key, and nothing else.\<close>

lemma delete_HandleTrie_values:
  "handle_trie_ok n A m \<Longrightarrow> delete_HandleTrie m = map snd (trie_entries m)"
  using destroyed_entries by (auto simp: delete_HandleTrie_def trie_entries_def handle_trie_ok_def)

end
