(* ===== verification/Hebbian_Printing.thy ===== *)
theory Hebbian_Printing
  imports Hebbian_Network Handle_Trie_Objects
begin

text \<open>
  The printing of the nodes of \<open>HebbianNetwork\<close>. A \<open>double\<close> is printed as by \<open>%f\<close>, with six digits
  after the point: the exact value, rounded to the nearest such number, and to the even one of two.
  The text of a NaN is a parameter, since its sign is not part of the model.
\<close>

section \<open>Printing\<close>

definition round_half_even :: "rat \<Rightarrow> int" where
  "round_half_even x =
     (let f = \<lfloor>x\<rfloor>; r = x - of_int f
      in if r < 1 / 2 \<or> r = 1 / 2 \<and> even f then f else f + 1)"

definition zero_padded :: "nat \<Rightarrow> nat \<Rightarrow> string" where
  "zero_padded k n = replicate (k - length (dec n)) (digit_char 0) @ dec n"

text \<open>\<open>std::to_string\<close> of a \<open>double\<close>\<close>

fun double_to_string :: "string \<Rightarrow> double \<Rightarrow> string" where
  "double_to_string nan (Fin x) =
     (let n = nat (round_half_even (\<bar>x\<bar> * 10 ^ 6))
      in (if x < 0 then ''-'' else '''') @ dec (n div 10 ^ 6) @ ''.'' @ zero_padded 6 (n mod 10 ^ 6))"
| "double_to_string nan (Inf s) = (if s then ''-inf'' else ''inf'')"
| "double_to_string nan NaN = nan"

text \<open>\<open>Node::to_string\<close> and \<open>Edge::to_string\<close>\<close>

definition hebbian_node_to_string :: "string \<Rightarrow> node \<Rightarrow> string" where
  "hebbian_node_to_string nan n =
     ''('' @ dec (unat (count n)) @ '', '' @ double_to_string nan (importance n) @ '', ''
     @ dec (unat (arity n)) @ '')''"

definition edge_to_string :: "edge \<Rightarrow> string" where
  "edge_to_string e = ''('' @ dec (unat (edge_count e)) @ '')''"

section \<open>Reading back\<close>

definition read_fixed :: "string \<Rightarrow> rat" where
  "read_fixed s =
     (let (sign, t) = (case s of [] \<Rightarrow> (1, s) | c # cs \<Rightarrow> if c = CHR ''-'' then (- 1, cs) else (1, s));
          a = takeWhile is_digit t;
          b = drop (Suc (length a)) t
      in sign * (of_int (decimal a) + of_int (decimal b) / 10 ^ length b))"

lemma round_half_even_near: "\<bar>of_int (round_half_even x) - x\<bar> \<le> 1 / 2"
proof -
  have "of_int \<lfloor>x\<rfloor> \<le> x" "x < of_int \<lfloor>x\<rfloor> + 1" by linarith+
  then show ?thesis by (auto simp: round_half_even_def Let_def abs_le_iff)
qed

lemma round_half_even_nonneg: "0 \<le> x \<Longrightarrow> 0 \<le> round_half_even x"
  by (simp add: round_half_even_def Let_def)

lemma dec_length: "n < 10 ^ Suc k \<Longrightarrow> length (dec n) \<le> Suc k"
proof (induction k arbitrary: n)
  case 0
  then show ?case by (subst dec.simps) simp
next
  case (Suc k)
  then have "n div 10 < 10 ^ Suc k" by (simp add: less_mult_imp_div_less mult.commute)
  with Suc.IH show ?case by (subst dec.simps) simp
qed

lemma decimal_zeros: "decimal (replicate k (digit_char 0) @ ds) = decimal ds"
proof (induction ds rule: rev_induct)
  case Nil
  show ?case
  proof (induction k)
    case (Suc k)
    have "replicate (Suc k) (digit_char 0) = replicate k (digit_char 0) @ [digit_char 0]"
      by (simp add: replicate_append_same)
    with Suc digit_char [of 0] show ?case by (simp add: decimal_snoc decimal_def del: replicate_Suc)
  qed simp
next
  case (snoc c ds)
  then show ?case unfolding append_assoc [symmetric] decimal_snoc by simp
qed

lemma zero_padded_reads: "n < 10 ^ Suc k \<Longrightarrow> decimal (zero_padded (Suc k) n) = int n \<and> length (zero_padded (Suc k) n) = Suc k"
  using dec_length [of n k] dec_digits [of n] by (simp add: zero_padded_def decimal_zeros)

lemma read_fixed_digits:
  assumes "\<forall>c\<in>set a. is_digit c" and "a \<noteq> []"
  shows "read_fixed (a @ CHR ''.'' # b) = of_int (decimal a) + of_int (decimal b) / 10 ^ length b"
    and "read_fixed (CHR ''-'' # a @ CHR ''.'' # b) = - (of_int (decimal a) + of_int (decimal b) / 10 ^ length b)"
proof -
  obtain c cs where c: "a = c # cs" using assms(2) by (cases a) auto
  then have "c \<noteq> CHR ''-''" using assms(1) by (auto simp: is_digit_def)
  moreover have "takeWhile is_digit (a @ CHR ''.'' # b) = a"
    using assms(1) by (subst takeWhile_append2) (auto simp: is_digit_def)
  ultimately show "read_fixed (a @ CHR ''.'' # b) = of_int (decimal a) + of_int (decimal b) / 10 ^ length b"
    "read_fixed (CHR ''-'' # a @ CHR ''.'' # b) = - (of_int (decimal a) + of_int (decimal b) / 10 ^ length b)"
    using c by (auto simp: read_fixed_def Let_def)
qed

text \<open>What is read back differs from a finite value by half a unit of the sixth digit at most.\<close>

lemma printed_value:
  assumes "n = nat (round_half_even (\<bar>x\<bar> * 10 ^ 6))"
  shows "read_fixed (double_to_string nan (Fin x)) = (if x < 0 then - 1 else 1) * (of_nat n / 10 ^ 6)"
proof -
  let ?a = "dec (n div 10 ^ 6)" and ?b = "zero_padded 6 (n mod 10 ^ 6)"
  have "n mod 10 ^ 6 < 10 ^ Suc 5" by simp
  from zero_padded_reads [OF this] have b: "decimal ?b = int (n mod 10 ^ 6)" "length ?b = 6" by simp_all
  have a: "\<forall>c\<in>set ?a. is_digit c" "?a \<noteq> []" "decimal ?a = int (n div 10 ^ 6)" using dec_digits by blast+
  have "(of_nat n :: rat) = of_nat (n div 10 ^ 6 * 10 ^ 6 + n mod 10 ^ 6)" by (simp only: div_mult_mod_eq)
  then have "(of_nat n :: rat) = of_nat (n div 10 ^ 6) * 10 ^ 6 + of_nat (n mod 10 ^ 6)"
    unfolding of_nat_add of_nat_mult by simp
  from arg_cong [OF this, of "\<lambda>z. z / 10 ^ 6"]
  have "of_nat n / 10 ^ 6 = (of_nat (n div 10 ^ 6) + of_nat (n mod 10 ^ 6) / 10 ^ 6 :: rat)"
    unfolding add_divide_distrib by simp
  then have r: "of_int (decimal ?a) + of_int (decimal ?b) / 10 ^ length ?b = (of_nat n / 10 ^ 6 :: rat)"
    unfolding a(3) b of_int_of_nat_eq by (rule sym)
  have "double_to_string nan (Fin x) = (if x < 0 then CHR ''-'' # ?a @ CHR ''.'' # ?b else ?a @ CHR ''.'' # ?b)"
    unfolding double_to_string.simps Let_def assms [symmetric] by simp
  then show ?thesis using read_fixed_digits [OF a(1,2), of ?b] unfolding r by (cases "x < 0") simp_all
qed

lemma double_reads_back: "\<bar>read_fixed (double_to_string nan (Fin x)) - x\<bar> \<le> 1 / 2 / 10 ^ 6"
proof -
  let ?y = "\<bar>x\<bar> * 10 ^ 6"
  define n where "n = nat (round_half_even ?y)"
  have n: "of_nat n = (of_int (round_half_even ?y) :: rat)"
    using round_half_even_nonneg [of ?y] by (simp add: n_def)
  have "\<bar>of_nat n - ?y\<bar> \<le> 1 / 2" unfolding n by (rule round_half_even_near)
  then have "\<bar>of_nat n - ?y\<bar> / 10 ^ 6 \<le> 1 / 2 / 10 ^ 6" by (rule divide_right_mono) simp
  moreover have "\<bar>of_nat n - ?y\<bar> / 10 ^ 6 = \<bar>of_nat n / 10 ^ 6 - \<bar>x\<bar>\<bar>"
    using abs_divide [of "of_nat n - ?y" "10 ^ 6", symmetric] by (simp add: diff_divide_distrib)
  moreover have "\<bar>(if x < 0 then - 1 else 1) * z - x\<bar> = \<bar>z - \<bar>x\<bar>\<bar>" for z :: rat
    by (auto simp: abs_if)
  ultimately show ?thesis unfolding printed_value [OF n_def] by (simp only:)
qed

end
