(* ===== verification/Trie_Locks.thy ===== *)
theory Trie_Locks
  imports Handle_Trie_Keys
begin

text \<open>
  \<open>HandleTrie\<close> with its locks: several threads insert into one trie, look keys up and traverse it. Each
  node has a mutex. \<open>insert\<close> holds the mutexes of the node it is at and of its parent; before it waits
  for the one of the child it gives the one of the parent back. \<open>lookup\<close> gives the mutex of a node back
  before it waits for the one of the child, and \<open>traverse\<close> holds one node at a time, and the root if it
  is told to. A step is what a thread does from the moment at which it gets a mutex until it waits for
  the next one: in between it touches only nodes whose mutex it holds.
\<close>

section \<open>One iteration of \<open>insert\<close>\<close>

text \<open>
  The node that takes the place of \<open>tree_cursor\<close> (\<open>t\<close>) in the slot of its parent, and the value that
  \<open>insert\<close> returns, if it returns. Else the loop goes on at the child of the code of the key.
\<close>

definition insert_iteration :: "('v \<Rightarrow> 'v \<Rightarrow> 'v) \<Rightarrow> string \<Rightarrow> 'v \<Rightarrow> u8 \<Rightarrow> 'v trie_node
    \<Rightarrow> ('v trie_node \<times> 'v option) result" where
  "insert_iteration merge key value key_cursor t =
     and_then (str_at key (unat key_cursor)) (\<lambda>kc.
       case nth_child (node_children t) (TLB kc) of
         None \<Rightarrow>
           if node_suffix_start t > 0
           then and_then (str_at (node_suffix t) (unat key_cursor)) (\<lambda>sc.
             if kc = sc
             then Inr (set_child (TLB kc) (bump_suffix_start t) new_TrieNode, None)
             else and_then (split_leaf key key_cursor kc value t) (\<lambda>split. Inr (split, Some value)))
           else Inr (set_child (TLB kc) (new_leaf key (key_cursor + 1) value) t, Some value)
       | Some child \<Rightarrow>
           and_then (if node_suffix_start child > 0
                     then suffix_match key (node_suffix child) (unat key_cursor) else Inr False)
             (\<lambda>matches.
                if matches
                then case node_value child of
                       None \<Rightarrow> Inl Null_Dereference
                     | Some old \<Rightarrow>
                         Inr (set_child (TLB kc) (set_value (merge old value) child) t, Some (merge old value))
                else Inr (t, None)))"

section \<open>Positions in the tree\<close>

text \<open>
  The node at the end of a path of codes, and its replacement in the slot of its parent. An inner
  node stays at its path; a leaf can move down, and its key names it wherever it is.
\<close>

fun node_at :: "nat list \<Rightarrow> 'v trie_node \<Rightarrow> 'v trie_node option" where
  "node_at [] t = Some t"
| "node_at (i # p) t = (case nth_child (node_children t) i of None \<Rightarrow> None | Some s \<Rightarrow> node_at p s)"

fun replace_at :: "nat list \<Rightarrow> 'v trie_node \<Rightarrow> 'v trie_node \<Rightarrow> 'v trie_node" where
  "replace_at [] s t = s"
| "replace_at (i # p) s t =
     (case nth_child (node_children t) i of None \<Rightarrow> t | Some c \<Rightarrow> set_child i (replace_at p s c) t)"

definition path :: "string \<Rightarrow> u8 \<Rightarrow> nat list" where
  "path key d = codes (take (unat d) key)"

datatype pointer = Inner "nat list" | Leaf string

section \<open>Threads\<close>

text \<open>
  A thread has called an operation, or is in its loop: in \<open>insert\<close> with the key cursor (the tree cursor
  is the node at the path of the key), before it reads the child or as it waits for the child, in \<open>lookup\<close> with the key cursor and the node that it locks next,
  in \<open>traverse\<close> with the stack of nodes and the keys of the leaves it has visited. Or it is back, with
  its result.
\<close>

datatype 'v client =
    Insert string 'v
  | Inserting string 'v u8
  | Waiting string 'v u8
  | Inserted 'v
  | Lookup string
  | Looking string u8 pointer
  | Found "'v option"
  | Traverse bool
  | Traversing bool "pointer list" "string list"
  | Traversed "string list"
  | Failed error

record 'v locked_trie =
  trie :: "'v handle_trie"
  clients :: "'v client list"

text \<open>The paths of the nodes whose mutexes a thread holds between its steps.\<close>

fun held :: "'v client \<Rightarrow> nat list list" where
  "held (Inserting key v d) = (if d = 0 then [[]] else [path key d, path key (d - 1)])"
| "held (Waiting key v d) = [path key d]"
| "held (Traversing keep_root_locked ps ks) = (if keep_root_locked then [[]] else [])"
| "held c = []"

definition free :: "nat \<Rightarrow> nat list \<Rightarrow> 'v locked_trie \<Rightarrow> bool" where
  "free i p s \<longleftrightarrow> (\<forall>j\<in>set [0..<length (clients s)]. j \<noteq> i \<longrightarrow> p \<notin> set (held (clients s ! j)))"

definition leaf_at :: "string \<Rightarrow> 'v trie_node \<Rightarrow> nat list \<Rightarrow> bool" where
  "leaf_at k t p \<longleftrightarrow> (case node_at p t of None \<Rightarrow> False
     | Some u \<Rightarrow> node_suffix_start u > 0 \<and> node_suffix u = k)"

fun pointer_free :: "nat \<Rightarrow> pointer \<Rightarrow> 'v locked_trie \<Rightarrow> bool" where
  "pointer_free i (Inner p) s = free i p s"
| "pointer_free i (Leaf k) s =
     (\<forall>j\<in>set [0..<length (clients s)]. j \<noteq> i \<longrightarrow>
       (\<forall>p\<in>set (held (clients s ! j)). \<not> leaf_at k (root (trie s)) p))"

definition pointer_to :: "nat list \<Rightarrow> 'v trie_node \<Rightarrow> pointer" where
  "pointer_to p t = (if node_suffix_start t > 0 then Leaf (node_suffix t) else Inner p)"

section \<open>Steps\<close>

text \<open>The insertions and lookups are told from the other steps by their results.\<close>

datatype 'v trie_event = Move nat | Store nat string 'v 'v | Answer nat string "'v option"

definition put :: "nat \<Rightarrow> 'v client \<Rightarrow> 'v locked_trie \<Rightarrow> 'v locked_trie" where
  "put i c s = s\<lparr>clients := (clients s)[i := c]\<rparr>"

text \<open>
  \<open>insert\<close>: the root is locked before the loop. An iteration that finds a child gives the mutex of the
  parent back and waits for the child; one that finds none has all mutexes it needs.
\<close>

definition iterate :: "('v \<Rightarrow> 'v \<Rightarrow> 'v) \<Rightarrow> nat \<Rightarrow> string \<Rightarrow> 'v \<Rightarrow> u8 \<Rightarrow> 'v trie_node \<Rightarrow> 'v locked_trie
    \<Rightarrow> 'v trie_event \<times> 'v locked_trie" where
  "iterate merge i key v d t s =
     (case insert_iteration merge key v d t of
        Inl e \<Rightarrow> (Move i, put i (Failed e) s)
      | Inr (t', r) \<Rightarrow>
          let s' = s\<lparr>trie := (trie s)\<lparr>root := replace_at (path key d) t' (root (trie s))\<rparr>\<rparr>
          in (case r of
                None \<Rightarrow> (Move i, put i (Inserting key v (d + 1)) s')
              | Some w \<Rightarrow> (Store i key v w, put i (Inserted w) s')))"

fun insert_step :: "('v \<Rightarrow> 'v \<Rightarrow> 'v) \<Rightarrow> nat \<Rightarrow> 'v client \<Rightarrow> 'v locked_trie
    \<Rightarrow> ('v trie_event \<times> 'v locked_trie) option" where
  "insert_step merge i (Insert key v) s =
     (case check_key_size (trie s) key of
        Inl e \<Rightarrow> Some (Move i, put i (Failed e) s)
      | Inr _ \<Rightarrow> if free i [] s then Some (Move i, put i (Inserting key v 0) s) else None)"
| "insert_step merge i (Inserting key v d) s =
     (case node_at (path key d) (root (trie s)) of
        None \<Rightarrow> None
      | Some t \<Rightarrow>
          if node_at (path key (d + 1)) (root (trie s)) = None then Some (iterate merge i key v d t s)
          else Some (Move i, put i (Waiting key v d) s))"
| "insert_step merge i (Waiting key v d) s =
     (case node_at (path key d) (root (trie s)) of
        None \<Rightarrow> None
      | Some t \<Rightarrow> if free i (path key (d + 1)) s then Some (iterate merge i key v d t s) else None)"
| "insert_step merge i c s = None"

text \<open>\<open>lookup\<close>: the mutex of a node is given back before the child is locked.\<close>

fun lookup_step :: "nat \<Rightarrow> 'v client \<Rightarrow> 'v locked_trie \<Rightarrow> ('v trie_event \<times> 'v locked_trie) option" where
  "lookup_step i (Lookup key) s =
     (case check_key_size (trie s) key of
        Inl e \<Rightarrow> Some (Move i, put i (Failed e) s)
      | Inr _ \<Rightarrow> Some (Move i, put i (Looking key 0 (Inner [])) s))"
| "lookup_step i (Looking key d (Leaf k)) s =
     (if pointer_free i (Leaf k) s
      then (case suffix_match key k (unat d) of
              Inl e \<Rightarrow> Some (Move i, put i (Failed e) s)
            | Inr matches \<Rightarrow>
                let r = (if matches then trie_map (trie s) k else None)
                in Some (Answer i key r, put i (Found r) s))
      else None)"
| "lookup_step i (Looking key d (Inner p)) s =
     (case node_at p (root (trie s)) of
        None \<Rightarrow> None
      | Some t \<Rightarrow>
          if free i p s
          then (case str_at key (unat d) of
                  Inl e \<Rightarrow> Some (Move i, put i (Failed e) s)
                | Inr kc \<Rightarrow>
                    Some (case nth_child (node_children t) (TLB kc) of
                       None \<Rightarrow> (Answer i key None, put i (Found None) s)
                     | Some u \<Rightarrow> (Move i, put i (Looking key (d + 1) (pointer_to (p @ [TLB kc]) u)) s)))
          else None)"
| "lookup_step i c s = None"

text \<open>
  \<open>traverse\<close>: the visit of a leaf happens while its mutex is held. The pointers to the children of a
  node are pushed from the last to the first.
\<close>

definition child_pointers :: "nat list \<Rightarrow> 'v trie_node \<Rightarrow> pointer list" where
  "child_pointers p t =
     concat (map (\<lambda>i. case nth_child (node_children t) i of None \<Rightarrow> [] | Some u \<Rightarrow> [pointer_to (p @ [i]) u])
       [0..<TRIE_ALPHABET_SIZE])"

fun traverse_step :: "nat \<Rightarrow> 'v client \<Rightarrow> 'v locked_trie \<Rightarrow> ('v trie_event \<times> 'v locked_trie) option" where
  "traverse_step i (Traverse keep) s =
     (if free i [] s
      then Some (Move i, put i (Traversing keep (child_pointers [] (root (trie s))) []) s) else None)"
| "traverse_step i (Traversing keep [] ks) s = Some (Move i, put i (Traversed ks) s)"
| "traverse_step i (Traversing keep (Leaf k # node_stack) ks) s =
     (if pointer_free i (Leaf k) s
      then Some (Move i, put i (Traversing keep node_stack (ks @ [k])) s) else None)"
| "traverse_step i (Traversing keep (Inner p # node_stack) ks) s =
     (case node_at p (root (trie s)) of
        None \<Rightarrow> None
      | Some t \<Rightarrow>
          if free i p s
          then Some (Move i, put i (Traversing keep (child_pointers p t @ node_stack) ks) s) else None)"
| "traverse_step i c s = None"

definition client_step :: "('v \<Rightarrow> 'v \<Rightarrow> 'v) \<Rightarrow> nat \<Rightarrow> 'v locked_trie
    \<Rightarrow> ('v trie_event \<times> 'v locked_trie) option" where
  "client_step merge i s =
     (if i < length (clients s)
      then case clients s ! i of
             Insert key v \<Rightarrow> insert_step merge i (clients s ! i) s
           | Inserting key v d \<Rightarrow> insert_step merge i (clients s ! i) s
           | Waiting key v d \<Rightarrow> insert_step merge i (clients s ! i) s
           | Lookup key \<Rightarrow> lookup_step i (clients s ! i) s
           | Looking key d p \<Rightarrow> lookup_step i (clients s ! i) s
           | c \<Rightarrow> traverse_step i c s
      else None)"

inductive trie_run :: "('v \<Rightarrow> 'v \<Rightarrow> 'v) \<Rightarrow> 'v locked_trie \<Rightarrow> 'v trie_event list \<Rightarrow> 'v locked_trie \<Rightarrow> bool"
  for merge s where
  trie_start: "trie_run merge s [] s"
| trie_more: "trie_run merge s es s' \<Longrightarrow> client_step merge i s' = Some (e, s'') \<Longrightarrow>
    trie_run merge s (es @ [e]) s''"

text \<open>A run for a given schedule, to compute it.\<close>

fun trie_schedule :: "('v \<Rightarrow> 'v \<Rightarrow> 'v) \<Rightarrow> nat list \<Rightarrow> 'v locked_trie
    \<Rightarrow> ('v trie_event list \<times> 'v locked_trie) option" where
  "trie_schedule merge [] s = Some ([], s)"
| "trie_schedule merge (i # is) s =
     (case client_step merge i s of None \<Rightarrow> None
      | Some (e, s') \<Rightarrow> map_option (\<lambda>(es, s''). (e # es, s'')) (trie_schedule merge is s'))"

end
