(* ===== verification/Trie_Locks_Correct.thy ===== *)
theory Trie_Locks_Correct
  imports Trie_Locks "HOL-Library.Sublist"
begin

text \<open>
  The trie with its locks: the iterations of \<open>insert\<close> make up \<open>insert\<close>, no two threads hold a mutex, and
  every operation takes effect at one moment between its call and its return.
\<close>

section \<open>The iterations make up the loop\<close>

lemma nth_child_set_child [simp]:
  "i < length (node_children t) \<Longrightarrow>
    nth_child (node_children (set_child i s t)) j = (if j = i then Some s else nth_child (node_children t) j)"
  by (simp add: set_child_def)

lemma set_child_twice [simp]: "set_child i s (set_child i s' t) = set_child i s t"
  by (simp add: set_child_def)

lemma length_children_new_node [simp]: "length (node_children new_TrieNode) = 16"
  by (simp add: new_TrieNode_def TRIE_ALPHABET_SIZE_def)

lemma nth_child_index: "nth_child cs i = Some s \<Longrightarrow> i < length cs"
  by (simp add: nth_child_def split: if_splits)

definition resume :: "('v \<Rightarrow> 'v \<Rightarrow> 'v) \<Rightarrow> string \<Rightarrow> 'v \<Rightarrow> u8 \<Rightarrow> 'v trie_node \<Rightarrow> ('v trie_node \<times> 'v) result" where
  "resume merge key value kc t =
     and_then (str_at key (unat kc)) (\<lambda>c.
       case nth_child (node_children t) (TLB c) of
         None \<Rightarrow> Inl Null_Dereference
       | Some s \<Rightarrow> and_then (insert_loop merge key value (kc + 1) s) (\<lambda>(s', v). Inr (set_child (TLB c) s' t, v)))"

lemma insert_loop_iterates:
  "insert_loop merge key value kc t =
     and_then (insert_iteration merge key value kc t) (\<lambda>(t', r).
       case r of Some v \<Rightarrow> Inr (t', v) | None \<Rightarrow> resume merge key value kc t')"
proof (cases "str_at key (unat kc)")
  case (Inr c)
  show ?thesis
  proof (cases "nth_child (node_children t) (TLB c)")
    case None
    show ?thesis
      by (subst insert_loop.simps)
        (auto simp: Inr None insert_iteration_def resume_def and_then_def split: sum.split)
  next
    case (Some child)
    show ?thesis
      by (subst insert_loop.simps)
        (auto simp: Inr Some insert_iteration_def resume_def and_then_def split: sum.split option.split)
  qed
next
  case (Inl e)
  then show ?thesis by (subst insert_loop.simps) (simp add: insert_iteration_def)
qed

section \<open>Positions\<close>

lemma trie_ok_children:
  assumes "trie_ok n A d t" and "nth_child (node_children t) i = Some s"
  shows "t = TrieNode (node_children t) None [] 0 \<and> d < n \<and> i < 16 \<and> length (node_children t) = 16
    \<and> trie_ok n A (Suc d) s \<and> keys s \<noteq> [] \<and> (\<forall>k\<in>set (keys s). TLB (k ! d) = i)"
proof -
  have "\<not> is_leaf t"
  proof
    assume "is_leaf t"
    with assms(1) obtain v sfx ss where "t = TrieNode (replicate 16 None) v sfx ss"
      by (metis trie_ok_leaf)
    with assms(2) show False by simp
  qed
  with assms(1) obtain cs where t: "t = TrieNode cs None [] 0" "length cs = 16" "d < n"
    by (rule trie_ok_inner)
  with assms(2) nth_child_index [of cs i s] trie_ok_child [of n A d cs None "[]" i s] assms(1)
  show ?thesis by auto
qed

lemma codes_Cons:
  "d < length k \<Longrightarrow> codes (take (Suc m) (drop d k)) = TLB (k ! d) # codes (take m (drop (Suc d) k))"
  by (simp add: codes_def Cons_nth_drop_Suc [symmetric])

text \<open>The keys below the end of a path have the codes of the path.\<close>

definition below :: "nat \<Rightarrow> nat list \<Rightarrow> string \<Rightarrow> bool" where
  "below d p k \<longleftrightarrow> codes (take (length p) (drop d k)) = p"

lemma below_Nil [simp]: "below d [] k"
  by (simp add: below_def codes_def)

lemma below_Cons [simp]: "d < length k \<Longrightarrow> below d (i # p) k \<longleftrightarrow> TLB (k ! d) = i \<and> below (Suc d) p k"
  by (simp add: below_def codes_Cons)

lemma map_of_child:
  assumes "trie_ok n A d t" and "nth_child (node_children t) i = Some s" and "TLB (k ! d) = i"
  shows "map_of (entries t) k = map_of (entries s) k"
proof -
  have "trie_ok n A d (TrieNode (node_children t) None [] 0)" "t = TrieNode (node_children t) None [] 0"
    using trie_ok_children [OF assms(1,2)] assms(1) by metis+
  with map_of_inner [of n A d "node_children t" k] assms(2,3) show ?thesis by simp
qed

lemma node_at_ok:
  assumes "trie_ok n A d t" and "node_at p t = Some s"
  shows "trie_ok n A (d + length p) s \<and> (p \<noteq> [] \<longrightarrow> keys s \<noteq> []) \<and> (\<forall>k\<in>set (keys s). below d p k)
    \<and> (\<forall>k. length k = n \<and> below d p k \<longrightarrow> map_of (entries t) k = map_of (entries s) k)"
  using assms
proof (induction p arbitrary: d t)
  case (Cons i p)
  then obtain c where c: "nth_child (node_children t) i = Some c" "node_at p c = Some s"
    by (auto split: option.splits)
  note ch = trie_ok_children [OF Cons.prems(1) c(1)]
  then have d: "d < n" and ok: "trie_ok n A (Suc d) c" and dig: "\<And>k. k \<in> set (keys c) \<Longrightarrow> TLB (k ! d) = i"
    by auto
  from Cons.IH [OF ok c(2)] have IH: "trie_ok n A (Suc d + length p) s"
    "p \<noteq> [] \<longrightarrow> keys s \<noteq> []" "\<And>k. k \<in> set (keys s) \<Longrightarrow> below (Suc d) p k"
    "\<And>k. length k = n \<Longrightarrow> below (Suc d) p k \<Longrightarrow> map_of (entries c) k = map_of (entries s) k"
    by auto
  have sub: "k \<in> set (keys c)" "length k = n" if "k \<in> set (keys s)" for k
  proof -
    show len: "length k = n" using trie_ok_keys [OF IH(1) that] by simp
    show "k \<in> set (keys c)"
      using IH(4) [OF len IH(3) [OF that]] that by (simp add: keys_conv_map_of)
  qed
  have "p = [] \<longrightarrow> keys s \<noteq> []" using c(2) ch by auto
  then show ?case
    using IH sub d dig map_of_child [OF Cons.prems(1) c(1)] by (auto simp: add.commute)
qed simp

lemma replace_at_ok:
  assumes "trie_ok n A d t" and "node_at p t = Some s"
    and "trie_ok n A (d + length p) s'" and "keys s' \<noteq> []" and "\<forall>k\<in>set (keys s'). below d p k"
  shows "trie_ok n A d (replace_at p s' t) \<and> keys (replace_at p s' t) \<noteq> []
    \<and> (p \<noteq> [] \<longrightarrow> is_leaf (replace_at p s' t) = is_leaf t)
    \<and> (\<forall>k. length k = n \<longrightarrow> map_of (entries (replace_at p s' t)) k
          = (if below d p k then map_of (entries s') k else map_of (entries t) k))"
  using assms
proof (induction p arbitrary: d t)
  case (Cons i p)
  then obtain c where c: "nth_child (node_children t) i = Some c" "node_at p c = Some s"
    by (auto split: option.splits)
  note ch = trie_ok_children [OF Cons.prems(1) c(1)]
  then have d: "d < n" and i: "i < 16" and ok: "trie_ok n A (Suc d) c"
    and dig: "\<And>k. k \<in> set (keys c) \<Longrightarrow> TLB (k ! d) = i" and nl: "\<not> is_leaf t"
    by (auto simp: is_leaf_def) (metis trie_node.sel(4) word_gt_0)
  have len: "length k = n" if "k \<in> set (keys s')" for k
    using trie_ok_keys [OF Cons.prems(3) that] by simp
  have bel: "\<forall>k\<in>set (keys s'). below (Suc d) p k"
    using Cons.prems(5) len d by auto
  let ?c = "replace_at p s' c"
  have "trie_ok n A (Suc d + length p) s'" using Cons.prems(3) by simp
  from Cons.IH [OF ok c(2) this Cons.prems(4) bel] have IH: "trie_ok n A (Suc d) ?c" "keys ?c \<noteq> []"
    "\<And>k. length k = n \<Longrightarrow> map_of (entries ?c) k
      = (if below (Suc d) p k then map_of (entries s') k else map_of (entries c) k)"
    by auto
  have digc: "TLB (k ! d) = i" if "k \<in> set (keys ?c)" for k
  proof -
    have "length k = n" using trie_ok_keys [OF IH(1) that] by simp
    with IH(3) [OF this] that have "k \<in> set (keys s') \<or> k \<in> set (keys c)"
      by (auto simp: keys_conv_map_of split: if_splits)
    then show ?thesis using dig Cons.prems(5) len d by auto
  qed
  have eq: "replace_at (i # p) s' t = set_child i ?c t" using c(1) by simp
  note sc = set_child_ok [OF Cons.prems(1) nl IH(1,2) digc i]
  have m: "map_of (entries (set_child i ?c t)) k
      = (if below d (i # p) k then map_of (entries s') k else map_of (entries t) k)" if k: "length k = n" for k
    using sc(2) [of k] IH(3) [OF k] d k map_of_child [OF Cons.prems(1) c(1), of k] by auto
  obtain k where "k \<in> set (keys s')" using Cons.prems(4) by (cases "keys s'") auto
  then have "k \<in> set (keys (set_child i ?c t))"
    using m [of k] len Cons.prems(5) by (simp add: keys_conv_map_of)
  then have "keys (set_child i ?c t) \<noteq> []" by auto
  then show ?case unfolding eq using sc(1) m by simp
qed simp

lemma node_at_append: "node_at (p @ q) t = (case node_at p t of None \<Rightarrow> None | Some s \<Rightarrow> node_at q s)"
  by (induction p arbitrary: t) (auto split: option.split)

lemma node_at_replaced: "node_at p t \<noteq> None \<Longrightarrow> node_at (p @ q) (replace_at p s t) = node_at q s"
proof (induction p arbitrary: t)
  case (Cons i p)
  then obtain c where c: "nth_child (node_children t) i = Some c" "node_at p c \<noteq> None"
    by (auto split: option.splits)
  from nth_child_index [OF c(1)] Cons.IH [OF c(2)] c(1) show ?case by simp
qed simp

text \<open>What a replacement leaves of another node: whether it is a leaf, and of which key.\<close>

definition same_kind :: "'v trie_node \<Rightarrow> 'v trie_node \<Rightarrow> bool" where
  "same_kind t t' \<longleftrightarrow> is_leaf t' = is_leaf t \<and> node_suffix t' = node_suffix t"

lemma same_kind_refl [simp]: "same_kind t t"
  by (simp add: same_kind_def)

lemma same_kind_set_child [simp]: "same_kind t (set_child i s t)"
  by (simp add: same_kind_def set_child_def is_leaf_def)

lemma node_at_elsewhere:
  assumes "node_at q t = Some u" and "\<not> prefix p q"
  shows "\<exists>u'. node_at q (replace_at p s t) = Some u' \<and> same_kind u u'"
  using assms
proof (induction p arbitrary: q t)
  case (Cons i p)
  show ?case
  proof (cases "nth_child (node_children t) i")
    case None
    then show ?thesis using Cons.prems by simp
  next
    case (Some c)
    note len = nth_child_index [OF Some]
    show ?thesis
    proof (cases q)
      case Nil
      with Cons.prems Some show ?thesis by simp
    next
      case (Cons j q')
      with Cons.prems(1) obtain c' where c': "nth_child (node_children t) j = Some c'" "node_at q' c' = Some u"
        by (auto split: option.splits)
      show ?thesis
      proof (cases "j = i")
        case True
        with Cons.prems(2) Cons c' Some Cons.IH [of q' c] len show ?thesis by auto
      next
        case False
        with Cons c' Some len show ?thesis by simp
      qed
    qed
  qed
qed simp

section \<open>One iteration\<close>

text \<open>
  A thread can be at \<open>t\<close> with \<open>key\<close>: the keys below agree with its key up to the depth, and a leaf is
  of another key, since an equal one was met at its parent.
\<close>

definition may_be_at :: "nat \<Rightarrow> char set \<Rightarrow> string \<Rightarrow> nat \<Rightarrow> 'v trie_node \<Rightarrow> bool" where
  "may_be_at n A key d t \<longleftrightarrow> trie_ok n A d t \<and> (\<forall>k\<in>set (keys t). take d k = take d key)
     \<and> (is_leaf t \<longrightarrow> node_suffix t \<noteq> key)"

text \<open>What an iteration at \<open>t\<close> leaves: its result, and the children that it does not touch.\<close>

definition iterated :: "nat \<Rightarrow> char set \<Rightarrow> ('v \<Rightarrow> 'v \<Rightarrow> 'v) \<Rightarrow> string \<Rightarrow> 'v \<Rightarrow> nat \<Rightarrow> 'v trie_node
    \<Rightarrow> 'v trie_node \<Rightarrow> 'v option \<Rightarrow> bool" where
  "iterated n A merge key value d t t' r \<longleftrightarrow>
     trie_ok n A d t' \<and> \<not> is_leaf t' \<and> keys t' \<noteq> []
     \<and> (case r of
          None \<Rightarrow> map_of (entries t') = map_of (entries t)
            \<and> (\<exists>s. nth_child (node_children t') (TLB (key ! d)) = Some s \<and> (is_leaf s \<longrightarrow> node_suffix s \<noteq> key))
        | Some w \<Rightarrow> w = combined merge (map_of (entries t) key) value
            \<and> map_of (entries t') = (map_of (entries t))(key \<mapsto> w))
     \<and> (\<forall>i s. nth_child (node_children t) i = Some s \<longrightarrow>
          (\<exists>s'. nth_child (node_children t') i = Some s' \<and> same_kind s s' \<and> (i \<noteq> TLB (key ! d) \<or> \<not> is_leaf s \<longrightarrow> s' = s)))"

lemma may_be_at_depth: "may_be_at n A key d t \<Longrightarrow> length key = n \<Longrightarrow> d < n"
  using position_less [of n A d t key] by (auto simp: may_be_at_def)

lemma insert_iteration_leaf:
  assumes t: "may_be_at n A key d t" "is_leaf t" and inj: "inj_on TLB A" and n: "n \<le> 255"
    and key: "valid_key n A key" and kc: "unat kc = d"
  shows "\<exists>t' r. insert_iteration merge key value kc t = Inr (t', r) \<and> iterated n A merge key value d t t' r"
proof -
  have len: "length key = n" "set key \<subseteq> A" using key by (auto simp: valid_key_def)
  have d: "d < n" using may_be_at_depth [OF t(1) len(1)] .
  have ok: "trie_ok n A d t" "node_suffix t \<noteq> key" using t by (auto simp: may_be_at_def)
  obtain v sfx ss where eq: "t = TrieNode (replicate 16 None) (Some v) sfx ss" "ss > 0"
    "length sfx = n" "set sfx \<subseteq> A" "unat ss = d"
    using ok(1) t(2) by (rule trie_ok_leaf)
  have at: "str_at key (unat kc) = Inr (key ! d)" "str_at sfx (unat kc) = Inr (sfx ! d)"
    using d kc len eq(3) by simp_all
  have none: "nth_child (node_children t) i = None" for i by (simp add: eq(1))
  show ?thesis
  proof (cases "key ! d = sfx ! d")
    case False
    then obtain t' where t': "split_leaf key kc (key ! d) value t = Inr t'"
      "insert_post n A d merge key value t (t', value)"
      using split_leaf_ok [OF ok(1) t(2) inj n len kc _ d] eq(1) by auto
    have "insert_iteration merge key value kc t = Inr (t', Some value)"
      using at none t'(1) eq(2) False by (simp add: insert_iteration_def eq(1))
    moreover have "iterated n A merge key value d t t' (Some value)"
      using t'(2) none by (auto simp: iterated_def insert_post_def keys_nonempty_iff)
    ultimately show ?thesis by blast
  next
    case True
    note b = bump_ok [OF ok(1) t(2) d n]
    let ?t = "set_child (TLB (key ! d)) (bump_suffix_start t) new_TrieNode"
    have e: "entries (bump_suffix_start t) = [(sfx, v)]" using b(2) eq by simp
    have k: "keys (bump_suffix_start t) = [sfx]" by (simp add: keys_def e)
    have "trie_ok n A d ?t" and m: "\<And>k. map_of (entries ?t) k
        = (if TLB (k ! d) = TLB (key ! d) then map_of [(sfx, v)] k else None)"
      using set_child_ok [OF trie_ok_new_node [OF d] not_is_leaf_new_node b(1), of "TLB (key ! d)"] True
      by (simp_all add: k e)
    moreover have "map_of (entries ?t) = map_of (entries t)"
      using m eq(1,2) True by (auto simp: fun_eq_iff)
    moreover have "insert_iteration merge key value kc t = Inr (?t, None)"
      using at none eq(2) True by (simp add: insert_iteration_def eq(1))
    moreover have "keys ?t \<noteq> []" using m [of sfx] True by (auto simp: keys_nonempty_iff)
    ultimately have "iterated n A merge key value d t ?t None"
      using none ok(2) b(4) by (auto simp: iterated_def)
    with \<open>insert_iteration merge key value kc t = Inr (?t, None)\<close> show ?thesis by blast
  qed
qed

lemma insert_iteration_inner:
  assumes t: "may_be_at n A key d t" "\<not> is_leaf t" and inj: "inj_on TLB A" and n: "n \<le> 255"
    and key: "valid_key n A key" and kc: "unat kc = d"
  shows "\<exists>t' r. insert_iteration merge key value kc t = Inr (t', r) \<and> iterated n A merge key value d t t' r"
proof -
  have len: "length key = n" "set key \<subseteq> A" using key by (auto simp: valid_key_def)
  have d: "d < n" using may_be_at_depth [OF t(1) len(1)] .
  have ok: "trie_ok n A d t" and agree: "\<forall>k\<in>set (keys t). take d k = take d key"
    using t by (auto simp: may_be_at_def)
  obtain cs where cs: "t = TrieNode cs None [] 0" "length cs = 16"
    using ok t(2) by (rule trie_ok_inner)
  have at: "str_at key (unat kc) = Inr (key ! d)" using d kc len by simp
  let ?c = "TLB (key ! d)"
  have post: "insert_post n A d merge key value t (t', w)"
    if "insert_iteration merge key value kc t = Inr (t', Some w)" for t' w
  proof -
    have "insert_loop merge key value kc t = Inr (t', w)"
      by (simp add: insert_loop_iterates that)
    with insert_loop_ok [OF ok inj n len kc agree, of merge "value"] t(2) show ?thesis by auto
  qed
  have returned: "iterated n A merge key value d t t' (Some w)"
    if "insert_iteration merge key value kc t = Inr (t', Some w)"
      and "\<And>i s. nth_child (node_children t) i = Some s \<Longrightarrow> \<exists>s'. nth_child (node_children t') i = Some s'
        \<and> same_kind s s' \<and> (i \<noteq> ?c \<or> \<not> is_leaf s \<longrightarrow> s' = s)" for t' w
    using post [OF that(1)] that(2) by (auto simp: iterated_def insert_post_def keys_nonempty_iff)
  show ?thesis
  proof (cases "nth_child cs ?c")
    case None
    then have r: "insert_iteration merge key value kc t
        = Inr (set_child ?c (new_leaf key (kc + 1) value) t, Some value)"
      using at by (simp add: insert_iteration_def cs(1))
    have "iterated n A merge key value d t (set_child ?c (new_leaf key (kc + 1) value) t) (Some value)"
      using None by (intro returned [OF r]) (auto simp: cs)
    with r show ?thesis by blast
  next
    case (Some s)
    note ch = trie_ok_child [OF ok [unfolded cs(1)] Some]
    have s_agree: "\<forall>k\<in>set (keys s). take (Suc d) k = take (Suc d) key"
      by (rule child_agree [OF ok [unfolded cs(1)] inj len d agree [unfolded cs(1)] Some])
    note matches = child_matches [OF conjunct1 [OF ch] len(1) d kc s_agree]
    show ?thesis
    proof (cases "is_leaf s \<and> node_suffix s = key")
      case True
      with ch obtain v ss where s: "s = TrieNode (replicate 16 None) (Some v) key ss" "ss > 0"
        by (auto elim: trie_ok_leaf)
      then have nv: "node_value s = Some v" by simp
      have r: "insert_iteration merge key value kc t
          = Inr (set_child ?c (set_value (merge v value) s) t, Some (merge v value))"
        using at Some matches [unfolded eqTrueI [OF True]] nv
        by (simp add: insert_iteration_def cs(1))
      have "same_kind s (set_value (merge v value) s)"
        by (simp add: same_kind_def set_value_def is_leaf_def)
      then have "iterated n A merge key value d t (set_child ?c (set_value (merge v value) s) t)
          (Some (merge v value))"
        using Some True by (intro returned [OF r]) (auto simp: cs)
      with r show ?thesis by blast
    next
      case False
      have r: "insert_iteration merge key value kc t = Inr (t, None)"
        using at Some matches False by (simp add: insert_iteration_def cs(1))
      obtain k where "k \<in> set (keys s)" using ch by (cases "keys s") auto
      then have "k \<in> set (keys t)" using Some by (auto simp: cs(1) set_keys_inner)
      then have "keys t \<noteq> []" by auto
      then have "iterated n A merge key value d t t None"
        using ok t(2) Some False by (auto simp: iterated_def cs(1))
      with r show ?thesis by blast
    qed
  qed
qed

lemma insert_iteration_ok:
  assumes "may_be_at n A key d t" and "inj_on TLB A" and "n \<le> 255" and "valid_key n A key" and "unat kc = d"
  shows "\<exists>t' r. insert_iteration merge key value kc t = Inr (t', r) \<and> iterated n A merge key value d t t' r"
  using insert_iteration_leaf [OF assms(1) _ assms(2-5)] insert_iteration_inner [OF assms(1) _ assms(2-5)]
  by blast

section \<open>An iteration in the trie\<close>

lemma codes_inj:
  assumes "inj_on TLB A" and "codes a = codes b" and "set a \<subseteq> A" and "set b \<subseteq> A" shows "a = b"
  using assms map_inj_on [of TLB a b] inj_on_subset [of TLB A "set a \<union> set b"] by (simp add: codes_def)

lemma codes_take: "codes (take d k) = take d (codes k)"
  by (simp add: codes_def take_map)

lemma length_codes [simp]: "length (codes k) = length k"
  by (simp add: codes_def)

lemma length_path: "length (path key d) = min (unat d) (length key)"
  by (simp add: path_def min.commute)

lemma path_0 [simp]: "path key 0 = []"
  by (simp add: path_def codes_def)

lemma unat_next: "unat (d::u8) < n \<Longrightarrow> n \<le> 255 \<Longrightarrow> unat (d + 1) = Suc (unat d)"
  using unat_Suc_less [of d 255] by (simp add: word_less_nat_alt)

lemma path_next:
  assumes "unat d < length key" and "length key \<le> 255"
  shows "path key (d + 1) = path key d @ [TLB (key ! unat d)]"
  using assms by (simp add: path_def unat_next codes_def take_Suc_conv_app_nth)

lemma below_path: "unat d \<le> length key \<Longrightarrow> below 0 (path key d) k \<longleftrightarrow> codes (take (unat d) k) = codes (take (unat d) key)"
  by (simp add: below_def length_path min_def path_def)

lemma leaf_no_children:
  assumes "trie_ok n A d t" and "is_leaf t" shows "nth_child (node_children t) i = None"
  using trie_ok_leaf [OF assms] by (metis nth_child_simps(1) trie_node.sel(1))

lemma node_may_be_at:
  assumes m: "handle_trie_ok n A m" and key: "valid_key n A key" and d: "unat d \<le> n"
    and t: "node_at (path key d) (root m) = Some t" and ne: "is_leaf t \<longrightarrow> node_suffix t \<noteq> key"
  shows "may_be_at n A key (unat d) t"
proof -
  have len: "length key = n" "set key \<subseteq> A" using key by (auto simp: valid_key_def)
  note at = node_at_ok [of n A 0 "root m" "path key d" t, OF _ t]
  have "trie_ok n A 0 (root m)" "inj_on TLB A" using m by (auto simp: handle_trie_ok_def)
  with at have ok: "trie_ok n A (unat d) t" and bel: "\<And>k. k \<in> set (keys t) \<Longrightarrow> below 0 (path key d) k"
    using d len by (auto simp: length_path)
  have "take (unat d) k = take (unat d) key" if k: "k \<in> set (keys t)" for k
  proof (rule codes_inj [OF \<open>inj_on TLB A\<close>])
    show "codes (take (unat d) k) = codes (take (unat d) key)"
      using bel [OF k] d len by (simp add: below_path)
    have "set k \<subseteq> A" using trie_ok_keys [OF ok k] by simp
    then show "set (take (unat d) k) \<subseteq> A" "set (take (unat d) key) \<subseteq> A"
      using len(2) set_take_subset [of "unat d" k] set_take_subset [of "unat d" key] by auto
  qed
  with ok ne show ?thesis by (simp add: may_be_at_def)
qed

text \<open>Nodes elsewhere after an iteration, and inner nodes everywhere.\<close>

definition keeps_nodes :: "nat list set \<Rightarrow> 'v trie_node \<Rightarrow> 'v trie_node \<Rightarrow> bool" where
  "keeps_nodes P t t' \<longleftrightarrow>
     (\<forall>q u. node_at q t = Some u \<longrightarrow> q \<notin> P \<longrightarrow> (\<exists>u'. node_at q t' = Some u' \<and> same_kind u u'))
     \<and> (\<forall>q u. node_at q t = Some u \<longrightarrow> \<not> is_leaf u \<longrightarrow> (\<exists>u'. node_at q t' = Some u' \<and> \<not> is_leaf u'))
     \<and> (\<forall>q. node_at q t \<noteq> None \<longrightarrow> node_at q t' \<noteq> None)"

lemma iterated_keeps_nodes:
  assumes t: "trie_ok n A e t" and it: "iterated n A merge key value d t t' r"
    and p: "node_at p T = Some t"
  shows "keeps_nodes {p, p @ [TLB (key ! d)]} T (replace_at p t' T)"
proof -
  let ?c = "TLB (key ! d)"
  have ch: "\<exists>s'. nth_child (node_children t') i = Some s' \<and> same_kind s s' \<and> (i \<noteq> ?c \<or> \<not> is_leaf s \<longrightarrow> s' = s)"
    if "nth_child (node_children t) i = Some s" for i s
    using it that by (auto simp: iterated_def)
  have sub: "\<exists>u'. node_at (p @ q) (replace_at p t' T) = Some u' \<and> same_kind u u'
      \<and> (q \<noteq> [?c] \<or> \<not> is_leaf u \<longrightarrow> u' = u)"
    if q: "q \<noteq> []" "node_at q t = Some u" for q u
  proof -
    obtain i q' where iq: "q = i # q'" using q(1) by (cases q) auto
    then obtain s where s: "nth_child (node_children t) i = Some s" "node_at q' s = Some u"
      using q(2) by (auto split: option.splits)
    obtain s' where s': "nth_child (node_children t') i = Some s'" "same_kind s s'"
      "i \<noteq> ?c \<or> \<not> is_leaf s \<longrightarrow> s' = s" using ch [OF s(1)] by blast
    have "\<not> is_leaf s" if "q' \<noteq> []"
      using that s(2) trie_ok_children [OF t s(1)] leaf_no_children [of n A "Suc e" s]
      by (cases q') auto
    with s s' iq p show ?thesis
      by (cases "q' = []") (auto simp: node_at_replaced split: option.split)
  qed
  have at_p: "node_at p (replace_at p t' T) = Some t'"
    using node_at_replaced [of p T "[]" t'] p by simp
  have nl: "\<not> is_leaf t'" using it by (simp add: iterated_def)
  have "\<exists>u'. node_at q (replace_at p t' T) = Some u' \<and> same_kind u u'"
    if u: "node_at q T = Some u" and q: "q \<noteq> p" "q \<noteq> p @ [?c]" for q u
  proof (cases "prefix p q")
    case True
    then obtain q' where "q = p @ q'" by (rule prefixE)
    with u q p sub [of q' u] show ?thesis by (auto simp: node_at_append)
  qed (use node_at_elsewhere u in blast)
  moreover have "\<exists>u'. node_at q (replace_at p t' T) = Some u' \<and> \<not> is_leaf u'"
    if u: "node_at q T = Some u" and inner: "\<not> is_leaf u" for q u
  proof (cases "prefix p q")
    case True
    then obtain q' where q': "q = p @ q'" by (rule prefixE)
    show ?thesis
    proof (cases "q' = []")
      case True
      with q' at_p nl show ?thesis by simp
    next
      case False
      with u q' p sub [of q' u] inner show ?thesis by (auto simp: node_at_append)
    qed
  next
    case False
    with node_at_elsewhere [OF u] inner show ?thesis by (auto simp: same_kind_def)
  qed
  moreover have "node_at q (replace_at p t' T) \<noteq> None" if u: "node_at q T = Some u" for q u
  proof (cases "prefix p q")
    case True
    then obtain q' where q': "q = p @ q'" by (rule prefixE)
    with u p sub [of q' u] at_p show ?thesis by (cases "q' = []") (auto simp: node_at_append)
  qed (use node_at_elsewhere [OF u] in fastforce)
  ultimately show ?thesis unfolding keeps_nodes_def by blast
qed

lemma map_of_entries_length: "trie_ok n A d t \<Longrightarrow> length k \<noteq> n \<Longrightarrow> map_of (entries t) k = None"
  by (metis keys_conv_map_of trie_ok_keys)

lemma iteration_in_trie:
  assumes m: "handle_trie_ok n A m" and key: "valid_key n A key" and d: "unat d \<le> n"
    and t: "node_at (path key d) (root m) = Some t" and ne: "is_leaf t \<longrightarrow> node_suffix t \<noteq> key"
  shows "\<exists>t' r. insert_iteration merge key v d t = Inr (t', r)
    \<and> (let m' = m\<lparr>root := replace_at (path key d) t' (root m)\<rparr> in handle_trie_ok n A m'
        \<and> keeps_nodes {path key d, path key (d + 1)} (root m) (root m')
        \<and> (case r of
             None \<Rightarrow> trie_map m' = trie_map m
               \<and> (\<exists>s. node_at (path key (d + 1)) (root m') = Some s \<and> (is_leaf s \<longrightarrow> node_suffix s \<noteq> key))
           | Some w \<Rightarrow> w = combined merge (trie_map m key) v \<and> trie_map m' = (trie_map m)(key \<mapsto> w)))
    \<and> unat (d + 1) = Suc (unat d) \<and> unat (d + 1) \<le> n"
proof -
  let ?p = "path key d" and ?T = "root m" and ?c = "TLB (key ! unat d)"
  have len: "length key = n" "set key \<subseteq> A" using key by (auto simp: valid_key_def)
  have T: "trie_ok n A 0 ?T" "\<not> is_leaf ?T" and inj: "inj_on TLB A" and n: "n \<le> 255"
    using m by (auto simp: handle_trie_ok_def)
  have may: "may_be_at n A key (unat d) t" by (rule node_may_be_at [OF m key d t ne])
  have dn: "unat d < n" using may_be_at_depth [OF may len(1)] .
  have lp: "length ?p = unat d" using dn len by (simp add: length_path)
  have next_path: "path key (d + 1) = ?p @ [?c]" using path_next dn len n by simp
  note at = node_at_ok [OF T(1) t]
  have okt: "trie_ok n A (unat d) t" using may by (simp add: may_be_at_def)
  obtain t' r where it: "insert_iteration merge key v d t = Inr (t', r)"
    "iterated n A merge key v (unat d) t t' r"
    using insert_iteration_ok [OF may inj n key refl] by blast
  have t': "trie_ok n A (unat d) t'" "\<not> is_leaf t'" "keys t' \<noteq> []"
    using it(2) by (simp_all add: iterated_def)
  have bkey: "below 0 ?p key" using dn len by (simp add: below_path)
  have new_keys: "k \<in> set (keys t) \<or> k = key" if "k \<in> set (keys t')" for k
    using it(2) that by (auto simp: iterated_def keys_conv_map_of split: option.splits if_splits)
  have bt': "\<forall>k\<in>set (keys t'). below 0 ?p k" using new_keys at bkey by blast
  let ?T' = "replace_at ?p t' ?T"
  have rep: "trie_ok n A 0 ?T'" "?p \<noteq> [] \<longrightarrow> is_leaf ?T' = is_leaf ?T"
    "\<And>k. length k = n \<Longrightarrow> map_of (entries ?T') k
      = (if below 0 ?p k then map_of (entries t') k else map_of (entries ?T) k)"
    using replace_at_ok [OF T(1) t _ t'(3) bt'] t'(1) lp by auto
  have "\<not> is_leaf ?T'" using rep(2) T(2) t'(2) by (cases "?p = []") auto
  with m rep(1) have ok: "handle_trie_ok n A (m\<lparr>root := ?T'\<rparr>)" by (simp add: handle_trie_ok_def)
  have kept: "keeps_nodes {?p, path key (d + 1)} ?T ?T'"
    using iterated_keeps_nodes [OF okt it(2) t] by (simp add: next_path)
  have tm: "trie_map (m\<lparr>root := ?T'\<rparr>) k
      = (if length k = n \<and> below 0 ?p k then map_of (entries t') k else trie_map m k)" for k
    using rep(3) [of k] map_of_entries_length [OF rep(1), of k] map_of_entries_length [OF T(1), of k]
    by (cases "length k = n") (simp_all add: trie_map_def trie_entries_def)
  have old: "trie_map m k = map_of (entries t) k" if "length k = n" "below 0 ?p k" for k
    using at that by (simp add: trie_map_def trie_entries_def)
  have "case r of
      None \<Rightarrow> trie_map (m\<lparr>root := ?T'\<rparr>) = trie_map m
        \<and> (\<exists>s. node_at (path key (d + 1)) ?T' = Some s \<and> (is_leaf s \<longrightarrow> node_suffix s \<noteq> key))
    | Some w \<Rightarrow> w = combined merge (trie_map m key) v \<and> trie_map (m\<lparr>root := ?T'\<rparr>) = (trie_map m)(key \<mapsto> w)"
  proof (cases r)
    case None
    then obtain s where "map_of (entries t') = map_of (entries t)"
      "nth_child (node_children t') ?c = Some s" "is_leaf s \<longrightarrow> node_suffix s \<noteq> key"
      using it(2) by (auto simp: iterated_def)
    with None t tm old show ?thesis
      by (auto simp: next_path node_at_replaced fun_eq_iff)
  next
    case (Some w)
    then have "w = combined merge (map_of (entries t) key) v" "map_of (entries t') = (map_of (entries t))(key \<mapsto> w)"
      using it(2) by (auto simp: iterated_def)
    with Some tm old bkey len(1) show ?thesis by (auto simp: fun_eq_iff)
  qed
  with it(1) ok kept dn show ?thesis
    by (intro exI [of _ t'] exI [of _ r]) (cases r; simp add: Let_def unat_next [OF dn n])
qed

section \<open>The invariant of the threads\<close>

fun pointer_ok :: "'v handle_trie \<Rightarrow> pointer \<Rightarrow> bool" where
  "pointer_ok m (Inner p) \<longleftrightarrow> (\<exists>u. node_at p (root m) = Some u \<and> \<not> is_leaf u)"
| "pointer_ok m (Leaf k) \<longleftrightarrow> k \<in> dom (trie_map m)"

fun client_ok :: "nat \<Rightarrow> char set \<Rightarrow> 'v handle_trie \<Rightarrow> 'v client \<Rightarrow> bool" where
  "client_ok n A m (Insert key v) \<longleftrightarrow> valid_key n A key"
| "client_ok n A m (Inserting key v d) \<longleftrightarrow> valid_key n A key \<and> unat d \<le> n
     \<and> (\<exists>t. node_at (path key d) (root m) = Some t \<and> (is_leaf t \<longrightarrow> node_suffix t \<noteq> key))"
| "client_ok n A m (Waiting key v d) \<longleftrightarrow> valid_key n A key \<and> unat d \<le> n
     \<and> (\<exists>t. node_at (path key d) (root m) = Some t \<and> (is_leaf t \<longrightarrow> node_suffix t \<noteq> key))
     \<and> node_at (path key (d + 1)) (root m) \<noteq> None"
| "client_ok n A m (Lookup key) \<longleftrightarrow> valid_key n A key"
| "client_ok n A m (Looking key d (Inner p)) \<longleftrightarrow> valid_key n A key \<and> unat d \<le> n
     \<and> pointer_ok m (Inner p) \<and> p = path key d"
| "client_ok n A m (Looking key d (Leaf k)) \<longleftrightarrow> valid_key n A key \<and> unat d \<le> n
     \<and> pointer_ok m (Leaf k) \<and> take (unat d) k = take (unat d) key"
| "client_ok n A m (Traversing keep ps ks) \<longleftrightarrow> (\<forall>p\<in>set ps. pointer_ok m p \<and> p \<noteq> Inner [])"
| "client_ok n A m (Failed e) \<longleftrightarrow> False"
| "client_ok n A m c \<longleftrightarrow> True"

text \<open>No mutex is held by two threads.\<close>

definition locks_ok :: "'v client list \<Rightarrow> bool" where
  "locks_ok cs \<longleftrightarrow> (\<forall>i j. i < length cs \<longrightarrow> j < length cs \<longrightarrow> i \<noteq> j \<longrightarrow>
     set (held (cs ! i)) \<inter> set (held (cs ! j)) = {})"

definition locked_trie_ok :: "nat \<Rightarrow> char set \<Rightarrow> 'v locked_trie \<Rightarrow> bool" where
  "locked_trie_ok n A s \<longleftrightarrow> handle_trie_ok n A (trie s)
     \<and> (\<forall>c\<in>set (clients s). client_ok n A (trie s) c) \<and> locks_ok (clients s)"

lemma node_at_prefix: "node_at q t = Some u \<Longrightarrow> prefix p q \<Longrightarrow> node_at p t \<noteq> None"
  by (auto simp: prefix_def node_at_append split: option.splits)

lemma path_in_held [simp]: "path key d \<in> set (held (Inserting key v d))"
  by simp

lemma held_exists:
  assumes "client_ok n A m c" and "q \<in> set (held c)" shows "node_at q (root m) \<noteq> None"
proof (cases c)
  case (Inserting key v d)
  then obtain t where t: "node_at (path key d) (root m) = Some t" using assms(1) by auto
  have "unat (d - 1) \<le> unat d" if "d \<noteq> 0" using that by (simp add: unat_minus_one)
  then have "prefix (path key (d - 1)) (path key d)" if "d \<noteq> 0"
    using that by (auto simp: path_def codes_take min_def take_is_prefix
        intro: prefix_order.trans simp: prefix_def) (metis append_take_drop_id min.absorb1 take_take)
  then have "prefix q (path key d)" using assms(2) Inserting by (auto split: if_splits)
  with t node_at_prefix show ?thesis by blast
qed (use assms in \<open>auto split: if_splits\<close>)

text \<open>A step of one thread, for the others.\<close>

lemma locks_ok_update:
  assumes "locks_ok cs" and "i < length cs"
    and "\<And>j. j < length cs \<Longrightarrow> j \<noteq> i \<Longrightarrow> set (held c) \<inter> set (held (cs ! j)) = {}"
  shows "locks_ok (cs[i := c])"
  unfolding locks_ok_def length_list_update
proof (intro allI impI)
  fix j k assume "j < length cs" "k < length cs" "j \<noteq> k"
  with assms show "set (held (cs[i := c] ! j)) \<inter> set (held (cs[i := c] ! k)) = {}"
    by (cases "j = i"; cases "k = i") (auto simp: locks_ok_def)
qed

lemma client_ok_mono:
  assumes "client_ok n A m c" and "keeps_nodes P (root m) (root m')" and "dom (trie_map m) \<subseteq> dom (trie_map m')"
    and "\<And>q. q \<in> set (held c) \<Longrightarrow> q \<notin> P"
  shows "client_ok n A m' c"
proof -
  have ptr: "pointer_ok m' p" if "pointer_ok m p" for p
  proof (cases p)
    case (Inner q)
    with that assms(2) show ?thesis unfolding Inner keeps_nodes_def pointer_ok.simps by blast
  next
    case (Leaf k)
    with that assms(3) show ?thesis unfolding Leaf pointer_ok.simps by blast
  qed
  show ?thesis
  proof (cases c)
    case (Inserting key v d)
    then have "path key d \<notin> P" using assms(4) [of "path key d"] by simp
    moreover obtain t where t: "node_at (path key d) (root m) = Some t" "is_leaf t \<longrightarrow> node_suffix t \<noteq> key"
      using assms(1) Inserting by auto
    ultimately obtain t' where "node_at (path key d) (root m') = Some t'" "same_kind t t'"
      using assms(2) unfolding keeps_nodes_def by blast
    with t Inserting assms(1) show ?thesis by (simp add: same_kind_def)
  next
    case (Waiting key v d)
    then have "path key d \<notin> P" using assms(4) [of "path key d"] by simp
    moreover obtain t where t: "node_at (path key d) (root m) = Some t" "is_leaf t \<longrightarrow> node_suffix t \<noteq> key"
      using assms(1) Waiting by auto
    ultimately obtain t' where "node_at (path key d) (root m') = Some t'" "same_kind t t'"
      using assms(2) unfolding keeps_nodes_def by blast
    moreover have "node_at (path key (d + 1)) (root m') \<noteq> None"
      using assms(1,2) Waiting unfolding keeps_nodes_def by simp
    ultimately show ?thesis using t Waiting assms(1) by (simp add: same_kind_def)
  next
    case (Looking key d p)
    with assms(1) ptr [of p] show ?thesis by (cases p) (simp_all del: pointer_ok.simps)
  next
    case (Traversing keep ps ks)
    with assms(1) ptr show ?thesis by simp
  qed (use assms(1) in simp_all)
qed

lemma locked_trie_okI:
  assumes s: "locked_trie_ok n A s" and i: "i < length (clients s)"
    and m: "handle_trie_ok n A m" and k: "keeps_nodes P (root (trie s)) (root m)"
    and d: "dom (trie_map (trie s)) \<subseteq> dom (trie_map m)" and c: "client_ok n A m c"
    and other: "\<And>j q. j < length (clients s) \<Longrightarrow> j \<noteq> i \<Longrightarrow> q \<in> set (held (clients s ! j)) \<Longrightarrow>
      q \<notin> P \<and> q \<notin> set (held c)"
  shows "locked_trie_ok n A (put i c (s\<lparr>trie := m\<rparr>))"
proof -
  have "client_ok n A m ((clients s)[i := c] ! j)" if j: "j < length (clients s)" for j
  proof (cases "j = i")
    case False
    have "client_ok n A (trie s) (clients s ! j)" using s j by (simp add: locked_trie_ok_def)
    then have "client_ok n A m (clients s ! j)"
      by (rule client_ok_mono [OF _ k d]) (use other [OF j False] in blast)
    with False show ?thesis by simp
  qed (use c i in simp)
  then have "\<forall>c\<in>set ((clients s)[i := c]). client_ok n A m c"
    by (metis in_set_conv_nth length_list_update)
  moreover have "locks_ok ((clients s)[i := c])"
    using s other by (intro locks_ok_update [OF _ i]) (auto simp: locked_trie_ok_def)
  ultimately show ?thesis using m by (simp add: locked_trie_ok_def put_def)
qed

lemma keeps_nodes_refl [simp]: "keeps_nodes P t t"
  by (auto simp: keeps_nodes_def)

text \<open>A step that does not change the trie.\<close>

lemma locked_trie_ok_put:
  assumes "locked_trie_ok n A s" and "i < length (clients s)" and "client_ok n A (trie s) c"
    and "\<And>j. j < length (clients s) \<Longrightarrow> j \<noteq> i \<Longrightarrow> set (held c) \<inter> set (held (clients s ! j)) = {}"
  shows "locked_trie_ok n A (put i c s)"
proof -
  have "locked_trie_ok n A (put i c (s\<lparr>trie := trie s\<rparr>))"
    using assms by (intro locked_trie_okI [where P = "{}"]) (auto simp: locked_trie_ok_def)
  then show ?thesis by simp
qed

fun step_effect :: "('v \<Rightarrow> 'v \<Rightarrow> 'v) \<Rightarrow> 'v trie_event \<Rightarrow> (string \<Rightarrow> 'v option) \<Rightarrow> (string \<Rightarrow> 'v option) \<Rightarrow> bool" where
  "step_effect merge (Move i) m m' \<longleftrightarrow> m' = m"
| "step_effect merge (Store i key v w) m m' \<longleftrightarrow> w = combined merge (m key) v \<and> m' = m(key \<mapsto> w)"
| "step_effect merge (Answer i key r) m m' \<longleftrightarrow> m' = m"

lemma trie_put [simp]: "trie (put i c s) = trie s" "clients (put i c s) = (clients s)[i := c]"
  by (simp_all add: put_def)

lemma free_disjoint:
  "free i p s \<Longrightarrow> j < length (clients s) \<Longrightarrow> j \<noteq> i \<Longrightarrow> p \<notin> set (held (clients s ! j))"
  by (simp add: free_def)

lemma check_valid_key: "handle_trie_ok n A m \<Longrightarrow> valid_key n A key \<Longrightarrow> check_key_size m key = Inr ()"
  by (simp add: check_key_size_def handle_trie_ok_def valid_key_def)

lemma client_at: "locked_trie_ok n A s \<Longrightarrow> i < length (clients s) \<Longrightarrow> client_ok n A (trie s) (clients s ! i)"
  by (simp add: locked_trie_ok_def)

lemma insert_step_start:
  assumes s: "locked_trie_ok n A s" and i: "i < length (clients s)" and c: "clients s ! i = Insert key v"
    and step: "insert_step merge i (Insert key v) s = Some (e, s')"
  shows "locked_trie_ok n A s' \<and> e = Move i \<and> s' = put i (Inserting key v 0) s"
proof -
  have k: "valid_key n A key" and m: "handle_trie_ok n A (trie s)"
    using client_at [OF s i] c s by (auto simp: locked_trie_ok_def)
  with step check_valid_key [OF m k] have f: "free i [] s" "e = Move i" "s' = put i (Inserting key v 0) s"
    by (auto split: if_splits)
  have "client_ok n A (trie s) (Inserting key v 0)"
    using k m by (simp add: handle_trie_ok_def)
  then have "locked_trie_ok n A s'"
    unfolding f(3) by (intro locked_trie_ok_put [OF s i]) (use free_disjoint [OF f(1)] in simp_all)
  with f show ?thesis by simp
qed

lemma client_ok_inserting:
  "client_ok n A m (Waiting key v d) \<longleftrightarrow>
    client_ok n A m (Inserting key v d) \<and> node_at (path key (d + 1)) (root m) \<noteq> None"
  by auto

lemma iterate_ok:
  assumes s: "locked_trie_ok n A s" and i: "i < length (clients s)"
    and c: "client_ok n A (trie s) (Inserting key v d)" and t: "node_at (path key d) (root (trie s)) = Some t"
    and p: "path key d \<in> set (held (clients s ! i))"
    and q: "node_at (path key (d + 1)) (root (trie s)) = None \<or> free i (path key (d + 1)) s"
    and step: "iterate merge i key v d t s = (e, s')"
  shows "locked_trie_ok n A s' \<and> step_effect merge e (trie_map (trie s)) (trie_map (trie s'))
    \<and> ((e = Move i \<and> unat d < n \<and> clients s' = (clients s)[i := Inserting key v (d + 1)])
       \<or> (\<exists>w. e = Store i key v w \<and> clients s' = (clients s)[i := Inserted w]))"
proof -
  let ?p = "path key d" and ?q = "path key (d + 1)"
  have m: "handle_trie_ok n A (trie s)" using s by (simp add: locked_trie_ok_def)
  have k: "valid_key n A key" "unat d \<le> n" and ne: "is_leaf t \<longrightarrow> node_suffix t \<noteq> key"
    using c t by auto
  let ?m = "\<lambda>t'. (trie s)\<lparr>root := replace_at ?p t' (root (trie s))\<rparr>"
  obtain t' r where it: "insert_iteration merge key v d t = Inr (t', r)"
    and ok: "handle_trie_ok n A (?m t')" and keeps: "keeps_nodes {?p, ?q} (root (trie s)) (root (?m t'))"
    and res: "case r of
        None \<Rightarrow> trie_map (?m t') = trie_map (trie s)
          \<and> (\<exists>s. node_at ?q (root (?m t')) = Some s \<and> (is_leaf s \<longrightarrow> node_suffix s \<noteq> key))
      | Some w \<Rightarrow> w = combined merge (trie_map (trie s) key) v \<and> trie_map (?m t') = (trie_map (trie s))(key \<mapsto> w)"
    and d: "unat (d + 1) = Suc (unat d)" "unat (d + 1) \<le> n"
    using iteration_in_trie [OF m k t ne, of merge v] unfolding Let_def by blast
  have held: "r \<noteq> ?p \<and> r \<noteq> ?q" if j: "j < length (clients s)" "j \<noteq> i" "r \<in> set (held (clients s ! j))" for j r
  proof -
    have "set (held (clients s ! i)) \<inter> set (held (clients s ! j)) = {}"
      using s i j by (simp add: locked_trie_ok_def locks_ok_def)
    then have "r \<noteq> ?p" using j(3) p by auto
    moreover have "r \<noteq> ?q"
      using q held_exists [OF client_at [OF s j(1)] j(3)] free_disjoint [of i ?q s j] j by auto
    ultimately show ?thesis by blast
  qed
  have dne: "d + 1 \<noteq> 0" using d(1) by auto
  show ?thesis
  proof (cases r)
    case None
    then have s': "e = Move i" "s' = put i (Inserting key v (d + 1)) (s\<lparr>trie := ?m t'\<rparr>)"
      using step it by (simp_all add: iterate_def Let_def)
    have "client_ok n A (?m t') (Inserting key v (d + 1))" using res None k d by simp
    then have "locked_trie_ok n A s'"
      unfolding s'(2) using held dne None res
      by (intro locked_trie_okI [OF s i ok keeps]) auto
    with s' res None d show ?thesis by simp
  next
    case (Some w)
    then have s': "e = Store i key v w" "s' = put i (Inserted w) (s\<lparr>trie := ?m t'\<rparr>)"
      using step it by (simp_all add: iterate_def Let_def)
    have "locked_trie_ok n A s'"
      unfolding s'(2) using held Some res
      by (intro locked_trie_okI [OF s i ok keeps]) auto
    with s' res Some show ?thesis by simp
  qed
qed

lemma insert_step_waits:
  assumes s: "locked_trie_ok n A s" and i: "i < length (clients s)" and c: "clients s ! i = Inserting key v d"
    and child: "node_at (path key (d + 1)) (root (trie s)) \<noteq> None"
  shows "locked_trie_ok n A (put i (Waiting key v d) s)"
proof -
  have "client_ok n A (trie s) (Waiting key v d)"
    using client_at [OF s i] child unfolding c client_ok_inserting by simp
  moreover have "set (held (clients s ! i)) \<inter> set (held (clients s ! j)) = {}"
    if "j < length (clients s)" "j \<noteq> i" for j
    using s i that by (simp add: locked_trie_ok_def locks_ok_def)
  then have "set (held (Waiting key v d)) \<inter> set (held (clients s ! j)) = {}"
    if "j < length (clients s)" "j \<noteq> i" for j
    using that path_in_held [of key d v] unfolding c by (auto simp del: held.simps(1) path_in_held)
  ultimately show ?thesis by (intro locked_trie_ok_put [OF s i])
qed

definition inserts :: "string \<Rightarrow> 'v \<Rightarrow> u8 \<Rightarrow> 'v client \<Rightarrow> bool" where
  "inserts key v d c \<longleftrightarrow> c = Inserting key v d \<or> c = Waiting key v d"

lemma insert_step_loop:
  assumes s: "locked_trie_ok n A s" and i: "i < length (clients s)" and c: "inserts key v d (clients s ! i)"
    and step: "insert_step merge i (clients s ! i) s = Some (e, s')"
  shows "locked_trie_ok n A s' \<and> step_effect merge e (trie_map (trie s)) (trie_map (trie s'))
    \<and> ((e = Move i \<and> clients s ! i = Inserting key v d \<and> clients s' = (clients s)[i := Waiting key v d])
       \<or> (e = Move i \<and> unat d < n \<and> clients s' = (clients s)[i := Inserting key v (d + 1)])
       \<or> (\<exists>w. e = Store i key v w \<and> clients s' = (clients s)[i := Inserted w]))"
proof -
  have p: "path key d \<in> set (held (clients s ! i))" using c by (auto simp: inserts_def)
  have ok: "client_ok n A (trie s) (Inserting key v d)"
    using c client_at [OF s i] unfolding inserts_def by (metis client_ok_inserting)
  then obtain t where t: "node_at (path key d) (root (trie s)) = Some t" by auto
  consider (waits) "clients s ! i = Inserting key v d" "node_at (path key (d + 1)) (root (trie s)) \<noteq> None"
      "(e, s') = (Move i, put i (Waiting key v d) s)"
    | (iterates) "node_at (path key (d + 1)) (root (trie s)) = None \<or> free i (path key (d + 1)) s"
      "iterate merge i key v d t s = (e, s')"
    using c step t by (auto simp: inserts_def split: if_splits)
  then show ?thesis
  proof cases
    case waits
    with insert_step_waits [OF s i waits(1,2)] show ?thesis by simp
  next
    case iterates
    from iterate_ok [OF s i ok t p iterates] show ?thesis by blast
  qed
qed

section \<open>Lookups\<close>

lemma child_pointer_ok:
  assumes m: "handle_trie_ok n A m" and t: "node_at p (root m) = Some t" and u: "nth_child (node_children t) i = Some u"
  shows "pointer_ok m (pointer_to (p @ [i]) u)"
proof (cases "is_leaf u")
  case True
  have T: "trie_ok n A 0 (root m)" using m by (simp add: handle_trie_ok_def)
  have at: "node_at (p @ [i]) (root m) = Some u" using t u by (simp add: node_at_append)
  have ok: "trie_ok n A (length p + 1) u" "\<forall>k\<in>set (keys u). below 0 (p @ [i]) k"
    and mp: "\<forall>k. length k = n \<and> below 0 (p @ [i]) k \<longrightarrow> map_of (entries (root m)) k = map_of (entries u) k"
    using node_at_ok [OF T at] by auto
  obtain v sfx ss where eq: "u = TrieNode (replicate 16 None) (Some v) sfx ss" "ss > 0" "length sfx = n"
    using ok(1) True by (rule trie_ok_leaf)
  then have "trie_map m sfx = Some v"
    using ok(2) mp by (simp add: keys_def trie_map_def trie_entries_def)
  with True eq show ?thesis by (auto simp: pointer_to_def)
next
  case False
  with t u show ?thesis by (simp add: pointer_to_def is_leaf_def node_at_append)
qed

text \<open>
  Where \<open>lookup\<close> reads a child: no child means that the key is not there, and so does a leaf of another
  key; the keys below an inner child share one more character with the key.
\<close>

lemma lookup_child:
  assumes m: "handle_trie_ok n A m" and key: "valid_key n A key" and d: "unat d \<le> n"
    and t: "node_at (path key d) (root m) = Some t" "\<not> is_leaf t"
  shows "unat d < n \<and> unat (d + 1) = Suc (unat d) \<and> str_at key (unat d) = Inr (key ! unat d)
    \<and> (case nth_child (node_children t) (TLB (key ! unat d)) of
         None \<Rightarrow> trie_map m key = None
       | Some u \<Rightarrow>
           if is_leaf u
           then take (unat (d + 1)) (node_suffix u) = take (unat (d + 1)) key \<and> length (node_suffix u) = n
             \<and> (node_suffix u \<noteq> key \<longrightarrow> trie_map m key = None)
           else path key d @ [TLB (key ! unat d)] = path key (d + 1))"
proof -
  have len: "length key = n" "set key \<subseteq> A" using key by (auto simp: valid_key_def)
  have T: "trie_ok n A 0 (root m)" and inj: "inj_on TLB A" and n: "n \<le> 255"
    using m by (auto simp: handle_trie_ok_def)
  have may: "may_be_at n A key (unat d) t" using node_may_be_at [OF m key d t(1)] t(2) by simp
  have dn: "unat d < n" using may_be_at_depth [OF may len(1)] .
  have okt: "trie_ok n A (unat d) t" and agree: "\<forall>k\<in>set (keys t). take (unat d) k = take (unat d) key"
    using may by (simp_all add: may_be_at_def)
  obtain cs where cs: "t = TrieNode cs None [] 0" using okt t(2) by (rule trie_ok_inner)
  have mt: "trie_map m key = map_of (entries t) key"
    using node_at_ok [OF T t(1)] len dn by (simp add: trie_map_def trie_entries_def below_path)
  note inner = map_of_inner [OF okt [unfolded cs], of key]
  have "case nth_child (node_children t) (TLB (key ! unat d)) of
         None \<Rightarrow> trie_map m key = None
       | Some u \<Rightarrow>
           if is_leaf u
           then take (unat (d + 1)) (node_suffix u) = take (unat (d + 1)) key \<and> length (node_suffix u) = n
             \<and> (node_suffix u \<noteq> key \<longrightarrow> trie_map m key = None)
           else path key d @ [TLB (key ! unat d)] = path key (d + 1)"
  proof (cases "nth_child cs (TLB (key ! unat d))")
    case None
    with inner mt show ?thesis by (simp add: cs)
  next
    case (Some u)
    note ch = trie_ok_child [OF okt [unfolded cs] Some]
    have ag: "\<forall>k\<in>set (keys u). take (Suc (unat d)) k = take (Suc (unat d)) key"
      by (rule child_agree [OF okt [unfolded cs] inj len dn agree [unfolded cs] Some])
    show ?thesis
    proof (cases "is_leaf u")
      case True
      with ch obtain v sfx ss where eq: "u = TrieNode (replicate 16 None) (Some v) sfx ss" "ss > 0" "length sfx = n"
        by (auto elim: trie_ok_leaf)
      with ag Some inner mt True show ?thesis
        by (simp add: cs unat_next [OF dn n] keys_def)
    next
      case False
      with Some path_next [of d key] dn len n show ?thesis by (simp add: cs)
    qed
  qed
  with dn len show ?thesis by (simp add: unat_next [OF dn n])
qed

text \<open>A step of a lookup does not change the trie; what it tells about the key at this moment.\<close>

definition lookup_tells :: "string \<Rightarrow> 'v client \<Rightarrow> (string \<Rightarrow> 'v option) \<Rightarrow> 'v client \<Rightarrow> bool" where
  "lookup_tells key c m c' \<longleftrightarrow> (case c' of
      Looking k d p \<Rightarrow> k = key \<and> (case p of Inner q \<Rightarrow> True | Leaf l \<Rightarrow> l \<noteq> key \<longrightarrow> m key = None)
    | Found r \<Rightarrow> r = m key \<or> r = None \<and> (\<exists>d l. c = Looking key d (Leaf l) \<and> l \<noteq> key)
    | _ \<Rightarrow> False)"

lemma lookup_step_ok:
  assumes s: "locked_trie_ok n A s" and i: "i < length (clients s)" and c: "clients s ! i = c"
    and looks: "c = Lookup key \<or> c = Looking key d p" and step: "lookup_step i c s = Some (e, s')"
  shows "\<exists>c'. s' = put i c' s \<and> locked_trie_ok n A s' \<and> lookup_tells key c (trie_map (trie s)) c'
    \<and> (case c' of Found r \<Rightarrow> e = Answer i key r | _ \<Rightarrow> e = Move i)"
proof -
  have m: "handle_trie_ok n A (trie s)" using s by (simp add: locked_trie_ok_def)
  have ok: "client_ok n A (trie s) c" using client_at [OF s i] c by simp
  have put: "locked_trie_ok n A (put i c' s)" if "client_ok n A (trie s) c'" "held c' = []" for c'
    using that by (intro locked_trie_ok_put [OF s i]) simp_all
  consider (start) "c = Lookup key" | (inner) q where "c = Looking key d (Inner q)"
    | (leaf) k where "c = Looking key d (Leaf k)"
    using looks by (cases p) auto
  then show ?thesis
  proof cases
    case start
    then have k: "valid_key n A key" using ok by simp
    then have s': "e = Move i" "s' = put i (Looking key 0 (Inner [])) s"
      using step start check_valid_key [OF m k] by auto
    have "client_ok n A (trie s) (Looking key 0 (Inner []))"
      using k m by (simp add: handle_trie_ok_def)
    then show ?thesis using s' put by (auto simp: lookup_tells_def)
  next
    case (inner q)
    then obtain t where k: "valid_key n A key" "unat d \<le> n" "q = path key d"
      and t: "node_at (path key d) (root (trie s)) = Some t" "\<not> is_leaf t"
      using ok by auto
    note ch = lookup_child [OF m k(1,2) t]
    let ?c = "TLB (key ! unat d)"
    show ?thesis
    proof (cases "nth_child (node_children t) ?c")
      case None
      then have "e = Answer i key None" "s' = put i (Found None) s"
        using step inner k(3) t(1) ch by (auto split: if_splits)
      with None ch put [of "Found None"] show ?thesis by (auto simp: lookup_tells_def)
    next
      case (Some u)
      let ?c' = "Looking key (d + 1) (pointer_to (path key d @ [?c]) u)"
      have s': "e = Move i" "s' = put i ?c' s"
        using Some step inner k(3) t(1) ch by (auto split: if_splits)
      have p: "pointer_ok (trie s) (pointer_to (path key d @ [?c]) u)"
        by (rule child_pointer_ok [OF m t(1) Some])
      have "client_ok n A (trie s) ?c'"
      proof (cases "is_leaf u")
        case True
        with p k ch Some show ?thesis by (auto simp: pointer_to_def is_leaf_def)
      next
        case False
        with p k ch Some show ?thesis by (auto simp: pointer_to_def is_leaf_def)
      qed
      moreover have "lookup_tells key c (trie_map (trie s)) ?c'"
        using ch Some by (auto simp: lookup_tells_def pointer_to_def is_leaf_def)
      ultimately show ?thesis using s' put by auto
    qed
  next
    case (leaf k)
    then have k: "valid_key n A key" "unat d \<le> n" "k \<in> dom (trie_map (trie s))"
      "take (unat d) k = take (unat d) key" using ok by auto
    have "trie_ok n A 0 (root (trie s))" using m by (simp add: handle_trie_ok_def)
    from map_of_entries_length [OF this, of k] k(3) have "length k = n"
      by (cases "length k = n") (simp_all add: trie_map_def trie_entries_def dom_def)
    then have "suffix_match key k (unat d) = Inr (k = key)"
      using suffix_match_agree [of k key "unat d"] k by (simp add: valid_key_def)
    then have "s' = put i (Found (if k = key then trie_map (trie s) k else None)) s"
      "e = Answer i key (if k = key then trie_map (trie s) k else None)"
      using step leaf by (auto simp: Let_def split: if_splits)
    with put [of "Found (if k = key then trie_map (trie s) k else None)"] leaf show ?thesis
      by (auto simp: lookup_tells_def)
  qed
qed

section \<open>Traversals\<close>

lemma pointer_to_child [simp]: "pointer_to (p @ [i]) u \<noteq> Inner []"
  by (simp add: pointer_to_def)

lemma child_pointers_ok:
  assumes "handle_trie_ok n A m" and "node_at p (root m) = Some t"
  shows "\<forall>q\<in>set (child_pointers p t). pointer_ok m q \<and> q \<noteq> Inner []"
  using child_pointer_ok [OF assms] by (auto simp: child_pointers_def split: option.splits)

lemma traverse_step_ok:
  assumes s: "locked_trie_ok n A s" and i: "i < length (clients s)" and c: "clients s ! i = c"
    and step: "traverse_step i c s = Some (e, s')"
  shows "\<exists>c'. s' = put i c' s \<and> locked_trie_ok n A s' \<and> e = Move i
    \<and> (case c' of Traversing keep ps ks \<Rightarrow> True | Traversed ks \<Rightarrow> True | _ \<Rightarrow> False)"
proof -
  have m: "handle_trie_ok n A (trie s)" using s by (simp add: locked_trie_ok_def)
  have ok: "client_ok n A (trie s) c" using client_at [OF s i] c by simp
  have held: "set (held c) \<inter> set (held (clients s ! j)) = {}" if "j < length (clients s)" "j \<noteq> i" for j
    using s i c that by (auto simp: locked_trie_ok_def locks_ok_def)
  show ?thesis
  proof (cases c)
    case (Traverse keep)
    then have f: "free i [] s" "e = Move i" "s' = put i (Traversing keep (child_pointers [] (root (trie s))) []) s"
      using step by (auto split: if_splits)
    have "locked_trie_ok n A s'"
      unfolding f(3) using child_pointers_ok [OF m, of "[]" "root (trie s)"] free_disjoint [OF f(1)]
      by (intro locked_trie_ok_put [OF s i]) auto
    with f show ?thesis by auto
  next
    case (Traversing keep ps ks)
    have stay: "locked_trie_ok n A (put i (Traversing keep qs ls) s)" if "\<forall>q\<in>set qs. pointer_ok (trie s) q \<and> q \<noteq> Inner []" for qs ls
      using that held Traversing by (intro locked_trie_ok_put [OF s i]) auto
    have ptr: "\<forall>q\<in>set ps. pointer_ok (trie s) q \<and> q \<noteq> Inner []" using ok Traversing by simp
    show ?thesis
    proof (cases ps)
      case Nil
      then have f: "e = Move i" "s' = put i (Traversed ks) s" using step Traversing by auto
      have "locked_trie_ok n A s'" unfolding f(2) by (intro locked_trie_ok_put [OF s i]) simp_all
      with f show ?thesis by auto
    next
      case (Cons p qs)
      show ?thesis
      proof (cases p)
        case (Leaf k)
        then have "e = Move i" "s' = put i (Traversing keep qs (ks @ [k])) s"
          using step Traversing Cons by (auto split: if_splits)
        with stay ptr Cons show ?thesis by auto
      next
        case (Inner q)
        then obtain t where t: "node_at q (root (trie s)) = Some t" using ptr Cons by auto
        then have "e = Move i" "s' = put i (Traversing keep (child_pointers q t @ qs) ks) s"
          using step Traversing Cons Inner by (auto split: if_splits)
        moreover have "locked_trie_ok n A (put i (Traversing keep (child_pointers q t @ qs) ks) s)"
          using ptr Cons child_pointers_ok [OF m t] by (intro stay) auto
        ultimately show ?thesis by auto
      qed
    qed
  qed (use step in simp_all)
qed

section \<open>Steps\<close>

lemma client_step_ok:
  assumes s: "locked_trie_ok n A s" and step: "client_step merge i s = Some (e, s')"
  shows "locked_trie_ok n A s' \<and> step_effect merge e (trie_map (trie s)) (trie_map (trie s'))
    \<and> (\<exists>c. clients s' = (clients s)[i := c]) \<and> i < length (clients s)"
proof -
  have i: "i < length (clients s)" using step by (simp add: client_step_def split: if_splits)
  show ?thesis
  proof (cases "clients s ! i")
    case (Insert key v)
    with insert_step_start [OF s i Insert, of merge e s'] step i show ?thesis by (auto simp: client_step_def)
  next
    case (Inserting key v d)
    with insert_step_loop [OF s i, of key v d merge e s'] step i show ?thesis
      by (fastforce simp: client_step_def inserts_def simp del: insert_step.simps)
  next
    case (Waiting key v d)
    with insert_step_loop [OF s i, of key v d merge e s'] step i show ?thesis
      by (fastforce simp: client_step_def inserts_def simp del: insert_step.simps)
  next
    case (Lookup key)
    with lookup_step_ok [OF s i Lookup, of key] step i show ?thesis
      by (force simp: client_step_def lookup_tells_def simp del: lookup_step.simps split: client.splits)
  next
    case (Looking key d p)
    with lookup_step_ok [OF s i Looking, of key d p] step i show ?thesis
      by (force simp: client_step_def lookup_tells_def simp del: lookup_step.simps split: client.splits)
  qed (use traverse_step_ok [OF s i refl] step i in \<open>force simp: client_step_def simp del: traverse_step.simps\<close>)+
qed

end
