(* ===== verification/Trie_Linearizable.thy ===== *)
theory Trie_Linearizable
  imports Trie_Locks_Correct
begin

text \<open>
  The trie with its locks over all runs: insertions and lookups are linearizable, a traversal visits
  the keys that were there, and the locks never block all threads.
\<close>

section \<open>Runs\<close>

lemma trie_run_ok:
  assumes "trie_run merge s0 es s" and "locked_trie_ok n A s0"
  shows "locked_trie_ok n A s \<and> length (clients s) = length (clients s0)"
  using assms
proof (induction rule: trie_run.induct)
  case (trie_more es s' i e s'')
  with client_step_ok [of n A s' merge i e s''] show ?case by auto
qed simp

lemma trie_run_keys:
  assumes "trie_run merge s0 es s" and "locked_trie_ok n A s0"
  shows "dom (trie_map (trie s0)) \<subseteq> dom (trie_map (trie s))"
  using assms
proof (induction rule: trie_run.induct)
  case (trie_more es s' i e s'')
  have "locked_trie_ok n A s'" using trie_run_ok [OF trie_more.hyps(1) trie_more.prems] by simp
  with client_step_ok [OF _ trie_more.hyps(2)] have "step_effect merge e (trie_map (trie s')) (trie_map (trie s''))"
    by blast
  then have "dom (trie_map (trie s')) \<subseteq> dom (trie_map (trie s''))" by (cases e) auto
  with trie_more.IH [OF trie_more.prems] show ?case by blast
qed simp

lemma trie_run_append: "trie_run merge s es' s' \<Longrightarrow> trie_run merge s0 es s \<Longrightarrow> trie_run merge s0 (es @ es') s'"
  by (induction rule: trie_run.induct)
    (auto simp: append_assoc [symmetric] simp del: append_assoc intro: trie_run.intros)

lemma trie_schedule_run: "trie_schedule merge is s = Some (es, s') \<Longrightarrow> trie_run merge s es s'"
proof (induction "is" arbitrary: s es)
  case Nil
  then show ?case by (simp add: trie_run.trie_start)
next
  case (Cons i "is")
  then obtain e s1 es1 where 1: "client_step merge i s = Some (e, s1)" "trie_schedule merge is s1 = Some (es1, s')"
    "es = e # es1"
    by (auto split: option.splits)
  have "trie_run merge s ([] @ [e]) s1" by (rule trie_run.trie_more [OF trie_run.trie_start 1(1)])
  with trie_run_append [OF Cons.IH [OF 1(2)]] 1(3) show ?case by fastforce
qed

section \<open>Insertions\<close>

text \<open>The insertions of a run, in the order in which they take effect, and their results.\<close>

fun stored :: "'v trie_event list \<Rightarrow> (string \<times> 'v) list" where
  "stored [] = []"
| "stored (Store i key v w # es) = (key, v) # stored es"
| "stored (e # es) = stored es"

fun store_results :: "'v trie_event list \<Rightarrow> 'v list" where
  "store_results [] = []"
| "store_results (Store i key v w # es) = w # store_results es"
| "store_results (e # es) = store_results es"

definition stores_of :: "nat \<Rightarrow> 'v trie_event list \<Rightarrow> 'v trie_event list" where
  "stores_of i es = filter (\<lambda>e. case e of Store j key v w \<Rightarrow> j = i | _ \<Rightarrow> False) es"

text \<open>The same insertions one after the other, with their results.\<close>

fun insert_each :: "('m \<Rightarrow> 'k \<Rightarrow> 'v \<Rightarrow> ('m \<times> 'v) result) \<Rightarrow> 'm \<Rightarrow> ('k \<times> 'v) list \<Rightarrow> ('m \<times> 'v list) result" where
  "insert_each ins m [] = Inr (m, [])"
| "insert_each ins m ((k, v) # kvs) =
     and_then (ins m k v) (\<lambda>(m', w). and_then (insert_each ins m' kvs) (\<lambda>(m'', ws). Inr (m'', w # ws)))"

lemma insert_each_snoc:
  "insert_each ins m (kvs @ [(k, v)]) =
     and_then (insert_each ins m kvs) (\<lambda>(m', ws). and_then (ins m' k v) (\<lambda>(m'', w). Inr (m'', ws @ [w])))"
  by (induction ins m kvs rule: insert_each.induct) (auto simp: and_then_def split: sum.split prod.split)

lemma stored_append [simp]: "stored (es @ es') = stored es @ stored es'"
  by (induction es rule: stored.induct) simp_all

lemma store_results_append [simp]: "store_results (es @ es') = store_results es @ store_results es'"
  by (induction es rule: store_results.induct) simp_all

lemma client_step_store:
  assumes s: "locked_trie_ok n A s" and step: "client_step merge i s = Some (Store j key v w, s')"
  shows "j = i \<and> valid_key n A key \<and> (\<exists>d. inserts key v d (clients s ! i))
    \<and> clients s' = (clients s)[i := Inserted w]"
proof -
  have i: "i < length (clients s)" using step by (simp add: client_step_def split: if_splits)
  show ?thesis
  proof (cases "clients s ! i")
    case (Insert k x)
    with insert_step_start [OF s i Insert, of merge "Store j key v w" s'] step i show ?thesis
      by (simp add: client_step_def)
  next
    case (Inserting k x d)
    with client_at [OF s i] insert_step_loop [OF s i, of k x d merge "Store j key v w" s'] step i show ?thesis
      by (auto simp: client_step_def inserts_def simp del: insert_step.simps)
  next
    case (Waiting k x d)
    with client_at [OF s i] insert_step_loop [OF s i, of k x d merge "Store j key v w" s'] step i show ?thesis
      by (auto simp: client_step_def inserts_def simp del: insert_step.simps)
  next
    case (Lookup k)
    with lookup_step_ok [OF s i Lookup, of k undefined undefined "Store j key v w" s'] step i obtain c' where
      "case c' of Found r \<Rightarrow> Store j key v w = Answer i k r | _ \<Rightarrow> Store j key v w = Move i"
      by (auto simp: client_step_def simp del: lookup_step.simps)
    then show ?thesis by (cases c') simp_all
  next
    case (Looking k d p)
    with lookup_step_ok [OF s i Looking, of k d p "Store j key v w" s'] step i obtain c' where
      "case c' of Found r \<Rightarrow> Store j key v w = Answer i k r | _ \<Rightarrow> Store j key v w = Move i"
      by (auto simp: client_step_def simp del: lookup_step.simps)
    then show ?thesis by (cases c') simp_all
  qed (use traverse_step_ok [OF s i refl, of "Store j key v w" s'] step i in
      \<open>auto simp: client_step_def simp del: traverse_step.simps\<close>)
qed

lemma run_stores:
  assumes "trie_run merge s0 es s" and "locked_trie_ok n A s0"
  shows "\<exists>m. insert_each (trie_insert merge) (trie s0) (stored es) = Inr (m, store_results es)
    \<and> handle_trie_ok n A m \<and> trie_map m = trie_map (trie s)"
  using assms
proof (induction rule: trie_run.induct)
  case trie_start
  then show ?case by (simp add: locked_trie_ok_def)
next
  case (trie_more es s' i e s'')
  then obtain m where m: "insert_each (trie_insert merge) (trie s0) (stored es) = Inr (m, store_results es)"
    "handle_trie_ok n A m" "trie_map m = trie_map (trie s')" by blast
  have ok: "locked_trie_ok n A s'" using trie_run_ok [OF trie_more.hyps(1) trie_more.prems] by simp
  have eff: "step_effect merge e (trie_map (trie s')) (trie_map (trie s''))"
    using client_step_ok [OF ok trie_more.hyps(2)] by blast
  show ?case
  proof (cases e)
    case (Store j key v w)
    have "valid_key n A key" using client_step_store [OF ok, of merge i j key v w s''] trie_more.hyps(2) Store by simp
    with trie_insert_ok [OF m(2), of key merge v] obtain m' where
      "trie_insert merge m key v = Inr (m', w)" "handle_trie_ok n A m'" "trie_map m' = trie_map (trie s'')"
      using eff Store m(3) by auto
    with m(1) Store show ?thesis by (simp add: insert_each_snoc)
  qed (use m eff in auto)
qed
text \<open>One call of \<open>insert\<close>: it takes effect once, at its last step.\<close>

definition insert_call :: "nat \<Rightarrow> string \<Rightarrow> 'v \<Rightarrow> 'v client \<Rightarrow> 'v trie_event list \<Rightarrow> bool" where
  "insert_call i key v c es \<longleftrightarrow> (case c of
      Inserted w \<Rightarrow> stores_of i es = [Store i key v w]
    | Insert k x \<Rightarrow> (k, x) = (key, v) \<and> stores_of i es = []
    | Inserting k x d \<Rightarrow> (k, x) = (key, v) \<and> stores_of i es = []
    | Waiting k x d \<Rightarrow> (k, x) = (key, v) \<and> stores_of i es = []
    | _ \<Rightarrow> False)"

lemma client_step_frame:
  assumes s: "locked_trie_ok n A s" and step: "client_step merge j s = Some (e, s')" and i: "i \<noteq> j"
  shows "clients s' ! i = clients s ! i \<and> stores_of i [e] = []"
proof -
  have "stores_of i [e] = []"
  proof (cases e)
    case (Store k key v w)
    with client_step_store [OF s, of merge j k key v w s'] step i show ?thesis by (simp add: stores_of_def)
  qed (simp_all add: stores_of_def)
  with client_step_ok [OF s step] i show ?thesis by auto
qed

lemma client_step_insert_call:
  assumes s: "locked_trie_ok n A s" and step: "client_step merge i s = Some (e, s')"
    and c: "insert_call i key v (clients s ! i) es"
  shows "insert_call i key v (clients s' ! i) (es @ [e])"
proof -
  have i: "i < length (clients s)" using step by (simp add: client_step_def split: if_splits)
  show ?thesis
  proof (cases "clients s ! i")
    case (Insert k x)
    with insert_step_start [OF s i Insert, of merge e s'] step i c show ?thesis
      by (auto simp: client_step_def insert_call_def stores_of_def)
  next
    case (Inserting k x d)
    with insert_step_loop [OF s i, of k x d merge e s'] step i c show ?thesis
      by (auto simp: client_step_def insert_call_def stores_of_def inserts_def simp del: insert_step.simps)
  next
    case (Waiting k x d)
    with insert_step_loop [OF s i, of k x d merge e s'] step i c show ?thesis
      by (auto simp: client_step_def insert_call_def stores_of_def inserts_def simp del: insert_step.simps)
  qed (use c step i in \<open>auto simp: insert_call_def client_step_def\<close>)
qed

lemma run_insert_call:
  assumes "trie_run merge s0 es s" and "locked_trie_ok n A s0" and "clients s0 ! i = Insert key v"
  shows "insert_call i key v (clients s ! i) es"
  using assms
proof (induction rule: trie_run.induct)
  case trie_start
  then show ?case by (simp add: insert_call_def stores_of_def)
next
  case (trie_more es s' j e s'')
  have ok: "locked_trie_ok n A s'" using trie_run_ok [OF trie_more.hyps(1) trie_more.prems(1)] by simp
  note IH = trie_more.IH [OF trie_more.prems]
  show ?case
  proof (cases "j = i")
    case True
    with client_step_insert_call [OF ok _ IH] trie_more.hyps(2) show ?thesis by blast
  next
    case False
    with client_step_frame [OF ok trie_more.hyps(2)] have "clients s'' ! i = clients s' ! i"
      "stores_of i (es @ [e]) = stores_of i es" by (auto simp: stores_of_def)
    with IH show ?thesis by (cases "clients s' ! i") (simp_all add: insert_call_def)
  qed
qed

text \<open>
  C5. Insertions by several threads are linearizable: whatever the interleaving of their iterations,
  and whatever lookups and traversals run beside them, the trie holds what it would hold if the
  insertions had been made one after the other, in the order of their last iterations, and each
  returns what it would return then. No operation fails, and no mutex is held by two threads.
\<close>

theorem concurrent_inserts_linearizable:
  assumes "locked_trie_ok n A s0" and "trie_run merge s0 es s"
  shows "(\<exists>m. insert_each (trie_insert merge) (trie s0) (stored es) = Inr (m, store_results es)
      \<and> trie_map m = trie_map (trie s))
    \<and> (\<forall>i key v. clients s0 ! i = Insert key v \<longrightarrow> insert_call i key v (clients s ! i) es)
    \<and> (\<forall>e. Failed e \<notin> set (clients s))
    \<and> (\<forall>i j. i < length (clients s) \<and> j < length (clients s) \<and> i \<noteq> j \<longrightarrow>
        set (held (clients s ! i)) \<inter> set (held (clients s ! j)) = {})"
proof -
  have ok: "locked_trie_ok n A s" using trie_run_ok [OF assms(2,1)] by simp
  then have "Failed e \<notin> set (clients s)" for e by (auto simp: locked_trie_ok_def)
  moreover have "set (held (clients s ! i)) \<inter> set (held (clients s ! j)) = {}"
    if "i < length (clients s)" "j < length (clients s)" "i \<noteq> j" for i j
    using ok that by (simp add: locked_trie_ok_def locks_ok_def)
  ultimately show ?thesis
    using run_stores [OF assms(2,1)] run_insert_call [OF assms(2,1)] by blast
qed

section \<open>Lookups\<close>

text \<open>A call of \<open>lookup\<close> and the run since: a state in which the key had the value that is returned.\<close>

definition had_value :: "('v \<Rightarrow> 'v \<Rightarrow> 'v) \<Rightarrow> 'v locked_trie \<Rightarrow> 'v trie_event list \<Rightarrow> 'v locked_trie
    \<Rightarrow> string \<Rightarrow> 'v option \<Rightarrow> bool" where
  "had_value merge s0 es s key r \<longleftrightarrow>
     (\<exists>es1 es2 s1. es = es1 @ es2 \<and> trie_run merge s0 es1 s1 \<and> trie_run merge s1 es2 s \<and> trie_map (trie s1) key = r)"

lemma had_value_now: "trie_run merge s0 es s \<Longrightarrow> had_value merge s0 es s key (trie_map (trie s) key)"
  unfolding had_value_def by (metis append_Nil2 trie_run.trie_start)

lemma had_value_later:
  assumes "had_value merge s0 es s key r" and "client_step merge i s = Some (e, s')"
  shows "had_value merge s0 (es @ [e]) s' key r"
proof -
  obtain es1 es2 s1 where h: "es = es1 @ es2" "trie_run merge s0 es1 s1" "trie_run merge s1 es2 s"
    "trie_map (trie s1) key = r"
    using assms(1) by (auto simp: had_value_def)
  have "trie_run merge s1 (es2 @ [e]) s'" by (rule trie_run.trie_more [OF h(3) assms(2)])
  with h show ?thesis by (auto simp: had_value_def)
qed

definition lookup_call :: "('v \<Rightarrow> 'v \<Rightarrow> 'v) \<Rightarrow> 'v locked_trie \<Rightarrow> 'v trie_event list \<Rightarrow> 'v locked_trie
    \<Rightarrow> string \<Rightarrow> 'v client \<Rightarrow> bool" where
  "lookup_call merge s0 es s key c \<longleftrightarrow> (case c of
      Lookup k \<Rightarrow> k = key
    | Looking k d p \<Rightarrow> k = key \<and> (\<forall>l. p = Leaf l \<and> l \<noteq> key \<longrightarrow> had_value merge s0 es s key None)
    | Found r \<Rightarrow> had_value merge s0 es s key r
    | _ \<Rightarrow> False)"

lemma run_lookup_call:
  assumes "trie_run merge s0 es s" and "locked_trie_ok n A s0" and "clients s0 ! i = Lookup key"
  shows "lookup_call merge s0 es s key (clients s ! i)"
  using assms
proof (induction rule: trie_run.induct)
  case trie_start
  then show ?case by (simp add: lookup_call_def)
next
  case (trie_more es s' j e s'')
  have ok: "locked_trie_ok n A s'" using trie_run_ok [OF trie_more.hyps(1) trie_more.prems(1)] by simp
  note IH = trie_more.IH [OF trie_more.prems] and later = had_value_later [OF _ trie_more.hyps(2)]
  note now = later [OF had_value_now [OF trie_more.hyps(1)]]
  show ?case
  proof (cases "j = i")
    case False
    with client_step_frame [OF ok trie_more.hyps(2), of i] IH later show ?thesis
      by (auto simp: lookup_call_def split: client.splits)
  next
    case True
    with trie_more.hyps(2) have step: "client_step merge i s' = Some (e, s'')" by simp
    then have i: "i < length (clients s')" by (simp add: client_step_def split: if_splits)
    consider (start) "clients s' ! i = Lookup key" | (looking) d p where "clients s' ! i = Looking key d p"
      using IH step i by (cases "clients s' ! i") (auto simp: lookup_call_def client_step_def)
    then obtain c' where c': "s'' = put i c' s'" "lookup_tells key (clients s' ! i) (trie_map (trie s')) c'"
    proof cases
      case start
      with step i lookup_step_ok [OF ok i start, of key undefined undefined e s''] that show ?thesis
        by (auto simp: client_step_def simp del: lookup_step.simps)
    next
      case (looking d p)
      with step i lookup_step_ok [OF ok i looking, of key d p e s''] that show ?thesis
        by (auto simp: client_step_def simp del: lookup_step.simps)
    qed
    show ?thesis
    proof (cases c')
      case (Looking k d p)
      with c' i now [of key] show ?thesis by (cases p) (auto simp: lookup_tells_def lookup_call_def)
    next
      case (Found r)
      with c'(2) consider "r = trie_map (trie s') key"
        | d l where "r = None" "clients s' ! i = Looking key d (Leaf l)" "l \<noteq> key"
        by (auto simp: lookup_tells_def)
      then have "had_value merge s0 (es @ [e]) s'' key r"
      proof cases
        case 1
        with now show ?thesis by blast
      next
        case 2
        with IH later show ?thesis by (auto simp: lookup_call_def)
      qed
      with Found c'(1) i show ?thesis by (simp add: lookup_call_def)
    qed (use c'(2) in \<open>simp_all add: lookup_tells_def\<close>)
  qed
qed

text \<open>
  C6. Lookups are linearizable, although a lookup holds no mutex on its way from a node to its child,
  so that insertions can overtake it: what it returns is what its key had at some moment between its
  call and its return.
\<close>

theorem concurrent_lookup_linearizable:
  assumes "locked_trie_ok n A s0" and "trie_run merge s0 es s"
    and "clients s0 ! i = Lookup key" and "clients s ! i = Found r"
  shows "\<exists>es1 es2 s1. es = es1 @ es2 \<and> trie_run merge s0 es1 s1 \<and> trie_run merge s1 es2 s
    \<and> trie_map (trie s1) key = r"
  using run_lookup_call [OF assms(2,1,3)] assms(4) by (simp add: lookup_call_def had_value_def)

section \<open>No deadlock\<close>

fun returned :: "'v client \<Rightarrow> bool" where
  "returned (Inserted w) = True"
| "returned (Found r) = True"
| "returned (Traversed ks) = True"
| "returned (Failed e) = True"
| "returned c = False"

text \<open>The key cursors of the insertions that are under way.\<close>

fun cursor :: "'v client \<Rightarrow> nat option" where
  "cursor (Inserting key v d) = Some (unat d)"
| "cursor (Waiting key v d) = Some (unat d)"
| "cursor c = None"

lemma held_root:
  assumes "client_ok n A m c" and "cursor c = None" and "p \<in> set (held c)"
  shows "p = [] \<and> (\<exists>ps ks. c = Traversing True ps ks)"
  using assms by (cases c) (auto split: if_splits)

lemma held_length:
  assumes "client_ok n A m c" and "inserts key v d c" and "p \<in> set (held c)"
  shows "length p \<le> unat d"
proof -
  have "unat (d - 1) \<le> unat d" if "d \<noteq> 0" using that by (simp add: unat_minus_one)
  with assms show ?thesis by (auto simp: inserts_def length_path min_def split: if_splits)
qed

lemma cursor_inserts: "cursor c = Some e \<Longrightarrow> \<exists>key v d. inserts key v d c \<and> e = unat d"
  by (cases c) (auto simp: inserts_def)

text \<open>The insertion with the largest key cursor is not blocked.\<close>

lemma deepest_insert_moves:
  assumes s: "locked_trie_ok n A s" and i: "i < length (clients s)" and c: "inserts key v d (clients s ! i)"
    and deepest: "\<And>j e. j < length (clients s) \<Longrightarrow> cursor (clients s ! j) = Some e \<Longrightarrow> e \<le> unat d"
  shows "client_step merge i s \<noteq> None"
proof -
  have ok: "client_ok n A (trie s) (Inserting key v d)"
    using c client_at [OF s i] unfolding inserts_def by (metis client_ok_inserting)
  then obtain t where k: "valid_key n A key" "unat d \<le> n" and t: "node_at (path key d) (root (trie s)) = Some t"
    "is_leaf t \<longrightarrow> node_suffix t \<noteq> key" by auto
  have m: "handle_trie_ok n A (trie s)" using s by (simp add: locked_trie_ok_def)
  have d: "unat (d + 1) = Suc (unat d)" "unat (d + 1) \<le> n"
    using iteration_in_trie [OF m k t, of merge v] by blast+
  have "length (path key (d + 1)) = Suc (unat d)" using d k by (simp add: length_path valid_key_def)
  moreover have "length p \<le> unat d" if "j < length (clients s)" "p \<in> set (held (clients s ! j))" for j p
  proof (cases "cursor (clients s ! j)")
    case None
    from held_root [OF client_at [OF s that(1)] None that(2)] show ?thesis by simp
  next
    case (Some e)
    with cursor_inserts obtain k x d' where "inserts k x d' (clients s ! j)" "e = unat d'" by blast
    with held_length [OF client_at [OF s that(1)] _ that(2)] deepest [OF that(1) Some] show ?thesis
      by (metis le_trans)
  qed
  ultimately have "free i (path key (d + 1)) s" by (fastforce simp: free_def)
  with i c t(1) show ?thesis by (auto simp: client_step_def inserts_def)
qed

lemma root_not_leaf: "locked_trie_ok n A s \<Longrightarrow> \<not> leaf_at k (root (trie s)) []"
  by (simp add: locked_trie_ok_def handle_trie_ok_def leaf_at_def is_leaf_def)

text \<open>Without insertions under way, only a root can be locked, by a traversal.\<close>

lemma pointer_free_root:
  assumes s: "locked_trie_ok n A s" and held: "\<And>j p. j < length (clients s) \<Longrightarrow> j \<noteq> i \<Longrightarrow> p \<in> set (held (clients s ! j)) \<Longrightarrow> p = []"
    and q: "q \<noteq> Inner []"
  shows "pointer_free i q s"
proof (cases q)
  case (Inner p)
  with q held show ?thesis by (auto simp: free_def)
next
  case (Leaf k)
  with root_not_leaf [OF s, of k] held show ?thesis by (auto dest!: held)
qed

lemma suffix_match_defined:
  "length k = n \<Longrightarrow> length key = n \<Longrightarrow> d \<le> n \<Longrightarrow> \<exists>b. suffix_match key k d = Inr b"
  using suffix_match_eq [of k key d] by simp

lemma idle_client_moves:
  assumes s: "locked_trie_ok n A s" and i: "i < length (clients s)" and un: "\<not> returned (clients s ! i)"
    and no_insert: "\<And>j. j < length (clients s) \<Longrightarrow> cursor (clients s ! j) = None"
    and root_free: "(\<exists>ps ks. clients s ! i = Traversing True ps ks)
      \<or> (\<forall>j<length (clients s). \<nexists>ps ks. clients s ! j = Traversing True ps ks)"
  shows "client_step merge i s \<noteq> None"
proof -
  have m: "handle_trie_ok n A (trie s)" using s by (simp add: locked_trie_ok_def)
  note ok = client_at [OF s i]
  have held: "p = []" if "j < length (clients s)" "p \<in> set (held (clients s ! j))" for j p
    using held_root [OF client_at [OF s that(1)] no_insert [OF that(1)] that(2)] by simp
  have free: "free i [] s" if "\<not> (\<exists>ps ks. clients s ! i = Traversing True ps ks)"
  proof -
    have "\<forall>j<length (clients s). \<nexists>ps ks. clients s ! j = Traversing True ps ks" using root_free that by blast
    then have "[] \<notin> set (held (clients s ! j))" if "j < length (clients s)" for j
      using held_root [OF client_at [OF s that] no_insert [OF that]] that by blast
    then show ?thesis by (simp add: free_def)
  qed
  have ptr: "pointer_free i q s" if "q \<noteq> Inner []" for q
    by (rule pointer_free_root [OF s held that])
  show ?thesis
  proof (cases "clients s ! i")
    case (Insert key v)
    with i ok check_valid_key [OF m] free show ?thesis by (simp add: client_step_def)
  next
    case (Inserting key v d)
    with no_insert [OF i] show ?thesis by simp
  next
    case (Waiting key v d)
    with no_insert [OF i] show ?thesis by simp
  next
    case (Lookup key)
    with i ok check_valid_key [OF m] show ?thesis by (simp add: client_step_def)
  next
    case (Looking key d p)
    have f: "pointer_free i p s" using ptr [of p] free Looking by (cases "p = Inner []") simp_all
    show ?thesis
    proof (cases p)
      case (Inner q)
      with ok Looking obtain t where t: "valid_key n A key" "unat d \<le> n" "node_at (path key d) (root (trie s)) = Some t"
        "\<not> is_leaf t" "q = path key d" by auto
      with lookup_child [OF m t(1-4)] f i Looking Inner show ?thesis by (simp add: client_step_def)
    next
      case (Leaf k)
      have T: "trie_ok n A 0 (root (trie s))" using m by (simp add: handle_trie_ok_def)
      have "k \<in> dom (trie_map (trie s))" "valid_key n A key" "unat d \<le> n" using ok Looking Leaf by auto
      moreover from this map_of_entries_length [OF T, of k] have "length k = n"
        by (cases "length k = n") (simp_all add: trie_map_def trie_entries_def dom_def)
      ultimately obtain b where "suffix_match key k (unat d) = Inr b"
        using suffix_match_defined [of k n key "unat d"] by (auto simp: valid_key_def)
      with f i Looking Leaf show ?thesis by (simp add: client_step_def Let_def)
    qed
  next
    case (Traverse keep)
    with i free show ?thesis by (simp add: client_step_def)
  next
    case (Traversing keep ps ks)
    show ?thesis
    proof (cases ps)
      case Nil
      with i Traversing show ?thesis by (simp add: client_step_def)
    next
      case (Cons p qs)
      with ok Traversing have p: "pointer_ok (trie s) p" "p \<noteq> Inner []" by auto
      with ptr [OF p(2)] i Traversing Cons show ?thesis
        by (cases p) (auto simp: client_step_def simp del: pointer_free.simps(2))
    qed
  qed (use un in simp_all)
qed

lemma some_client_moves:
  assumes s: "locked_trie_ok n A s" and i: "i < length (clients s)" "\<not> returned (clients s ! i)"
  shows "\<exists>j. client_step merge j s \<noteq> None"
proof (cases "\<exists>j<length (clients s). cursor (clients s ! j) \<noteq> None")
  case True
  let ?D = "{e. \<exists>j<length (clients s). cursor (clients s ! j) = Some e}"
  have "?D \<subseteq> (\<lambda>j. the (cursor (clients s ! j))) ` {..<length (clients s)}" by force
  then have fin: "finite ?D" by (rule finite_subset) simp
  have "?D \<noteq> {}" using True by auto
  with fin have "Max ?D \<in> ?D" by (rule Max_in)
  then obtain j where j: "j < length (clients s)" "cursor (clients s ! j) = Some (Max ?D)" by blast
  from cursor_inserts [OF j(2)] obtain key v d where c: "inserts key v d (clients s ! j)" "Max ?D = unat d" by blast
  have "client_step merge j s \<noteq> None"
    by (rule deepest_insert_moves [OF s j(1) c(1)]) (use fin c(2) [symmetric] in \<open>auto intro!: Max_ge\<close>)
  then show ?thesis by blast
next
  case False
  then have none: "cursor (clients s ! j) = None" if "j < length (clients s)" for j using that by blast
  show ?thesis
  proof (cases "\<exists>j<length (clients s). \<exists>ps ks. clients s ! j = Traversing True ps ks")
    case True
    then obtain j ps ks where j: "j < length (clients s)" "clients s ! j = Traversing True ps ks" by blast
    have "client_step merge j s \<noteq> None"
      by (rule idle_client_moves [OF s j(1) _ none]) (use j(2) in simp_all)
    then show ?thesis by blast
  next
    case False
    have "client_step merge i s \<noteq> None"
      by (rule idle_client_moves [OF s i none]) (use False in blast)+
    then show ?thesis by blast
  qed
qed

text \<open>The number of steps that a call still takes, without traversals.\<close>

fun call_cost :: "nat \<Rightarrow> 'v client \<Rightarrow> nat" where
  "call_cost n (Insert key v) = 2 * n + 3"
| "call_cost n (Inserting key v d) = 2 * (n - unat d) + 2"
| "call_cost n (Waiting key v d) = 2 * (n - unat d) + 1"
| "call_cost n (Lookup key) = n + 2"
| "call_cost n (Looking key d p) = Suc n - unat d"
| "call_cost n c = 0"

fun traverses :: "'v client \<Rightarrow> bool" where
  "traverses (Traverse keep) = True"
| "traverses (Traversing keep ps ks) = True"
| "traverses c = False"

definition calls_cost :: "nat \<Rightarrow> 'v locked_trie \<Rightarrow> nat" where
  "calls_cost n s = (\<Sum>c\<leftarrow>clients s. call_cost n c)"

lemma calls_cost_update:
  assumes "i < length (clients s)" and "clients s' = (clients s)[i := c]"
    and "call_cost n c < call_cost n (clients s ! i)"
  shows "calls_cost n s' < calls_cost n s"
proof -
  have "sum_list ((map (call_cost n) (clients s))[i := call_cost n c]) + map (call_cost n) (clients s) ! i
      = sum_list (map (call_cost n) (clients s)) + call_cost n c"
    using assms(1) by (intro sum_list_swap) simp
  with assms show ?thesis by (simp add: calls_cost_def map_update)
qed

lemma client_step_cost:
  assumes s: "locked_trie_ok n A s" and step: "client_step merge i s = Some (e, s')"
    and no: "\<forall>c\<in>set (clients s). \<not> traverses c"
  shows "calls_cost n s' < calls_cost n s \<and> (\<forall>c\<in>set (clients s'). \<not> traverses c)"
proof -
  have i: "i < length (clients s)" using step by (simp add: client_step_def split: if_splits)
  have nt: "\<not> traverses (clients s ! i)" using no i by simp
  obtain c where c: "clients s' = (clients s)[i := c]" "\<not> traverses c" "call_cost n c < call_cost n (clients s ! i)"
  proof (cases "clients s ! i")
    case (Insert key v)
    with insert_step_start [OF s i Insert, of merge e s'] step i that show ?thesis
      by (simp add: client_step_def)
  next
    case (Inserting key v d)
    have "unat d < n \<Longrightarrow> unat (d + 1) = Suc (unat d)"
      using s unat_next [of d n] by (simp add: locked_trie_ok_def handle_trie_ok_def)
    then show ?thesis
      using insert_step_loop [OF s i, of key v d merge e s'] step i that Inserting
      by (auto simp: client_step_def inserts_def simp del: insert_step.simps)
  next
    case (Waiting key v d)
    have "unat d < n \<Longrightarrow> unat (d + 1) = Suc (unat d)"
      using s unat_next [of d n] by (simp add: locked_trie_ok_def handle_trie_ok_def)
    then show ?thesis
      using insert_step_loop [OF s i, of key v d merge e s'] step i that Waiting
      by (auto simp: client_step_def inserts_def simp del: insert_step.simps)
  next
    case (Lookup key)
    then obtain c' where c': "s' = put i c' s" "lookup_tells key (clients s ! i) (trie_map (trie s)) c'"
      "lookup_step i (Lookup key) s = Some (e, s')"
      using lookup_step_ok [OF s i Lookup, of key undefined undefined e s'] step i
      by (auto simp: client_step_def simp del: lookup_step.simps)
    have "s' = put i (Looking key 0 (Inner [])) s"
      using c'(3) check_valid_key [of n A "trie s" key] client_at [OF s i] Lookup s
      by (auto simp: locked_trie_ok_def split: sum.splits)
    with Lookup i that show ?thesis by simp
  next
    case (Looking key d p)
    have ok: "client_ok n A (trie s) (Looking key d p)" using client_at [OF s i] Looking by simp
    then have d: "unat d \<le> n" by (cases p) simp_all
    have st: "lookup_step i (Looking key d p) s = Some (e, s')"
      using step i Looking by (simp add: client_step_def del: lookup_step.simps)
    obtain c' where c': "s' = put i c' s" "lookup_tells key (Looking key d p) (trie_map (trie s)) c'"
      using lookup_step_ok [OF s i Looking, of key d p e s'] st by blast
    show ?thesis
    proof (cases c')
      case (Found r)
      with c' Looking d i that show ?thesis by simp
    next
      case (Looking k e' q)
      show ?thesis
      proof (cases p)
        case (Inner p')
        with ok obtain t where t: "valid_key n A key" "unat d \<le> n" "node_at (path key d) (root (trie s)) = Some t"
          "\<not> is_leaf t" "p' = path key d" by auto
        have m: "handle_trie_ok n A (trie s)" using s by (simp add: locked_trie_ok_def)
        note ch = lookup_child [OF m t(1-4)]
        have "c' = Looking key (d + 1) q"
          using st Inner t ch c'(1) Looking i
          by (auto simp: put_def split: if_splits option.splits dest!: arg_cong [where f = "\<lambda>s. clients s ! i"])
        with ch c'(1) \<open>clients s ! i = Looking key d p\<close> i d show ?thesis
          by (intro that [of "Looking key (d + 1) q"]) (simp_all add: Suc_diff_le)
      next
        case (Leaf l)
        with st c'(1) Looking i show ?thesis
          by (auto simp: put_def Let_def split: if_splits sum.splits dest!: arg_cong [where f = "\<lambda>s. clients s ! i"])
      qed
    qed (use c'(2) in \<open>simp_all add: lookup_tells_def\<close>)
  qed (use nt step i in \<open>simp_all add: client_step_def\<close>)
  have "\<forall>c\<in>set (clients s'). \<not> traverses c"
    using no c(1,2) set_update_subset_insert [of "clients s" i c] by auto
  with calls_cost_update [OF i c(1,3)] show ?thesis by blast
qed

lemma run_cost:
  assumes "trie_run merge s0 es s" and "locked_trie_ok n A s0" and "\<forall>c\<in>set (clients s0). \<not> traverses c"
  shows "calls_cost n s + length es \<le> calls_cost n s0 \<and> (\<forall>c\<in>set (clients s). \<not> traverses c)"
  using assms
proof (induction rule: trie_run.induct)
  case (trie_more es s' i e s'')
  have "locked_trie_ok n A s'" using trie_run_ok [OF trie_more.hyps(1) trie_more.prems(1)] by simp
  from client_step_cost [OF this trie_more.hyps(2)] trie_more.IH [OF trie_more.prems] show ?case by simp
qed simp

lemma calls_cost_bound: "calls_cost n s \<le> (2 * n + 3) * length (clients s)"
proof -
  have "call_cost n c \<le> 2 * n + 3" for c :: "'v client" by (cases c) auto
  then have "(\<Sum>c\<leftarrow>cs. call_cost n c) \<le> (\<Sum>c\<leftarrow>cs. 2 * n + 3)" for cs :: "'v client list"
    by (intro sum_list_mono)
  then have "(\<Sum>c\<leftarrow>cs. call_cost n c) \<le> (2 * n + 3) * length cs" for cs :: "'v client list"
    by (simp add: sum_list_triv mult.commute)
  then show ?thesis by (simp add: calls_cost_def)
qed

text \<open>
  C8. The mutexes never block all threads: as long as an operation has not returned, some thread can
  make its next step, traversals included; and insertions and lookups of keys of \<open>n\<close> characters
  all return after at most \<open>2 * n + 3\<close> steps each.
\<close>

theorem locks_never_block:
  assumes "locked_trie_ok n A s0" and "trie_run merge s0 es s"
  shows "((\<exists>c\<in>set (clients s). \<not> returned c) \<longrightarrow> (\<exists>i e s'. client_step merge i s = Some (e, s')))
    \<and> ((\<forall>c\<in>set (clients s0). \<not> traverses c) \<longrightarrow> length es \<le> (2 * n + 3) * length (clients s0))"
proof -
  have ok: "locked_trie_ok n A s" using trie_run_ok [OF assms(2,1)] by simp
  have "\<exists>i e s'. client_step merge i s = Some (e, s')" if "\<exists>c\<in>set (clients s). \<not> returned c"
    using that some_client_moves [OF ok, of _ merge] by (fastforce simp: in_set_conv_nth)
  moreover have "length es \<le> (2 * n + 3) * length (clients s0)" if "\<forall>c\<in>set (clients s0). \<not> traverses c"
    using run_cost [OF assms(2,1) that] calls_cost_bound [of n s0] by linarith
  ultimately show ?thesis by blast
qed

section \<open>Traversals beside insertions\<close>

text \<open>
  The keys that a pointer on the stack leads to: the one of a leaf, or the ones with the codes of the
  path of an inner node, now or after insertions.
\<close>

fun leads_to :: "pointer \<Rightarrow> string \<Rightarrow> bool" where
  "leads_to (Inner p) k \<longleftrightarrow> below 0 p k"
| "leads_to (Leaf l) k \<longleftrightarrow> k = l"

definition apart :: "nat \<Rightarrow> pointer \<Rightarrow> pointer \<Rightarrow> bool" where
  "apart n p q \<longleftrightarrow> (\<forall>k. length k = n \<longrightarrow> \<not> (leads_to p k \<and> leads_to q k))"

definition visit_ok :: "nat \<Rightarrow> string set \<Rightarrow> (string \<Rightarrow> 'v option) \<Rightarrow> pointer list \<Rightarrow> string list \<Rightarrow> bool" where
  "visit_ok n K m ps ks \<longleftrightarrow> distinct ks \<and> set ks \<subseteq> dom m \<and> K \<subseteq> dom m
     \<and> (\<forall>k\<in>K. k \<in> set ks \<or> (\<exists>p\<in>set ps. leads_to p k))
     \<and> (\<forall>k\<in>set ks. \<forall>p\<in>set ps. \<not> leads_to p k) \<and> sorted_wrt (apart n) ps"

lemma below_snoc: "length p < length k \<Longrightarrow> below 0 (p @ [i]) k \<longleftrightarrow> below 0 p k \<and> TLB (k ! length p) = i"
  by (auto simp: below_def codes_def take_Suc_conv_app_nth)

lemma pointer_to_leads:
  assumes m: "handle_trie_ok n A m" and t: "node_at p (root m) = Some t" and u: "nth_child (node_children t) i = Some u"
    and k: "leads_to (pointer_to (p @ [i]) u) k"
  shows "below 0 (p @ [i]) k"
proof (cases "is_leaf u")
  case False
  with k show ?thesis by (simp add: pointer_to_def is_leaf_def)
next
  case True
  have T: "trie_ok n A 0 (root m)" using m by (simp add: handle_trie_ok_def)
  have at: "node_at (p @ [i]) (root m) = Some u" using t u by (simp add: node_at_append)
  note ok = node_at_ok [OF T at]
  then obtain v sfx ss where eq: "u = TrieNode (replicate 16 None) (Some v) sfx ss" "ss > 0"
    using trie_ok_leaf [OF _ True] by metis
  with ok have "below 0 (p @ [i]) sfx" by (simp add: keys_def)
  with k eq show ?thesis by (simp add: pointer_to_def)
qed

lemma child_depth:
  assumes "handle_trie_ok n A m" and "node_at p (root m) = Some t" and "nth_child (node_children t) i = Some u"
  shows "length p < n"
proof -
  have "trie_ok n A 0 (root m)" using assms(1) by (simp add: handle_trie_ok_def)
  with node_at_ok [OF this assms(2)] trie_ok_children [of n A "length p" t i u] assms(3) show ?thesis by simp
qed

text \<open>The children of an inner node lead to all keys stored below it, each to its own.\<close>

definition child_pointer :: "nat list \<Rightarrow> 'v trie_node \<Rightarrow> nat \<Rightarrow> pointer list" where
  "child_pointer p t i = (case nth_child (node_children t) i of None \<Rightarrow> [] | Some u \<Rightarrow> [pointer_to (p @ [i]) u])"

lemma in_child_pointer:
  "q \<in> set (child_pointer p t i) \<longleftrightarrow> (\<exists>u. nth_child (node_children t) i = Some u \<and> q = pointer_to (p @ [i]) u)"
  by (cases "nth_child (node_children t) i") (auto simp: child_pointer_def)

lemma child_pointers_concat: "child_pointers p t = concat (map (child_pointer p t) [0..<TRIE_ALPHABET_SIZE])"
  by (simp add: child_pointers_def child_pointer_def [abs_def])

lemma child_pointer_leads:
  assumes m: "handle_trie_ok n A m" and t: "node_at p (root m) = Some t" and q: "q \<in> set (child_pointer p t i)"
    and k: "leads_to q k" "length k = n"
  shows "below 0 p k \<and> TLB (k ! length p) = i"
proof -
  obtain u where iu: "nth_child (node_children t) i = Some u" "q = pointer_to (p @ [i]) u"
    using q by (auto simp: in_child_pointer)
  with pointer_to_leads [OF m t iu(1)] below_snoc [of p k i] child_depth [OF m t iu(1)] k show ?thesis by simp
qed

lemma child_pointers_leads:
  assumes "handle_trie_ok n A m" and "node_at p (root m) = Some t" and "q \<in> set (child_pointers p t)"
    and "leads_to q k" and "length k = n"
  shows "below 0 p k"
proof -
  obtain i where "q \<in> set (child_pointer p t i)" using assms(3) by (auto simp: child_pointers_concat)
  from child_pointer_leads [OF assms(1,2) this assms(4,5)] show ?thesis by simp
qed

lemma child_pointers_cover:
  assumes m: "handle_trie_ok n A m" and t: "node_at p (root m) = Some t"
    and k: "k \<in> dom (trie_map m)" "below 0 p k" and nl: "\<not> is_leaf t"
  shows "\<exists>q\<in>set (child_pointers p t). leads_to q k"
proof -
  have T: "trie_ok n A 0 (root m)" using m by (simp add: handle_trie_ok_def)
  have len: "length k = n"
    using k(1) map_of_entries_length [OF T, of k] by (cases "length k = n") (simp_all add: trie_map_def trie_entries_def dom_def)
  note at = node_at_ok [OF T t]
  then have okt: "trie_ok n A (length p) t" by simp
  obtain cs where cs: "t = TrieNode cs None [] 0" using okt nl by (rule trie_ok_inner)
  have "map_of (entries t) k \<noteq> None" using at k len by (auto simp: trie_map_def trie_entries_def)
  with map_of_inner [OF okt [unfolded cs], of k] obtain u where
    u: "nth_child cs (TLB (k ! length p)) = Some u" "map_of (entries u) k \<noteq> None"
    by (auto simp: cs split: option.splits)
  have u': "nth_child (node_children t) (TLB (k ! length p)) = Some u" using u(1) cs by simp
  have "leads_to (pointer_to (p @ [TLB (k ! length p)]) u) k"
  proof (cases "is_leaf u")
    case True
    with trie_ok_children [OF okt u'] obtain v sfx ss where
      "u = TrieNode (replicate 16 None) (Some v) sfx ss" "ss > 0" using trie_ok_leaf by metis
    with u(2) show ?thesis by (simp add: pointer_to_def split: if_splits)
  next
    case False
    with below_snoc [of p k] child_depth [OF m t u'] k(2) len show ?thesis
      by (simp add: pointer_to_def is_leaf_def)
  qed
  moreover have "pointer_to (p @ [TLB (k ! length p)]) u \<in> set (child_pointers p t)"
    using u' TLB_less [of "k ! length p"]
    by (auto simp: child_pointers_concat in_child_pointer TRIE_ALPHABET_SIZE_def
        intro!: bexI [of _ "TLB (k ! length p)"])
  ultimately show ?thesis by blast
qed

lemma child_pointers_apart:
  assumes m: "handle_trie_ok n A m" and t: "node_at p (root m) = Some t"
  shows "sorted_wrt (apart n) (child_pointers p t)"
proof -
  have apart: "apart n q q'" if "q \<in> set (child_pointer p t i)" "q' \<in> set (child_pointer p t j)" "i \<noteq> j" for q q' i j
    using child_pointer_leads [OF m t that(1)] child_pointer_leads [OF m t that(2)] that(3)
    by (auto simp: apart_def)
  have "sorted_wrt (apart n) (concat (map (child_pointer p t) is))" if "distinct is" for "is"
    using that
  proof (induction "is")
    case (Cons i "is")
    have "sorted_wrt (apart n) (child_pointer p t i)" by (auto simp: child_pointer_def split: option.split)
    moreover have "apart n q q'" if q: "q \<in> set (child_pointer p t i)" "q' \<in> set (concat (map (child_pointer p t) is))"
      for q q'
    proof -
      obtain j where "j \<in> set is" "q' \<in> set (child_pointer p t j)" using q(2) by auto
      with q(1) Cons.prems show ?thesis by (intro apart) auto
    qed
    ultimately show ?case using Cons by (simp add: sorted_wrt_append)
  qed simp
  then show ?thesis by (simp add: child_pointers_concat)
qed

lemma visit_ok_mono: "visit_ok n K m ps ks \<Longrightarrow> dom m \<subseteq> dom m' \<Longrightarrow> visit_ok n K m' ps ks"
  unfolding visit_ok_def by blast

lemma trie_map_length: "handle_trie_ok n A m \<Longrightarrow> k \<in> dom (trie_map m) \<Longrightarrow> length k = n"
  using map_of_entries_length [of n A 0 "root m" k]
  by (cases "length k = n") (auto simp: handle_trie_ok_def trie_map_def trie_entries_def)

lemma visit_start:
  assumes m: "handle_trie_ok n A m"
  shows "visit_ok n (dom (trie_map m)) (trie_map m) (child_pointers [] (root m)) []"
proof -
  have nl: "\<not> is_leaf (root m)" using m by (simp add: handle_trie_ok_def)
  have "\<exists>q\<in>set (child_pointers [] (root m)). leads_to q k" if "k \<in> dom (trie_map m)" for k
    by (rule child_pointers_cover [OF m _ that _ nl]) (simp_all add: below_def codes_def)
  with child_pointers_apart [OF m, of "[]" "root m"] show ?thesis by (simp add: visit_ok_def)
qed

lemma visit_leaf:
  assumes m: "handle_trie_ok n A m" and v: "visit_ok n K (trie_map m) (Leaf k # ps) ks" and k: "k \<in> dom (trie_map m)"
  shows "visit_ok n K (trie_map m) ps (ks @ [k])"
proof -
  have "length k = n" by (rule trie_map_length [OF m k])
  with v have "\<not> leads_to p k" if "p \<in> set ps" for p using that by (auto simp: visit_ok_def apart_def)
  with v k show ?thesis by (auto simp: visit_ok_def)
qed

lemma visit_inner:
  assumes m: "handle_trie_ok n A m" and v: "visit_ok n K (trie_map m) (Inner p # ps) ks"
    and t: "node_at p (root m) = Some t" and nl: "\<not> is_leaf t"
  shows "visit_ok n K (trie_map m) (child_pointers p t @ ps) ks"
proof -
  note len = trie_map_length [OF m]
  have sub: "leads_to (Inner p) k" if "q \<in> set (child_pointers p t)" "leads_to q k" "length k = n" for q k
    using child_pointers_leads [OF m t that] by simp
  have "apart n q r" if "q \<in> set (child_pointers p t)" "r \<in> set ps" for q r
    using v sub [OF that(1)] that(2) unfolding apart_def visit_ok_def by (auto simp: apart_def simp del: leads_to.simps)
  moreover have "\<not> leads_to q k" if "k \<in> set ks" "q \<in> set (child_pointers p t)" for q k
  proof -
    have "k \<in> dom (trie_map m)" "\<not> leads_to (Inner p) k" using v that(1) by (auto simp: visit_ok_def)
    with sub [OF that(2)] len show ?thesis by blast
  qed
  moreover have "k \<in> set ks \<or> (\<exists>q\<in>set (child_pointers p t @ ps). leads_to q k)" if k: "k \<in> K" for k
  proof -
    have d: "k \<in> dom (trie_map m)" using v k by (auto simp: visit_ok_def)
    have "\<exists>q\<in>set (child_pointers p t). leads_to q k" if "leads_to (Inner p) k"
      by (rule child_pointers_cover [OF m t d _ nl]) (use that in simp)
    with v k show ?thesis by (fastforce simp: visit_ok_def simp del: leads_to.simps)
  qed
  ultimately show ?thesis
    using v child_pointers_apart [OF m t] by (auto simp: visit_ok_def sorted_wrt_append)
qed

definition traverse_call :: "nat \<Rightarrow> string set \<Rightarrow> (string \<Rightarrow> 'v option) \<Rightarrow> 'v client \<Rightarrow> bool" where
  "traverse_call n K m c \<longleftrightarrow> (case c of
      Traverse keep \<Rightarrow> K \<subseteq> dom m
    | Traversing keep ps ks \<Rightarrow> visit_ok n K m ps ks
    | Traversed ks \<Rightarrow> visit_ok n K m [] ks
    | _ \<Rightarrow> False)"

lemma traverse_call_mono: "traverse_call n K m c \<Longrightarrow> dom m \<subseteq> dom m' \<Longrightarrow> traverse_call n K m' c"
  using visit_ok_mono [of n K m _ _ m'] by (cases c) (auto simp: traverse_call_def)

lemma visit_ok_fewer: "visit_ok n K m ps ks \<Longrightarrow> K' \<subseteq> K \<Longrightarrow> visit_ok n K' m ps ks"
  by (auto simp: visit_ok_def)

lemma client_step_traverse_call:
  assumes s: "locked_trie_ok n A s" and step: "client_step merge i s = Some (e, s')"
    and c: "traverse_call n K (trie_map (trie s)) (clients s ! i)"
  shows "traverse_call n K (trie_map (trie s')) (clients s' ! i)"
proof -
  have m: "handle_trie_ok n A (trie s)" using s by (simp add: locked_trie_ok_def)
  have i: "i < length (clients s)" using step by (simp add: client_step_def split: if_splits)
  show ?thesis
  proof (cases "clients s ! i")
    case (Traverse keep)
    with c have "K \<subseteq> dom (trie_map (trie s))" by (simp add: traverse_call_def)
    with visit_start [OF m] have "visit_ok n K (trie_map (trie s)) (child_pointers [] (root (trie s))) []"
      by (rule visit_ok_fewer)
    with step i Traverse show ?thesis by (auto simp: client_step_def traverse_call_def split: if_splits)
  next
    case (Traversing keep ps ks)
    with c have v: "visit_ok n K (trie_map (trie s)) ps ks" by (simp add: traverse_call_def)
    have ptr: "\<forall>p\<in>set ps. pointer_ok (trie s) p" using client_at [OF s i] Traversing by simp
    show ?thesis
    proof (cases ps)
      case Nil
      with step i Traversing v show ?thesis by (auto simp: client_step_def traverse_call_def)
    next
      case (Cons p qs)
      show ?thesis
      proof (cases p)
        case (Leaf k)
        with ptr Cons have "k \<in> dom (trie_map (trie s))" by simp
        with visit_leaf [OF m v [unfolded Cons Leaf]] step i Traversing Cons Leaf show ?thesis
          by (auto simp: client_step_def traverse_call_def split: if_splits)
      next
        case (Inner q)
        with ptr Cons obtain t where t: "node_at q (root (trie s)) = Some t" "\<not> is_leaf t" by auto
        with visit_inner [OF m v [unfolded Cons Inner] t] step i Traversing Cons Inner show ?thesis
          by (auto simp: client_step_def traverse_call_def split: if_splits)
      qed
    qed
  qed (use c in \<open>simp_all add: traverse_call_def\<close>, use step i in \<open>simp_all add: client_step_def\<close>)
qed

lemma run_traverse_call:
  assumes "trie_run merge s0 es s" and "locked_trie_ok n A s0" and "clients s0 ! i = Traverse keep"
  shows "traverse_call n (dom (trie_map (trie s0))) (trie_map (trie s)) (clients s ! i)"
  using assms
proof (induction rule: trie_run.induct)
  case trie_start
  then show ?case by (simp add: traverse_call_def)
next
  case (trie_more es s' j e s'')
  have ok: "locked_trie_ok n A s'" using trie_run_ok [OF trie_more.hyps(1) trie_more.prems(1)] by simp
  note IH = trie_more.IH [OF trie_more.prems]
  show ?case
  proof (cases "j = i")
    case True
    with client_step_traverse_call [OF ok _ IH] trie_more.hyps(2) show ?thesis by blast
  next
    case False
    then have "clients s'' ! i = clients s' ! i" using client_step_frame [OF ok trie_more.hyps(2), of i] by simp
    moreover have "trie_run merge s' ([] @ [e]) s''"
      by (rule trie_run.trie_more [OF trie_run.trie_start trie_more.hyps(2)])
    then have "dom (trie_map (trie s')) \<subseteq> dom (trie_map (trie s''))" by (rule trie_run_keys [OF _ ok])
    ultimately show ?thesis using traverse_call_mono [OF IH] by simp
  qed
qed

text \<open>
  C7. A traversal beside insertions visits each key that the trie held when it was called, and no key
  twice; a key that it visits beside those has been inserted meanwhile.
\<close>

theorem concurrent_traversal_visits:
  assumes "locked_trie_ok n A s0" and "trie_run merge s0 es s"
    and "clients s0 ! i = Traverse keep" and "clients s ! i = Traversed ks"
  shows "distinct ks \<and> dom (trie_map (trie s0)) \<subseteq> set ks \<and> set ks \<subseteq> dom (trie_map (trie s))"
  using run_traverse_call [OF assms(2,1,3)] assms(4) by (auto simp: traverse_call_def visit_ok_def)

section \<open>Runs that start with calls\<close>

definition calls_of_new :: "u32 \<Rightarrow> 'v client list \<Rightarrow> 'v locked_trie" where
  "calls_of_new n cs = \<lparr>trie = \<lparr>key_size = n, root = new_TrieNode\<rparr>, clients = cs\<rparr>"

fun valid_call :: "nat \<Rightarrow> char set \<Rightarrow> 'v client \<Rightarrow> bool" where
  "valid_call n A (Insert key v) \<longleftrightarrow> valid_key n A key"
| "valid_call n A (Lookup key) \<longleftrightarrow> valid_key n A key"
| "valid_call n A (Traverse keep) \<longleftrightarrow> True"
| "valid_call n A c \<longleftrightarrow> False"

lemma calls_of_new_ok:
  assumes "n \<le> 255" and "n > 0" and "\<forall>c\<in>set cs. valid_call (unat n) hex_digits c"
  shows "locked_trie_ok (unat n) hex_digits (calls_of_new n cs)"
proof -
  let ?m = "\<lparr>key_size = n, root = new_TrieNode\<rparr> :: 'a handle_trie"
  have m: "handle_trie_ok (unat n) hex_digits ?m"
    using new_HandleTrie_ok [of n hex_digits, where ?'a = 'a] inj_TLB_hex_digits assms(1,2)
    by (auto simp: new_HandleTrie_def split: if_splits)
  have "client_ok (unat n) hex_digits ?m c \<and> held c = []" if "valid_call (unat n) hex_digits c" for c
    using that by (cases c) simp_all
  with assms(3) m show ?thesis by (simp add: calls_of_new_def locked_trie_ok_def locks_ok_def)
qed

text \<open>
  Five threads and a new trie: three insertions, two of them with one key, a lookup that reads the
  pointer to the leaf before another insertion splits it, and a traversal that has the same pointer on
  its stack when the second leaf comes.
\<close>

definition some_calls :: "nat locked_trie" where
  "some_calls = calls_of_new 2 [Insert ''a1'' 3, Insert ''a2'' 4, Insert ''a1'' 5, Lookup ''a1'', Traverse False]"

definition some_events :: "nat trie_event list" where
  "some_events = [Move 0, Store 0 ''a1'' 3 3, Move 3, Move 3, Move 4, Move 1, Move 1, Move 1, Store 1 ''a2'' 4 4,
     Move 2, Move 2, Move 2, Move 4, Move 2, Store 2 ''a1'' 5 8, Answer 3 ''a1'' (Some 8), Move 4]"

lemma some_run:
  "\<exists>s. trie_run (+) some_calls some_events s
     \<and> clients s = [Inserted 3, Inserted 4, Inserted 8, Found (Some 8), Traversed [''a1'']]
     \<and> trie_entries (trie s) = [(''a1'', 8), (''a2'', 4)]"
proof -
  have "map_option (\<lambda>(es, s). (es, clients s, trie_entries (trie s)))
      (trie_schedule (+) [0, 0, 3, 3, 4, 1, 1, 1, 1, 2, 2, 2, 4, 2, 2, 3, 4] some_calls)
    = Some (some_events, [Inserted 3, Inserted 4, Inserted 8, Found (Some 8), Traversed [''a1'']],
        [(''a1'', 8), (''a2'', 4)])"
    by code_simp
  then show ?thesis by (auto dest!: trie_schedule_run simp del: trie_schedule.simps)
qed

lemma some_calls_ok: "locked_trie_ok 2 hex_digits some_calls"
  using calls_of_new_ok [of 2 "clients some_calls"]
  by (simp add: some_calls_def calls_of_new_def valid_key_def hex_digits_def)

theorem concurrent_inserts_linearizable_witness:
  "\<exists>s m. trie_run (+) some_calls some_events s
     \<and> insert_each (trie_insert (+)) (trie some_calls) [(''a1'', 3), (''a2'', 4), (''a1'', 5)] = Inr (m, [3, 4, 8])
     \<and> trie_map m = trie_map (trie s) \<and> insert_call 2 ''a1'' 5 (clients s ! 2) some_events"
proof -
  obtain s where s: "trie_run (+) some_calls some_events s" using some_run by blast
  note lin = concurrent_inserts_linearizable [OF some_calls_ok s]
  have "stored some_events = [(''a1'', 3), (''a2'', 4), (''a1'', 5)]" "store_results some_events = [3, 4, 8]"
    "clients some_calls ! 2 = Insert ''a1'' 5" by code_simp+
  with lin s show ?thesis by metis
qed

theorem concurrent_lookup_linearizable_witness:
  "\<exists>es1 s1. trie_run (+) some_calls es1 s1 \<and> length es1 \<le> 17 \<and> trie_map (trie s1) ''a1'' = Some 8"
proof -
  obtain s where s: "trie_run (+) some_calls some_events s" "clients s ! 3 = Found (Some 8)"
    using some_run by force
  have "clients some_calls ! 3 = Lookup ''a1''" by code_simp
  from concurrent_lookup_linearizable [OF some_calls_ok s(1) this s(2)] obtain es1 es2 s1 where
    "some_events = es1 @ es2" "trie_run (+) some_calls es1 s1" "trie_map (trie s1) ''a1'' = Some 8" by blast
  moreover have "length some_events = 17" by code_simp
  ultimately show ?thesis by (metis le_add1 length_append)
qed

theorem concurrent_traversal_visits_witness:
  "\<exists>s. trie_run (+) some_calls some_events s \<and> clients s ! 4 = Traversed [''a1'']
     \<and> dom (trie_map (trie some_calls)) \<subseteq> {''a1''} \<and> {''a1''} \<subseteq> dom (trie_map (trie s))"
proof -
  obtain s where s: "trie_run (+) some_calls some_events s" "clients s ! 4 = Traversed [''a1'']"
    using some_run by force
  have "clients some_calls ! 4 = Traverse False" by code_simp
  from concurrent_traversal_visits [OF some_calls_ok s(1) this s(2)] s show ?thesis by auto
qed

theorem locks_never_block_witness:
  "\<exists>i e s'. client_step (+) i some_calls = Some (e, s')"
proof -
  have "\<not> returned (clients some_calls ! 0)" "0 < length (clients some_calls)" by code_simp+
  then have "\<exists>c\<in>set (clients some_calls). \<not> returned c" using nth_mem by blast
  with locks_never_block [OF some_calls_ok trie_run.trie_start, of "(+)"] show ?thesis by blast
qed

end
