(* ===== verification/Process_Entry.thy ===== *)
theory Process_Entry
  imports Broker_Server_Correct
begin

text \<open>
  \<open>main/main.cc\<close>: the process of the attention broker, from its command line to its end. The server is
  a global object: its constructor runs before \<open>main\<close> and its destructor in \<open>exit\<close> or after \<open>main\<close>, and
  both stop the workers as the signal handler does. What is printed is left out. The gRPC server is a
  parameter: whether \<open>BuildAndStart\<close> returns one for an address, or a null pointer. It listens until the
  process ends: nobody calls its \<open>Shutdown\<close>, so \<open>Wait\<close> does not return, and \<open>exit\<close> does not destroy the
  variables of \<open>run_server\<close>. The signal comes once at
  most, while the main thread waits in \<open>Wait\<close>, and it is the main thread that handles it.
\<close>

section \<open>The command line\<close>

text \<open>\<open>std::stoi\<close>: blanks, a sign, the longest run of digits; what follows is ignored.\<close>

datatype conversion_error = Invalid_Argument | Out_Of_Range

definition is_space :: "char \<Rightarrow> bool" where
  "is_space c \<longleftrightarrow> c = CHR '' '' \<or> 9 \<le> (of_char c :: nat) \<and> (of_char c :: nat) \<le> 13"

definition stoi :: "string \<Rightarrow> conversion_error + int" where
  "stoi str =
     (let str = dropWhile is_space str;
          (sign, str) = (case str of [] \<Rightarrow> (1, str)
            | c # cs \<Rightarrow> if c = CHR ''-'' then (- 1, cs) else if c = CHR ''+'' then (1, cs) else (1, str));
          digits = takeWhile is_digit str
      in if digits = [] then Inl Invalid_Argument
         else if - (2 ^ 31) \<le> sign * decimal digits \<and> sign * decimal digits < 2 ^ 31
         then Inr (sign * decimal digits) else Inl Out_Of_Range)"

section \<open>State\<close>

text \<open>
  Where the main thread is: before \<open>main\<close>, in \<open>Wait\<close>, in the signal handler, in \<open>exit\<close> before and in the
  destructor of the server. The process has ended with a status, or it was terminated.
\<close>

datatype phase =
    Starting
  | Serving_At string
  | Interrupted
  | Exiting int
  | Destroying int
  | Ended int
  | Terminated

record broker_process =
  phase :: phase
  service :: server

definition new_process :: "broker_process result" where
  "new_process = and_then new_AttentionBrokerServer (\<lambda>s. Inr \<lparr>phase = Starting, service = s\<rparr>)"

section \<open>Steps\<close>

text \<open>\<open>server->Wait()\<close> on a null pointer is undefined.\<close>

definition run_server :: "(string \<Rightarrow> bool) \<Rightarrow> u32 \<Rightarrow> string result" where
  "run_server binds port =
     (let server_address = ''0.0.0.0:'' @ dec (unat port)
      in if binds server_address then Inr server_address else Inl Null_Dereference)"

definition main :: "(string \<Rightarrow> bool) \<Rightarrow> string list \<Rightarrow> phase" where
  "main binds argv =
     (if length argv \<noteq> 2 then Exiting 1
      else case stoi (argv ! 1) of
             Inl e \<Rightarrow> Terminated
           | Inr n \<Rightarrow> (case run_server binds (word_of_int n) of Inl e \<Rightarrow> Terminated | Inr a \<Rightarrow> Serving_At a))"

datatype process_event =
    Start_Main
  | Served server_event
  | Sigint
  | Call_Exit
  | Destruct
  | Finish_Exit
  | Abort

fun alive :: "phase \<Rightarrow> bool" where
  "alive (Ended n) = False"
| "alive Terminated = False"
| "alive ph = True"

fun listening :: "phase \<Rightarrow> bool" where
  "listening (Serving_At a) = True"
| "listening Interrupted = True"
| "listening (Exiting n) \<longleftrightarrow> n = 0"
| "listening (Destroying n) \<longleftrightarrow> n = 0"
| "listening ph = False"

text \<open>A handler of the server, or a step of its threads; the shutdown is called by the main thread.\<close>

fun may_serve :: "phase \<Rightarrow> server_event \<Rightarrow> bool" where
  "may_serve ph Graceful_Shutdown = False"
| "may_serve ph (Thread e) = True"
| "may_serve ph e = listening ph"

definition no_error :: "broker_process \<Rightarrow> bool" where
  "no_error p \<longleftrightarrow> crashed (worker_threads (service p)) = None"

definition stopped :: "broker_process \<Rightarrow> bool" where
  "stopped p \<longleftrightarrow> stopper (worker_threads (service p)) = Stopped"

fun process_step :: "(string \<Rightarrow> bool) \<Rightarrow> (rat \<Rightarrow> rat) \<Rightarrow> string list \<Rightarrow> process_event \<Rightarrow> broker_process
    \<Rightarrow> broker_process option" where
  "process_step binds fl argv Start_Main p =
     (if phase p = Starting \<and> no_error p then Some (p\<lparr>phase := main binds argv\<rparr>) else None)"
| "process_step binds fl argv (Served e) p =
     (if alive (phase p) \<and> may_serve (phase p) e \<and> no_error p
      then map_option (\<lambda>s. p\<lparr>service := s\<rparr>) (serve fl e (service p)) else None)"
| "process_step binds fl argv Sigint p =
     (case phase p of
        Serving_At a \<Rightarrow>
          if no_error p
          then map_option (\<lambda>s. p\<lparr>phase := Interrupted, service := s\<rparr>) (serve fl Graceful_Shutdown (service p))
          else None
      | _ \<Rightarrow> None)"
| "process_step binds fl argv Call_Exit p =
     (if phase p = Interrupted \<and> no_error p \<and> stopped p then Some (p\<lparr>phase := Exiting 0\<rparr>) else None)"
| "process_step binds fl argv Destruct p =
     (case phase p of
        Exiting n \<Rightarrow>
          if no_error p
          then map_option (\<lambda>s. p\<lparr>phase := Destroying n, service := s\<rparr>) (serve fl Graceful_Shutdown (service p))
          else None
      | _ \<Rightarrow> None)"
| "process_step binds fl argv Finish_Exit p =
     (case phase p of
        Destroying n \<Rightarrow> if no_error p \<and> stopped p then Some (p\<lparr>phase := Ended n\<rparr>) else None
      | _ \<Rightarrow> None)"
| "process_step binds fl argv Abort p =
     (if alive (phase p) \<and> \<not> no_error p then Some (p\<lparr>phase := Terminated\<rparr>) else None)"

inductive process_run :: "(string \<Rightarrow> bool) \<Rightarrow> (rat \<Rightarrow> rat) \<Rightarrow> string list \<Rightarrow> broker_process \<Rightarrow> process_event list
    \<Rightarrow> broker_process \<Rightarrow> bool"
  for binds fl argv p where
  process_start: "process_run binds fl argv p [] p"
| process_more: "process_run binds fl argv p es p' \<Longrightarrow> process_step binds fl argv e p' = Some p'' \<Longrightarrow>
    process_run binds fl argv p (es @ [e]) p''"

end
