(* ===== verification/Process_Entry_Correct.thy ===== *)
theory Process_Entry_Correct
  imports Process_Entry
begin

text \<open>
  The process over all its runs: the port of the command line, the end after a wrong command line,
  and the end after the signal.
\<close>

section \<open>The port\<close>

lemma digit_no_sign: "is_digit c \<Longrightarrow> \<not> is_space c \<and> c \<noteq> CHR ''-'' \<and> c \<noteq> CHR ''+''"
  by (auto simp: is_digit_def is_space_def)

lemma stoi_digits:
  assumes "\<forall>c\<in>set ds. is_digit c" and "ds \<noteq> []" and "decimal ds < 2 ^ 31" and "0 \<le> decimal ds"
  shows "stoi ds = Inr (decimal ds)" and "stoi (CHR ''-'' # ds) = Inr (- decimal ds)"
proof -
  obtain c cs where c: "ds = c # cs" using assms(2) by (cases ds) auto
  have "takeWhile is_digit ds = ds" using assms(1) by simp
  moreover have "\<not> is_space c" "c \<noteq> CHR ''-''" "c \<noteq> CHR ''+''" using assms(1) c digit_no_sign [of c] by auto
  moreover have "\<not> is_space CHR ''-''" by (simp add: is_space_def)
  ultimately show "stoi ds = Inr (decimal ds)" "stoi (CHR ''-'' # ds) = Inr (- decimal ds)"
    using assms(2-4) c by (auto simp: stoi_def Let_def)
qed

lemma unat_of_int: "unat (word_of_int i :: u32) = nat (i mod 2 ^ 32)"
  by (simp add: unat_eq_nat_uint uint_word_of_int_eq take_bit_eq_mod)


section \<open>The steps of the server in the process\<close>

fun server_events :: "process_event \<Rightarrow> server_event list" where
  "server_events (Served e) = [e]"
| "server_events Sigint = [Graceful_Shutdown]"
| "server_events Destruct = [Graceful_Shutdown]"
| "server_events e = []"

definition server_trace :: "process_event list \<Rightarrow> server_event list" where
  "server_trace es = concat (map server_events es)"

lemma server_trace_simps [simp]: "server_trace [] = []" "server_trace (es @ [e]) = server_trace es @ server_events e"
  by (simp_all add: server_trace_def)

lemma step_serves:
  assumes "process_step binds fl argv e p = Some p'"
  shows "(server_events e = [] \<and> service p' = service p)
    \<or> (\<exists>x. server_events e = [x] \<and> no_error p \<and> serve fl x (service p) = Some (service p'))"
  using assms by (cases e) (auto split: if_splits phase.splits)

lemma process_serves:
  "process_run binds fl argv p es q \<Longrightarrow> server_run fl (service p) (server_trace es) (service q)"
proof (induction rule: process_run.induct)
  case process_start
  then show ?case by (simp add: server_run.server_start)
next
  case (process_more es p' e p'')
  from step_serves [OF process_more.hyps(2)] show ?case
  proof (elim disjE exE conjE)
    fix x assume x: "server_events e = [x]" "no_error p'" "serve fl x (service p') = Some (service p'')"
    then have "server_step fl (service p') x (service p'')" by (intro serve_step) (simp_all add: no_error_def)
    with process_more.IH x(1) show ?case by (simp add: server_run.server_more)
  qed (use process_more.IH in simp)
qed

lemma handler_frame:
  "stimulate c h s = Inr (a, s') \<Longrightarrow> \<exists>qs nets. worker_threads s' = (worker_threads s)\<lparr>queues := qs, networks := nets\<rparr>"
  "correlate c hs s = Inr (a, s') \<Longrightarrow> \<exists>qs nets. worker_threads s' = (worker_threads s)\<lparr>queues := qs, networks := nets\<rparr>"
  by (auto simp: stimulate_def correlate_def and_then_Inr_iff enqueue_request_iff split: if_splits)
    (metis worker_pool.surjective worker_pool.update_convs(1,2))+

lemma served_pool:
  assumes "serve fl e s = Some s'" and "e \<noteq> Graceful_Shutdown" and "crashed (worker_threads s) = None"
  shows "(\<exists>ev. internal ev \<and> pool_step fl (worker_threads s) ev (worker_threads s'))
    \<or> (\<exists>qs nets. worker_threads s' = (worker_threads s)\<lparr>queues := qs, networks := nets\<rparr>)"
proof (cases e)
  case (Ping a)
  with assms have "worker_threads s' = (worker_threads s)\<lparr>queues := queues (worker_threads s), networks := networks (worker_threads s)\<rparr>"
    by (simp split: if_splits)
  then show ?thesis by blast
next
  case (Stimulate c h a)
  with assms handler_frame(1) show ?thesis by (auto split: sum.splits prod.splits if_splits)
next
  case (Correlate c h a)
  with assms handler_frame(2) show ?thesis by (auto split: sum.splits prod.splits if_splits)
next
  case (Thread ev)
  with assms show ?thesis by (auto simp: pool_step_event split: if_splits)
qed (use assms in simp)

text \<open>A pool that has stopped and is stopped again.\<close>

definition stops_again :: "worker_pool \<Rightarrow> bool" where
  "stops_again w \<longleftrightarrow> retired w \<and> stopper w = Joining 0 \<and> joined w ! 0"

definition keeps_stopper :: "worker_pool \<Rightarrow> worker_pool \<Rightarrow> bool" where
  "keeps_stopper w w' \<longleftrightarrow> (stopper w' = Serving \<longleftrightarrow> stopper w = Serving) \<and> (stopper w = Stopped \<longrightarrow> stopper w' = Stopped)
     \<and> (stops_again w \<longrightarrow> stops_again w') \<and> (shutdown_ok w \<longrightarrow> shutdown_ok w')"

lemma step_keeps_stopper:
  assumes "pool_step fl w e w'" and "internal e" shows "keeps_stopper w w'"
proof -
  have "stops_again w'" if "stops_again w"
  proof -
    have "e = Join_Error 0" using retired_stopper [OF assms] that by (simp add: stops_again_def)
    with assms(1) that show ?thesis by (auto simp: stops_again_def retired_def elim: pool_step.cases)
  qed
  moreover have "(stopper w' = Serving \<longleftrightarrow> stopper w = Serving) \<and> (stopper w = Stopped \<longrightarrow> stopper w' = Stopped)"
    using assms by cases auto
  ultimately show ?thesis using shutdown_step [OF assms(1)] by (simp add: keeps_stopper_def)
qed

lemma frame_keeps_stopper: "keeps_stopper w (w\<lparr>queues := qs, networks := nets\<rparr>)"
  using shutdown_ok_fields by (auto simp: keeps_stopper_def stops_again_def retired_def)

lemma served_keeps_stopper:
  "serve fl e s = Some s' \<Longrightarrow> e \<noteq> Graceful_Shutdown \<Longrightarrow> crashed (worker_threads s) = None \<Longrightarrow>
    keeps_stopper (worker_threads s) (worker_threads s')"
  using served_pool [of fl e s s'] step_keeps_stopper frame_keeps_stopper by metis

lemma shutdown_call:
  assumes "serve fl Graceful_Shutdown s = Some s'" and "crashed (worker_threads s) = None"
    and "shutdown_ok (worker_threads s)"
  shows "shutdown_ok (worker_threads s') \<and> stopper (worker_threads s') = Joining 0
    \<and> (stopper (worker_threads s) = Stopped \<longrightarrow> stops_again (worker_threads s'))"
proof -
  let ?w = "worker_threads s"
  have w': "worker_threads s' = ?w\<lparr>stop_flag := True, stopper := Joining 0\<rparr>"
    using assms(1) by (auto split: if_splits)
  have "pool_step fl ?w Stop (worker_threads s')"
    using assms(1,2) by (auto simp: pool_step_event split: if_splits)
  from shutdown_step [OF this assms(3)] have "shutdown_ok (worker_threads s')" .
  moreover have "stops_again (worker_threads s')" if "stopper ?w = Stopped"
    using stopped_workers [OF assms(3) that] assms(3) that unfolding w'
    by (auto simp: stops_again_def retired_def shutdown_ok_def all_joined_def WORKER_THREADS_COUNT_def)
  ultimately show ?thesis using w' by simp
qed

section \<open>The invariant of the process\<close>

definition process_ok :: "string list \<Rightarrow> broker_process \<Rightarrow> bool" where
  "process_ok argv p \<longleftrightarrow> shutdown_ok (worker_threads (service p))
     \<and> (let st = stopper (worker_threads (service p)); usage = (length argv \<noteq> 2) in
        case phase p of
          Starting \<Rightarrow> st = Serving
        | Serving_At a \<Rightarrow> \<not> usage \<and> st = Serving
        | Interrupted \<Rightarrow> \<not> usage \<and> st \<noteq> Serving
        | Exiting n \<Rightarrow> (if usage then n = 1 \<and> st = Serving else n = 0 \<and> st = Stopped)
        | Destroying n \<Rightarrow> (if usage then n = 1 \<and> st \<noteq> Serving
            else n = 0 \<and> stops_again (worker_threads (service p)))
        | Ended n \<Rightarrow> usage \<and> n = 1
        | Terminated \<Rightarrow> True)"

lemma main_cases:
  "main binds argv = (if length argv \<noteq> 2 then Exiting 1 else main binds argv)"
  "length argv = 2 \<Longrightarrow> main binds argv = Terminated \<or> (\<exists>a. main binds argv = Serving_At a)"
  by (auto simp: main_def split: sum.splits)

lemma process_step_ok:
  assumes ok: "process_ok argv p" and step: "process_step binds fl argv e p = Some p'"
  shows "process_ok argv p'"
proof (cases e)
  case Start_Main
  with step ok show ?thesis
    using main_cases(2) [of argv binds]
    by (auto simp: process_ok_def main_def Let_def split: if_splits)
next
  case (Served x)
  then obtain s' where s': "serve fl x (service p) = Some s'" "p' = p\<lparr>service := s'\<rparr>" "x \<noteq> Graceful_Shutdown"
    "crashed (worker_threads (service p)) = None" "alive (phase p)"
    using step by (cases x) (auto simp: no_error_def split: if_splits)
  have "keeps_stopper (worker_threads (service p)) (worker_threads s')"
    using s' by (intro served_keeps_stopper)
  with ok s'(2,5) show ?thesis
    by (cases "phase p") (auto simp: process_ok_def Let_def keeps_stopper_def)
next
  case Sigint
  then obtain a s' where s': "phase p = Serving_At a" "serve fl Graceful_Shutdown (service p) = Some s'"
    "p' = p\<lparr>phase := Interrupted, service := s'\<rparr>" "crashed (worker_threads (service p)) = None"
    using step by (auto simp: no_error_def split: phase.splits if_splits simp del: serve.simps)
  with shutdown_call [OF s'(2,4)] ok show ?thesis by (auto simp: process_ok_def Let_def)
next
  case Destruct
  then obtain n s' where s': "phase p = Exiting n" "serve fl Graceful_Shutdown (service p) = Some s'"
    "p' = p\<lparr>phase := Destroying n, service := s'\<rparr>" "crashed (worker_threads (service p)) = None"
    using step by (auto simp: no_error_def split: phase.splits if_splits simp del: serve.simps)
  with shutdown_call [OF s'(2,4)] ok show ?thesis by (auto simp: process_ok_def Let_def)
next
  case Call_Exit
  with step ok show ?thesis by (auto simp: process_ok_def Let_def stopped_def split: if_splits)
next
  case Finish_Exit
  with step ok show ?thesis
    by (auto simp: process_ok_def Let_def stopped_def stops_again_def split: if_splits phase.splits)
next
  case Abort
  with step ok show ?thesis by (auto simp: process_ok_def Let_def split: if_splits)
qed

lemma new_process_ok: "new_process = Inr p \<Longrightarrow> process_ok argv p \<and> phase p = Starting \<and> service p = new_server"
  by (auto simp: new_process_def new_AttentionBrokerServer process_ok_def new_server_def shutdown_ok_new)

lemma process_run_ok:
  "process_run binds fl argv p0 es p \<Longrightarrow> process_ok argv p0 \<Longrightarrow> process_ok argv p"
  by (induction rule: process_run.induct) (auto dest: process_step_ok)

fun after_signal :: "phase \<Rightarrow> bool" where
  "after_signal Interrupted = True"
| "after_signal (Exiting n) = True"
| "after_signal (Destroying n) = True"
| "after_signal (Ended n) = True"
| "after_signal Terminated = True"
| "after_signal ph = False"

lemma process_run_signal:
  "process_run binds fl argv p0 es p \<Longrightarrow> Sigint \<in> set es \<Longrightarrow> after_signal (phase p)"
proof (induction rule: process_run.induct)
  case (process_more es p' e p'')
  then show ?case by (cases e) (auto split: if_splits phase.splits)
qed simp

lemma process_run_append:
  "process_run binds fl argv p1 es' p2 \<Longrightarrow> process_run binds fl argv p0 es p1 \<Longrightarrow>
    process_run binds fl argv p0 (es @ es') p2"
  by (induction rule: process_run.induct)
    (auto simp: append_assoc [symmetric] simp del: append_assoc intro: process_run.intros)

lemma process_one: "process_step binds fl argv e p = Some p' \<Longrightarrow> process_run binds fl argv p [e] p'"
  using process_run.process_more [OF process_run.process_start, of binds fl argv e p p'] by simp

section \<open>The end of the process\<close>

lemma same_pool [simp]: "p\<lparr>service := (service p)\<lparr>worker_threads := worker_threads (service p)\<rparr>\<rparr> = p"
  by (cases p; cases "service p") simp

text \<open>The steps of a shutdown of the pool, as steps of the process.\<close>

lemma pool_run_process:
  assumes "run fl w es w'" and "worker_threads (service p) = w" and "list_all internal es" and "alive (phase p)"
  shows "process_run binds fl argv p (map (\<lambda>e. Served (Thread e)) es)
    (p\<lparr>service := (service p)\<lparr>worker_threads := w'\<rparr>\<rparr>)"
  using assms
proof (induction rule: run.induct)
  case start
  then have "p\<lparr>service := (service p)\<lparr>worker_threads := w\<rparr>\<rparr> = p" using same_pool [of p] by blast
  then show ?case using process_run.process_start [of binds fl argv p] by simp
next
  case (more es s e s')
  let ?p = "p\<lparr>service := (service p)\<lparr>worker_threads := s\<rparr>\<rparr>"
  have "process_step binds fl argv (Served (Thread e)) ?p = Some (p\<lparr>service := (service p)\<lparr>worker_threads := s'\<rparr>\<rparr>)"
    using more.hyps(2) more.prems by (simp add: pool_step_event no_error_def)
  with more.IH more.prems show ?case by (auto intro: process_run.process_more)
qed

lemma stops_in_process:
  assumes ok: "process_ok argv p" and q: "queues_ok (worker_threads (service p))"
    and st: "stopper (worker_threads (service p)) \<noteq> Serving" and al: "alive (phase p)"
  shows "\<exists>es p'. process_run binds fl argv p es p' \<and> phase p' = phase p \<and> (stopped p' \<or> \<not> no_error p')"
proof -
  have "shutdown_ok (worker_threads (service p))" using ok by (simp add: process_ok_def)
  from shutdown_completes [OF q this st] obtain es w where
    "list_all internal es" "run fl (worker_threads (service p)) es w" "stopper w = Stopped \<or> crashed w \<noteq> None" by blast
  moreover from pool_run_process [OF this(2) refl this(1) al]
  have "process_run binds fl argv p (map (\<lambda>e. Served (Thread e)) es) (p\<lparr>service := (service p)\<lparr>worker_threads := w\<rparr>\<rparr>)" .
  ultimately show ?thesis by (force simp: stopped_def no_error_def)
qed

lemma aborts:
  assumes "alive (phase p)" and "\<not> no_error p"
  shows "process_run binds fl argv p [Abort] (p\<lparr>phase := Terminated\<rparr>)"
  using assms by (intro process_one) simp

text \<open>The destructor after the signal handler: the join of the first thread fails.\<close>

lemma second_stop_aborts:
  assumes "phase p = Destroying 0" and "stops_again (worker_threads (service p))"
  shows "\<exists>es p'. process_run binds fl argv p es p' \<and> phase p' = Terminated"
proof (cases "no_error p")
  case False
  with aborts [of p] assms(1) show ?thesis by force
next
  case True
  let ?w = "worker_threads (service p)"
  have "worker_at ?w 0 \<noteq> None"
    using assms(2) by (simp add: stops_again_def retired_def worker_at_def WORKER_THREADS_COUNT_def)
  then have "pool_step fl ?w (Join_Error 0) (?w\<lparr>crashed := Some Not_Joinable\<rparr>)"
    using assms(2) True by (intro join_error) (simp_all add: stops_again_def no_error_def)
  then have "run fl ?w [Join_Error 0] (?w\<lparr>crashed := Some Not_Joinable\<rparr>)"
    using run.more [OF run.start] by fastforce
  from pool_run_process [OF this refl, of binds argv] obtain es p' where
    p': "process_run binds fl argv p es p'" "phase p' = phase p" "\<not> no_error p'"
    using assms(1) by (force simp: no_error_def)
  have "process_run binds fl argv p (es @ [Abort]) (p'\<lparr>phase := Terminated\<rparr>)"
    by (rule process_run_append [OF aborts p'(1)]) (use p' assms(1) in simp_all)
  then show ?thesis by force
qed

lemma destructor_runs:
  assumes "phase p = Exiting n" and "no_error p" and "stopper (worker_threads (service p)) = Serving \<or> stopped p"
  shows "\<exists>p'. process_run binds fl argv p [Destruct] p' \<and> phase p' = Destroying n
    \<and> queues (worker_threads (service p')) = queues (worker_threads (service p))"
proof -
  obtain s where "serve fl Graceful_Shutdown (service p) = Some s" "queues (worker_threads s) = queues (worker_threads (service p))"
    using assms(3) by (auto simp: stopped_def)
  then have "process_step binds fl argv Destruct p = Some (p\<lparr>phase := Destroying n, service := s\<rparr>)"
    using assms(1,2) by (simp del: serve.simps)
  from process_one [OF this] \<open>queues (worker_threads s) = _\<close> show ?thesis by force
qed

lemma exit_aborts:
  assumes ok: "process_ok argv p" and argv: "length argv = 2" and ph: "phase p = Exiting 0"
  shows "\<exists>es p'. process_run binds fl argv p es p' \<and> phase p' = Terminated"
proof (cases "no_error p")
  case False
  with aborts [of p] ph show ?thesis by force
next
  case True
  have "stopped p" using ok argv ph by (simp add: process_ok_def stopped_def)
  with destructor_runs [OF ph True] obtain p1 where p1: "process_run binds fl argv p [Destruct] p1" "phase p1 = Destroying 0"
    by blast
  have "stops_again (worker_threads (service p1))"
    using process_run_ok [OF p1(1) ok] p1(2) argv by (simp add: process_ok_def)
  with second_stop_aborts [OF p1(2)] process_run_append [OF _ p1(1)] show ?thesis by blast
qed

lemma queues_in_process:
  assumes "process_run binds fl argv p0 es p" and "new_process = Inr p0"
    and "\<forall>ty. length (arrived ty (pool_trace (server_trace es))) \<le> 2 ^ 31"
  shows "queues_ok (worker_threads (service p))"
proof -
  have "server_run fl new_server (server_trace es) (service p)"
    using process_serves [OF assms(1)] new_process_ok [OF assms(2)] by simp
  with server_run_pool assms(3) have
    "run fl (new_WorkerThreads default_queues all_empty) (pool_trace (server_trace es)) (everywhere (worker_threads (service p)))"
    by blast
  from fifo_run [OF this] assms(3) default_queues_ok show ?thesis
    by (simp add: queues_ok_def empty_queues_def)
qed

text \<open>
  C19. A process that is interrupted does not end with status 0: it never calls \<open>exit\<close> to its end, and
  it can always go on until it is terminated. After the signal handler has stopped the workers the
  destructor of the server stops them again, and the second join throws.
\<close>

theorem interrupted_process_aborts:
  assumes "new_process = Inr p0" and "process_run binds fl argv p0 es p" and "Sigint \<in> set es"
    and "\<forall>ty. length (arrived ty (pool_trace (server_trace es))) \<le> 2 ^ 31"
  shows "(\<forall>n. phase p \<noteq> Ended n) \<and> (\<exists>es' p'. process_run binds fl argv p es' p' \<and> phase p' = Terminated)"
proof -
  have ok: "process_ok argv p" using process_run_ok [OF assms(2)] new_process_ok [OF assms(1)] by blast
  have argv: "length argv = 2"
    using assms(2,3)
  proof (induction rule: process_run.induct)
    case (process_more es p' e p'')
    then have "process_ok argv p'" using process_run_ok new_process_ok [OF assms(1)] by blast
    with process_more show ?case by (cases "e = Sigint") (auto simp: process_ok_def Let_def split: phase.splits)
  qed simp
  have "after_signal (phase p)" by (rule process_run_signal [OF assms(2,3)])
  moreover have "phase p \<noteq> Ended n" for n using ok argv by (auto simp: process_ok_def)
  moreover have "\<exists>es' p'. process_run binds fl argv p es' p' \<and> phase p' = Terminated"
    if "phase p = Interrupted"
  proof -
    have st: "stopper (worker_threads (service p)) \<noteq> Serving" using ok that by (simp add: process_ok_def)
    have "alive (phase p)" using that by simp
    from stops_in_process [OF ok queues_in_process [OF assms(2,1,4)] st this, of binds fl] that
    obtain es1 p1 where p1: "process_run binds fl argv p es1 p1" "phase p1 = Interrupted" "stopped p1 \<or> \<not> no_error p1"
      by auto
    show ?thesis
    proof (cases "no_error p1")
      case False
      with aborts [of p1] p1 process_run_append [OF _ p1(1)] show ?thesis by force
    next
      case True
      then have "process_run binds fl argv p1 [Call_Exit] (p1\<lparr>phase := Exiting 0\<rparr>)"
        using p1 by (intro process_one) simp
      from process_run_append [OF this p1(1)] have p2: "process_run binds fl argv p (es1 @ [Call_Exit]) (p1\<lparr>phase := Exiting 0\<rparr>)" .
      from exit_aborts [OF process_run_ok [OF p2 ok] argv] process_run_append [OF _ p2] show ?thesis by force
    qed
  qed
  moreover have "\<exists>es' p'. process_run binds fl argv p es' p' \<and> phase p' = Terminated"
    if "phase p = Exiting n" for n
    using exit_aborts [OF ok argv] ok argv that by (auto simp: process_ok_def)
  moreover have "\<exists>es' p'. process_run binds fl argv p es' p' \<and> phase p' = Terminated"
    if "phase p = Destroying n" for n
    using second_stop_aborts [of p] ok argv that by (auto simp: process_ok_def)
  moreover have "\<exists>es' p'. process_run binds fl argv p es' p' \<and> phase p' = Terminated" if "phase p = Terminated"
    using that process_run.process_start by blast
  ultimately show ?thesis by (cases "phase p") auto
qed

text \<open>A process with a wrong command line runs no handler and stops its workers once.\<close>

definition only_threads :: "process_event list \<Rightarrow> bool" where
  "only_threads es \<longleftrightarrow> (\<forall>e\<in>set (server_trace es). e = Graceful_Shutdown \<or> (\<exists>ev. e = Thread ev \<and> internal ev))"

fun in_destructor :: "phase \<Rightarrow> bool" where
  "in_destructor (Destroying n) = True"
| "in_destructor (Ended n) = True"
| "in_destructor ph = False"

lemma only_threads_arrive: "only_threads es \<Longrightarrow> arrived ty (pool_trace (server_trace es)) = []"
proof -
  have "arrivals_of ty e = []" if "internal e" for e using that by (cases e) simp_all
  then have "arrived ty (pool_trace xs) = []"
    if "\<forall>e\<in>set xs. e = Graceful_Shutdown \<or> (\<exists>ev. e = Thread ev \<and> internal ev)" for xs
    using that by (induction xs) (auto simp: arrived_def pool_trace_def)
  then show "only_threads es \<Longrightarrow> ?thesis" by (simp add: only_threads_def)
qed

lemma usage_no_error:
  assumes "new_process = Inr p0" and "process_run binds fl argv p0 es p" and "only_threads es"
    and "length (filter (\<lambda>e. e = Graceful_Shutdown) (server_trace es)) \<le> 1"
  shows "no_error p"
proof -
  have r: "server_run fl new_server (server_trace es) (service p)"
    using process_serves [OF assms(2)] new_process_ok [OF assms(1)] by simp
  have "\<forall>e\<in>set (server_trace es). valid_rpc e" using assms(3) by (auto simp: only_threads_def)
  from server_no_crash [OF new_AttentionBrokerServer r _ this assms(4)] only_threads_arrive [OF assms(3)]
  show ?thesis by (simp add: no_error_def)
qed

lemma usage_run:
  assumes "process_run binds fl argv p0 es p" and "new_process = Inr p0" and "length argv \<noteq> 2"
  shows "only_threads es \<and> phase p \<noteq> Terminated
    \<and> length (filter (\<lambda>e. e = Graceful_Shutdown) (server_trace es)) = (if in_destructor (phase p) then 1 else 0)"
  using assms
proof (induction rule: process_run.induct)
  case process_start
  then show ?case using new_process_ok [of p0] by (simp add: only_threads_def)
next
  case (process_more es p' e p'')
  then have IH: "only_threads es" "phase p' \<noteq> Terminated"
    "length (filter (\<lambda>e. e = Graceful_Shutdown) (server_trace es)) = (if in_destructor (phase p') then 1 else 0)"
    by auto
  have ok: "process_ok argv p'" "no_error p'"
    using process_run_ok [OF process_more.hyps(1)] new_process_ok usage_no_error [OF _ process_more.hyps(1) IH(1)] IH(3)
      process_more.prems by auto
  then have "\<not> listening (phase p')" using process_more.prems(2) by (cases "phase p'") (auto simp: process_ok_def)
  moreover have "\<not> (\<exists>a. phase p' = Serving_At a)" "phase p' \<noteq> Interrupted" "\<forall>n. phase p' = Exiting n \<longrightarrow> n = 1"
    using ok(1) process_more.prems(2) by (auto simp: process_ok_def)
  ultimately show ?case
    using process_more.hyps(2) process_more.prems(2) IH ok(2)
    by (cases e) (auto simp: only_threads_def main_def split: if_splits phase.splits elim!: may_serve.elims
        simp del: serve.simps, (auto split: if_splits)?)
qed

lemma usage_continues:
  assumes "new_process = Inr p0" and "process_run binds fl argv p0 es p" and "length argv \<noteq> 2"
  shows "process_ok argv p \<and> no_error p \<and> queues_ok (worker_threads (service p)) \<and> phase p \<noteq> Terminated"
proof -
  note u = usage_run [OF assms(2,1,3)]
  then have "no_error p" using usage_no_error [OF assms(1,2)] by (auto split: if_splits)
  moreover have "queues_ok (worker_threads (service p))"
    using queues_in_process [OF assms(2,1)] only_threads_arrive u by simp
  ultimately show ?thesis using u process_run_ok [OF assms(2)] new_process_ok [OF assms(1)] by blast
qed

lemma usage_destroying:
  assumes "new_process = Inr p0" and "process_run binds fl argv p0 es p" and "length argv \<noteq> 2"
    and "phase p = Destroying n"
  shows "\<exists>es' p'. process_run binds fl argv p es' p' \<and> phase p' = Ended 1"
proof -
  note u = usage_continues [OF assms(1-3)]
  then have n: "n = 1" "stopper (worker_threads (service p)) \<noteq> Serving" "alive (phase p)"
    using assms(3,4) by (auto simp: process_ok_def)
  from stops_in_process [OF _ _ this(2,3), of argv binds fl] u obtain es1 p1 where
    p1: "process_run binds fl argv p es1 p1" "phase p1 = phase p" "stopped p1 \<or> \<not> no_error p1" by blast
  with usage_continues [OF assms(1) process_run_append [OF p1(1) assms(2)] assms(3)] have "stopped p1" "no_error p1"
    by auto
  then have "process_run binds fl argv p1 [Finish_Exit] (p1\<lparr>phase := Ended 1\<rparr>)"
    using p1(2) assms(4) n(1) by (intro process_one) simp
  from process_run_append [OF this p1(1)] show ?thesis by force
qed

lemma usage_exiting:
  assumes "new_process = Inr p0" and "process_run binds fl argv p0 es p" and "length argv \<noteq> 2"
    and "phase p = Exiting n"
  shows "\<exists>es' p'. process_run binds fl argv p es' p' \<and> phase p' = Ended 1"
proof -
  note u = usage_continues [OF assms(1-3)]
  then have "stopper (worker_threads (service p)) = Serving" using assms(3,4) by (simp add: process_ok_def)
  with destructor_runs [OF assms(4), of binds fl argv] u obtain p1 where
    p1: "process_run binds fl argv p [Destruct] p1" "phase p1 = Destroying n" by blast
  from usage_destroying [OF assms(1) process_run_append [OF p1(1) assms(2)] assms(3) p1(2)]
    process_run_append [OF _ p1(1)] show ?thesis by blast
qed

text \<open>
  C20. A wrong command line ends the process with status 1: no error terminates it, it never listens,
  and it can always go on to its end; the destructor of the server, which runs once here, stops the workers.
\<close>

theorem usage_error_exits:
  assumes "new_process = Inr p0" and "process_run binds fl argv p0 es p" and "length argv \<noteq> 2"
  shows "phase p \<noteq> Terminated \<and> \<not> listening (phase p)
    \<and> (\<exists>es' p'. process_run binds fl argv p es' p' \<and> phase p' = Ended 1)"
proof -
  note u = usage_continues [OF assms]
  have "\<not> listening (phase p)" using u assms(3) by (cases "phase p") (auto simp: process_ok_def)
  moreover have "\<exists>es' p'. process_run binds fl argv p es' p' \<and> phase p' = Ended 1" if "phase p = Starting"
  proof -
    have p1: "process_run binds fl argv p [Start_Main] (p\<lparr>phase := Exiting 1\<rparr>)"
      using that u assms(3) by (intro process_one) (simp add: main_def)
    from usage_exiting [OF assms(1) process_run_append [OF p1 assms(2)] assms(3)] process_run_append [OF _ p1]
    show ?thesis by fastforce
  qed
  moreover have "phase p = Ended 1" if "phase p = Ended n" for n using u that by (simp add: process_ok_def)
  then have "\<exists>es' p'. process_run binds fl argv p es' p' \<and> phase p' = Ended 1" if "phase p = Ended n" for n
    using that process_run.process_start by blast
  ultimately show ?thesis
    using u assms(3) usage_exiting [OF assms] usage_destroying [OF assms] by (cases "phase p") (auto simp: process_ok_def)
qed

section \<open>Witnesses\<close>

lemma new_process_exists: "\<exists>p. new_process = Inr p \<and> phase p = Starting \<and> service p = new_server"
  by (simp add: new_process_def new_AttentionBrokerServer)

theorem usage_error_exits_witness:
  "\<exists>p0 es p. new_process = Inr p0 \<and> process_run (\<lambda>a. True) id [''server''] p0 es p \<and> phase p = Ended 1"
proof -
  obtain p0 where p0: "new_process = Inr p0" using new_process_exists by blast
  with usage_error_exits [OF p0 process_run.process_start, of "[''server'']" "\<lambda>a. True" id] show ?thesis by auto
qed

theorem interrupted_process_aborts_witness:
  "\<exists>p0 es p. new_process = Inr p0 \<and> process_run (\<lambda>a. True) id [''server'', ''80''] p0 ([Start_Main, Sigint] @ es) p
    \<and> phase p = Terminated"
proof -
  obtain p0 where p0: "new_process = Inr p0" "phase p0 = Starting" "service p0 = new_server"
    using new_process_exists by blast
  have "main (\<lambda>a. True) [''server'', ''80''] = Serving_At ''0.0.0.0:80''" by code_simp
  then have "process_run (\<lambda>a. True) id [''server'', ''80''] p0 [Start_Main] (p0\<lparr>phase := Serving_At ''0.0.0.0:80''\<rparr>)"
    using p0(2,3) by (intro process_one) (simp add: no_error_def new_server_def)
  moreover obtain p where "process_step (\<lambda>a. True) id [''server'', ''80''] Sigint (p0\<lparr>phase := Serving_At ''0.0.0.0:80''\<rparr>) = Some p"
    using p0(3) by (simp add: no_error_def new_server_def)
  ultimately have r: "process_run (\<lambda>a. True) id [''server'', ''80''] p0 [Start_Main, Sigint] p"
    using process_run.process_more [of "\<lambda>a. True" id "[''server'', ''80'']" p0 "[Start_Main]"] by fastforce
  have "arrived ty (pool_trace (server_trace [Start_Main, Sigint])) = []" for ty
    by (simp add: server_trace_def pool_trace_def arrived_def)
  then have "\<forall>ty. length (arrived ty (pool_trace (server_trace [Start_Main, Sigint]))) \<le> 2 ^ 31" by simp
  from interrupted_process_aborts [OF p0(1) r _ this] obtain es p' where
    "process_run (\<lambda>a. True) id [''server'', ''80''] p es p'" "phase p' = Terminated" by auto
  with process_run_append [OF this(1) r] p0(1) show ?thesis by blast
qed


end
