(* ===== verification/Spec2Isabelle.thy ===== *)
theory Spec2Isabelle
  imports Broker_Server_Correct Concurrent_Updates Expression_Hasher Cache_Network Broadcast_Network Commons_Utils
    Hebbian_Printing Trie_Linearizable Process_Entry_Correct
begin

text \<open>
  A verification library of the attention broker of the Distributed AtomSpace: a gRPC server that
  counts which atoms appear together in query answers, keeps these counts as a Hebbian network, and
  spreads importance over it. All paths are relative to \<open>src/src\<close>.

  \<^bold>\<open>How the program works.\<close> The handlers of \<open>AttentionBrokerServer\<close> choose the network of the context
  of a request, store its address in the request, and put the request into one of two queues
  (\<open>RequestQueue\<close>). Ten threads (\<open>WorkerThreads\<close>) take requests from the queues: the selector
  (\<open>RequestSelector\<close>) gives stimulus requests to the even threads and correlation requests to the
  odd ones. A correlation request is counted by the updater (\<open>HebbianNetworkUpdater\<close>), a stimulus
  request is worked on by the spreader (\<open>StimulusSpreader\<close>). A \<open>HebbianNetwork\<close> is a trie of nodes,
  each with a trie of edges (\<open>HandleTrie\<close>); the keys are handles, which \<open>expression_hasher\<close> computes.
  \<open>AtomSpaceNode\<close>, with a message broker, a leadership broker and the nodes of the cache, is a second
  program in the repository: nodes that join a network and exchange messages.

  \<^bold>\<open>Theories and code.\<close>
  \<^item> \<open>Prelude\<close>: words, the \<open>error\<close> type (exceptions, NULL, out-of-bounds and uninitialised reads, a
    thread that is not joinable, a type confusion, a call that blocks for ever), results, \<open>to_string\<close>
    of numbers. \<open>Doubles\<close> and \<open>Binary64\<close>: the arithmetic of \<open>double\<close> with its rounding as a parameter, and the rounding to
    53 bits as its instance.
  \<^item> \<open>Fifo_Spec\<close>, \<open>Request_Queue\<close>: \<open>commons/RequestQueue\<close>. The record is the circular array with its
    32-bit counters; \<open>queue_contents\<close> is the list it stands for.
  \<^item> \<open>Map_Spec\<close>, \<open>Handle_Trie\<close>, \<open>Handle_Trie_Correct\<close>, \<open>Handle_Trie_Traverse\<close>, \<open>Handle_Trie_Keys\<close>,
    \<open>Handle_Trie_Objects\<close>: \<open>attention_broker_server/HandleTrie\<close>, with its insertion, lookup,
    traversal, printing and destruction. \<open>trie_map\<close> is the finite map of a trie.
  \<^item> \<open>Trie_Locks\<close>, \<open>Trie_Locks_Correct\<close>, \<open>Trie_Linearizable\<close>: the same class with the mutexes of its
    nodes: threads that insert, look up and traverse, from one wait for a mutex to the next.
  \<^item> \<open>Hebbian_Network\<close>, \<open>Hebbian_Network_Correct\<close>, \<open>Counting_Loop\<close>, \<open>Hebbian_Updater\<close>,
    \<open>Hebbian_Printing\<close>: \<open>attention_broker_server/HebbianNetwork\<close> and \<open>HebbianNetworkUpdater\<close>.
  \<^item> \<open>Concurrent_Updates\<close>: correlation requests that several threads process at the same time, as
    interleavings of their accesses to the network.
  \<^item> \<open>Stimulus_Spreader\<close>, \<open>Spreader_Steps\<close>, \<open>Spreader_Correct\<close>, \<open>Spreader_Properties\<close>:
    \<open>attention_broker_server/StimulusSpreader\<close>; the first is the model, the second follows each
    traversal, the third composes them to a closed formula for the importances.
  \<^item> \<open>Request_Selector\<close>, \<open>Worker_Threads\<close>, \<open>Worker_Pool_Correct\<close>, \<open>Worker_Pool_Shutdown\<close>,
    \<open>Worker_Pool_Safety\<close>: \<open>attention_broker_server/RequestSelector\<close> and \<open>WorkerThreads\<close>. \<open>pool_step\<close> is the step relation of
    the threads, \<open>pool_event\<close> the same as a function; the theories after it are about all runs.
  \<^item> \<open>Broker_Server\<close>, \<open>Broker_Server_Correct\<close>: \<open>attention_broker_server/AttentionBrokerServer\<close>. The
    steps of the server are its handlers, the shutdown and the steps of the pool.
  \<^item> \<open>Process_Entry\<close>, \<open>Process_Entry_Correct\<close>: \<open>main/main.cc\<close>. The steps of the process are the ones of
    its main thread and the ones of the server.
  \<^item> \<open>Expression_Hasher\<close>: \<open>hasher/expression_hasher\<close>. \<open>Commons_Utils\<close>: \<open>commons/Utils\<close>.
  \<^item> \<open>Message_Broker\<close>, \<open>Leadership_Broker\<close>, \<open>AtomSpace_Node\<close>: the files of \<open>atom_space_node\<close> and
    \<open>cache_node\<close>. \<open>Cache_Network\<close>: a server of the cache and its clients, as a transition system.
    \<open>Broadcast_Network\<close>: brokers in a network of any shape, one of which broadcasts a message.

  \<^bold>\<open>Interfaces.\<close> Each is a locale that is interpreted on the model of the code.
  \<^item> \<open>request_fifo\<close>: what \<open>enqueue\<close> and \<open>dequeue\<close> promise, over the list of the requests; \<open>rq\<close> is the
    circular array. A script of operations returns what it returns on a list.
  \<^item> \<open>merging_map\<close>: a map whose insertion merges; \<open>trie\<close> is the handle trie, for every type of values.
    The network and the spreader use the trie through its laws.
  \<^item> \<open>rounding\<close>: a monotone, idempotent rounding that keeps 0 and 1; \<open>binary64\<close> and \<open>exact\<close>.
  \<^item> \<open>counting_loop\<close>: a loop whose body adds an amount per item; the loops of the updater, nested, and
    the processing of a list of requests.
  \<^item> \<open>election\<close>: what the loop of a joining node needs of an election; \<open>smf\<close> is the election of
    \<open>SingleMasterServer\<close>.

  \<^bold>\<open>What is shown.\<close>
  \<^item> The server, end to end: after a shutdown the counters of every context are the sums of what its
    \<open>correlate\<close> calls add, whatever the interleaving of handlers and threads; no thread fails on
    valid requests; a run of the server is a run of the pool.
  \<^item> The process: it listens at the port of its command line; a wrong command line ends it with status 1;
    after the signal it is terminated, and never exits.
  \<^item> The pool: requests are taken in order, processed once, by a thread of their type; \<open>graceful_stop\<close>
    returns and leaves no request half-way.
  \<^item> Requests side by side: the counts are right for every interleaving of the accesses of correlation
    requests, and one request alone is \<open>correlation\<close>; but an edge that two threads insert at once can
    stay without its pointers, which the next stimulus request dereferences.
  \<^item> The locks of the trie: insertions and lookups are linearizable, a traversal visits what was there
    when it began, and the threads never wait for each other in a circle.
  \<^item> The network: counts, arities and their bounds. The spreader: the importances as a formula, for any
    rounding; no NaN or negative importance; the balance of the tokens.
  \<^item> The trie as a map, its invariant, the order of its traversal; the queue as a list; the hasher as
    a join, its hashes read back; the stopwatch; the star of the cache and the end of its broadcasts.
  \<^item> A broadcast in any network: it comes to an end, and is then executed once for each route from its
    origin, so that every node it can reach executes it, and a node with two routes does so twice.
  \<^item> What fails, each with the input that fails: keys that the digit table does not distinguish, a
    queue of \<open>2^31\<close> cells, edges of unknown nodes, requests without \<open>SUM\<close> or with invalid handles, a
    network without edges, a second shutdown, a request left in its queue, a send to an unknown peer,
    elements that overflow the buffer, the milliseconds of the stopwatch.

  \<^bold>\<open>Bounds.\<close> Loops of the code that end are total functions; the loops of the trie end because the
  8-bit cursor meets a leaf or the end of the key, the copy of a queue because the new array is
  finite. The loop that waits for a leader is a \<open>partial_function\<close>, and not returning is a value. A
  queue holds at most \<open>2^31\<close> requests, the largest size whose doubling does not wrap around; the
  properties of runs assume no more arrivals than that. A shutdown takes at most 42 steps (two for
  each of the ten workers, ten joins, the return, and a worker's way to its sleep) and two for each
  queued request. The rounds after the last join of a network of \<open>n\<close> nodes are at most \<open>2 * n^2\<close>.

  \<^bold>\<open>Abstractions.\<close> In the pool, the server and the cache network, the processing of a request, a
  handler, and a round of an inbox thread are single steps. The interleavings inside them are modelled
  for correlation requests, in \<open>Concurrent_Updates\<close>, where an insertion into a trie is one step. That it
  may be one is what the theory \<open>Trie_Linearizable\<close> shows, where a step of \<open>insert\<close>, \<open>lookup\<close> or
  \<open>traverse\<close> goes from one wait for a mutex to the next, and touches only nodes that its thread has
  locked. A request is its content, as if gRPC kept it until it is processed. An address of a node is
  the handle it was allocated for, an address of a network is its context. The exponent of a
  \<open>double\<close> is unbounded. The values of a stimulus request are read as
  \<open>unsigned int\<close>. Whether gRPC can bind an address, the iteration order of an unordered container, the
  random numbers, the clock, the MD5 digest and the rounding are parameters. In a broadcast, a call to a
  node that does not listen fails and is ignored, and the command changes no peers. An error ends the
  thread it happens in and, as in C++, the process, so that a crashed pool makes no step.

  \<^bold>\<open>Not modelled.\<close> The thread that runs the gRPC server of a message broker and the
  outbox thread, which only sleeps (\<open>SynchronousGRPC\<close>), \<open>Utils::warning\<close> and
  \<open>Utils::sleep\<close> (output and waiting), \<open>release_locks\<close> of \<open>HebbianNetwork.cc\<close>, which
  nothing calls, the release of memory other than the destructor of the trie, and the tests.
\<close>

end
